(* ===== verification/Prelude.thy ===== *)
theory Prelude
  imports Main "HOL-Library.Sublist" "HOL-Library.Word"
begin

text \<open>
  Shared vocabulary of the development.

  A C++ call that may throw is a value of a sum type: \<^verbatim>\<open>Inl\<close> carries the exception
  (or the undefined behaviour the call runs into), \<^verbatim>\<open>Inr\<close> the returned value, and
  \<^verbatim>\<open>bindE\<close> sequences two such calls the way an exception propagates.
  A \<^verbatim>\<open>std::string\<close> or \<^verbatim>\<open>std::string_view\<close> is a \<^verbatim>\<open>string\<close> (a list of bytes);
  a position that may be \<^verbatim>\<open>npos\<close> is a \<^verbatim>\<open>nat option\<close>.
\<close>

section \<open>Collections of rewrite rules\<close>

named_theorems view_simps "equations of the string_view operations"
named_theorems os_laws "what the model assumes of a system call, as proved for instances"
named_theorems inv_intros "an operation keeps its component's invariant"

section \<open>Exceptions as values\<close>

definition bindE :: "'e + 'a \<Rightarrow> ('a \<Rightarrow> 'e + 'b) \<Rightarrow> 'e + 'b" where
  "bindE m f = (case m of Inl e \<Rightarrow> Inl e | Inr x \<Rightarrow> f x)"

lemma bindE_Inl [simp]: "bindE (Inl e) f = Inl e"
  by (simp add: bindE_def)

lemma bindE_Inr [simp]: "bindE (Inr x) f = f x"
  by (simp add: bindE_def)

lemma bindE_eq_Inr: "bindE m f = Inr y \<longleftrightarrow> (\<exists>x. m = Inr x \<and> f x = Inr y)"
  by (cases m) auto

lemma bindE_eq_Inl: "bindE m f = Inl e \<longleftrightarrow> m = Inl e \<or> (\<exists>x. m = Inr x \<and> f x = Inl e)"
  by (cases m) auto

lemma bindE_cong [fundef_cong]:
  "m = m' \<Longrightarrow> (\<And>x. m' = Inr x \<Longrightarrow> f x = f' x) \<Longrightarrow> bindE m f = bindE m' f'"
  by (cases m') auto

section \<open>Searching a list\<close>

text \<open>The first index whose element satisfies a predicate; \<^verbatim>\<open>None\<close> is \<^verbatim>\<open>npos\<close>.\<close>

fun find_pos :: "('a \<Rightarrow> bool) \<Rightarrow> 'a list \<Rightarrow> nat option" where
  "find_pos P [] = None"
| "find_pos P (x # xs) = (if P x then Some 0 else map_option Suc (find_pos P xs))"

lemma find_pos_None: "find_pos P xs = None \<longleftrightarrow> (\<forall>x\<in>set xs. \<not> P x)"
  by (induction xs) auto

lemma find_pos_Some_iff:
  "find_pos P xs = Some n \<longleftrightarrow> n < length xs \<and> P (xs ! n) \<and> (\<forall>i<n. \<not> P (xs ! i))"
proof (induction xs arbitrary: n)
  case Nil
  then show ?case by simp
next
  case (Cons x xs)
  show ?case
  proof (cases n)
    case 0
    then show ?thesis by auto
  next
    case (Suc m)
    with Cons.IH[of m] show ?thesis by (auto simp: less_Suc_eq_0_disj)
  qed
qed

lemma find_pos_less: "find_pos P xs = Some n \<Longrightarrow> n < length xs"
  by (simp add: find_pos_Some_iff)

lemma find_pos_append_hit:
  assumes "\<forall>x\<in>set xs. \<not> P x" "P y"
  shows "find_pos P (xs @ y # ys) = Some (length xs)"
  using assms by (induction xs) auto

text \<open>The first index at which a pattern occurs, as \<^verbatim>\<open>std::string_view::find\<close> gives it.\<close>

fun find_str :: "'a list \<Rightarrow> 'a list \<Rightarrow> nat option" where
  "find_str pat [] = (if pat = [] then Some 0 else None)"
| "find_str pat (c # s) =
     (if prefix pat (c # s) then Some 0 else map_option Suc (find_str pat s))"

lemma find_str_Some_iff:
  "find_str pat s = Some n \<longleftrightarrow>
     n \<le> length s \<and> prefix pat (drop n s) \<and> (\<forall>i<n. \<not> prefix pat (drop i s))"
proof (induction s arbitrary: n)
  case Nil
  then show ?case by auto
next
  case (Cons c s)
  show ?case
  proof (cases n)
    case 0
    then show ?thesis by auto
  next
    case (Suc m)
    with Cons.IH[of m] show ?thesis by (auto simp: less_Suc_eq_0_disj)
  qed
qed

lemma find_str_None_iff: "find_str pat s = None \<longleftrightarrow> (\<forall>i\<le>length s. \<not> prefix pat (drop i s))"
proof (induction s)
  case Nil
  then show ?case by auto
next
  case (Cons c s)
  have "(\<forall>i\<le>length (c # s). \<not> prefix pat (drop i (c # s))) \<longleftrightarrow>
        \<not> prefix pat (c # s) \<and> (\<forall>i\<le>length s. \<not> prefix pat (drop i s))"
    by (auto simp: All_less_Suc2 simp flip: less_Suc_eq_le)
  with Cons.IH show ?case by auto
qed

lemma find_str_Nil [simp]: "find_str [] s = Some 0"
  by (cases s) auto

lemma find_str_bound: "find_str pat s = Some n \<Longrightarrow> n + length pat \<le> length s"
  by (auto simp: find_str_Some_iff dest: prefix_length_le)

lemma find_str_split:
  assumes "find_str pat s = Some n"
  shows "s = take n s @ pat @ drop (n + length pat) s"
proof -
  from assms obtain t where t: "drop n s = pat @ t"
    by (auto simp: find_str_Some_iff elim: prefixE)
  then have "drop (n + length pat) s = t"
    by (metis add.commute append_eq_conv_conj drop_drop)
  with t show ?thesis by (metis append_take_drop_id)
qed

lemma find_str_skip:
  "\<not> prefix pat (c # s) \<Longrightarrow> find_str pat (c # s) = map_option Suc (find_str pat s)"
  by simp

end
