(* ===== verification/Std_String.thy ===== *)
theory Std_String
  imports Prelude
begin

text \<open>
  The part of the C++ standard library's string conversions that the sources call:
  \<^verbatim>\<open>std::to_string\<close> on unsigned integers (\<^verbatim>\<open>6.http/lib/message.cpp\<close>,
  \<^verbatim>\<open>3.tcp/lib/address.cpp\<close>), \<^verbatim>\<open>std::stoul\<close> on a 64-bit
  \<^verbatim>\<open>unsigned long\<close> (\<^verbatim>\<open>6.http/lib/message.cpp\<close>) and \<^verbatim>\<open>std::stoi\<close> on a
  32-bit \<^verbatim>\<open>int\<close> (\<^verbatim>\<open>0.Interview/task.cpp\<close>). The conversions skip leading
  whitespace, read a sign and the longest run of digits and ignore what follows it;
  \<^verbatim>\<open>stoul\<close> negates modulo \<^verbatim>\<open>2 ^ 64\<close>.
\<close>

section \<open>Character classes of the C locale\<close>

definition is_digit :: "char \<Rightarrow> bool" where
  "is_digit c \<longleftrightarrow> (48::nat) \<le> of_char c \<and> (of_char c :: nat) \<le> 57"

definition is_cspace :: "char \<Rightarrow> bool" where
  "is_cspace c \<longleftrightarrow> (of_char c :: nat) = 32 \<or> (9::nat) \<le> of_char c \<and> (of_char c :: nat) \<le> 13"

definition digit_val :: "char \<Rightarrow> nat" where
  "digit_val c = of_char c - 48"

definition digit_char :: "nat \<Rightarrow> char" where
  "digit_char d = char_of (48 + d)"

lemma digit_char_is_digit [simp]: "d < 10 \<Longrightarrow> is_digit (digit_char d)"
  by (simp add: is_digit_def digit_char_def)

lemma digit_val_digit_char [simp]: "d < 10 \<Longrightarrow> digit_val (digit_char d) = d"
  by (simp add: digit_val_def digit_char_def)

lemma is_digit_not_space: "is_digit c \<Longrightarrow> \<not> is_cspace c"
  by (auto simp: is_digit_def is_cspace_def)

lemma is_digit_not_sign: "is_digit c \<Longrightarrow> c \<noteq> CHR ''-'' \<and> c \<noteq> CHR ''+''"
  by (auto simp: is_digit_def)

section \<open>Printing\<close>

fun to_string_nat :: "nat \<Rightarrow> string" where
  "to_string_nat n =
     (if n < 10 then [digit_char n] else to_string_nat (n div 10) @ [digit_char (n mod 10)])"

declare to_string_nat.simps [simp del]

definition digits_value :: "string \<Rightarrow> nat" where
  "digits_value ds = foldl (\<lambda>a c. 10 * a + digit_val c) 0 ds"

lemma digits_value_snoc: "digits_value (ds @ [c]) = 10 * digits_value ds + digit_val c"
  by (simp add: digits_value_def)

lemma to_string_nat_digits: "\<forall>c\<in>set (to_string_nat n). is_digit c"
proof (induction n rule: to_string_nat.induct)
  case (1 n)
  then show ?case by (subst to_string_nat.simps) auto
qed

lemma to_string_nat_neq_Nil [simp]: "to_string_nat n \<noteq> []"
  by (subst to_string_nat.simps) simp

lemma digits_value_to_string [simp]: "digits_value (to_string_nat n) = n"
proof (induction n rule: to_string_nat.induct)
  case (1 n)
  show ?case
  proof (cases "n < 10")
    case True
    then show ?thesis by (subst to_string_nat.simps) (simp add: digits_value_def)
  next
    case False
    with 1 show ?thesis
      by (subst to_string_nat.simps) (simp add: digits_value_snoc)
  qed
qed

section \<open>Reading\<close>

datatype std_error = invalid_argument | out_of_range

text \<open>The sign and the text after it.\<close>

fun split_sign :: "string \<Rightarrow> bool \<times> string" where
  "split_sign [] = (False, [])"
| "split_sign (c # s) =
     (if c = CHR ''-'' then (True, s) else if c = CHR ''+'' then (False, s) else (False, c # s))"

definition stoul :: "string \<Rightarrow> std_error + nat" where
  "stoul s =
     (let (neg, s') = split_sign (dropWhile is_cspace s);
          ds = takeWhile is_digit s'
      in if ds = [] then Inl invalid_argument
         else if 2 ^ 64 \<le> digits_value ds then Inl out_of_range
         else Inr (if neg then (2 ^ 64 - digits_value ds) mod 2 ^ 64 else digits_value ds))"

definition stoi :: "string \<Rightarrow> std_error + int" where
  "stoi s =
     (let (neg, s') = split_sign (dropWhile is_cspace s);
          ds = takeWhile is_digit s';
          v = (if neg then - int (digits_value ds) else int (digits_value ds))
      in if ds = [] then Inl invalid_argument
         else if v < - (2 ^ 31) \<or> 2 ^ 31 \<le> v then Inl out_of_range
         else Inr v)"

lemma takeWhile_digits_rest:
  "rest = [] \<or> \<not> is_digit (hd rest) \<Longrightarrow> takeWhile is_digit rest = []"
  by (cases rest) auto

text \<open>A text that starts with digits is neither skipped over nor read as signed.\<close>

lemma split_sign_digits:
  assumes "ds \<noteq> []" "\<forall>c\<in>set ds. is_digit c"
  shows "split_sign (dropWhile is_cspace (ds @ rest)) = (False, ds @ rest)"
  using assms is_digit_not_space is_digit_not_sign by (cases ds) auto

lemma stoul_digits:
  assumes "ds \<noteq> []" "\<forall>c\<in>set ds. is_digit c" "rest = [] \<or> \<not> is_digit (hd rest)"
  shows "stoul (ds @ rest) =
    (if 2 ^ 64 \<le> digits_value ds then Inl out_of_range else Inr (digits_value ds))"
  using assms by (simp add: stoul_def split_sign_digits takeWhile_digits_rest)

lemma stoi_digits:
  assumes "ds \<noteq> []" "\<forall>c\<in>set ds. is_digit c"
  shows "stoi ds =
    (if 2 ^ 31 \<le> digits_value ds then Inl out_of_range else Inr (int (digits_value ds)))"
proof -
  have tw: "takeWhile is_digit ds = ds" using assms by simp
  have sg: "split_sign (dropWhile is_cspace ds) = (False, ds)"
    using assms split_sign_digits[of ds "[]"] by simp
  show ?thesis using assms(1) by (auto simp: stoi_def sg tw)
qed

lemma stoul_to_string: "n < 2 ^ 64 \<Longrightarrow> stoul (to_string_nat n) = Inr n"
  using stoul_digits[of "to_string_nat n" "[]"] by (simp add: to_string_nat_digits)

lemma stoul_bound: "stoul s = Inr n \<Longrightarrow> n < 2 ^ 64"
  by (auto simp: stoul_def Let_def split: prod.splits if_splits)

end
