(* ===== verification/Std_Search.thy ===== *)
theory Std_Search
  imports Prelude "HOL-Library.List_Lexorder" "HOL-Library.Char_ord"
begin

text \<open>
  \<^verbatim>\<open>std::binary_search\<close> of the C++ standard library, as the header parser of
  \<^verbatim>\<open>6.http/lib/message.cpp\<close> (line 134) uses it on its tables of header names:
  \<^verbatim>\<open>lower_bound\<close> halves the range, and the search compares the element found. Strings are
  compared as \<^verbatim>\<open>std::string_view\<close> does, byte by byte.
\<close>

section \<open>The search\<close>

function lower_bound :: "'a::linorder list \<Rightarrow> nat \<Rightarrow> nat \<Rightarrow> 'a \<Rightarrow> nat" where
  "lower_bound tbl first len val =
     (if len = 0 then first
      else let half = len div 2; middle = first + half
        in if tbl ! middle < val then lower_bound tbl (middle + 1) (len - half - 1) val
           else lower_bound tbl first half val)"
  by pat_completeness auto
termination
  by (relation "measure (\<lambda>(tbl, first, len, val). len)") auto

declare lower_bound.simps [simp del]

definition binary_search :: "'a::linorder list \<Rightarrow> 'a \<Rightarrow> bool" where
  "binary_search tbl val =
     (let i = lower_bound tbl 0 (length tbl) val
      in i \<noteq> length tbl \<and> \<not> val < tbl ! i)"

section \<open>On a sorted table it is membership\<close>

lemma lower_bound_partitions:
  assumes "sorted tbl" "first + len \<le> length tbl"
    and "\<And>i. i < first \<Longrightarrow> tbl ! i < val"
    and "\<And>i. first + len \<le> i \<Longrightarrow> i < length tbl \<Longrightarrow> val \<le> tbl ! i"
  shows "lower_bound tbl first len val \<le> length tbl \<and>
    (\<forall>i<lower_bound tbl first len val. tbl ! i < val) \<and>
    (\<forall>i. lower_bound tbl first len val \<le> i \<longrightarrow> i < length tbl \<longrightarrow> val \<le> tbl ! i)"
  using assms
proof (induction tbl first len val rule: lower_bound.induct)
  case (1 tbl first len val)
  show ?case
  proof (cases "len = 0")
    case True
    with "1.prems" show ?thesis by (simp add: lower_bound.simps[of _ _ 0])
  next
    case False
    define middle where "middle = first + len div 2"
    have mid: "middle < length tbl" using False "1.prems"(2) by (simp add: middle_def)
    show ?thesis
    proof (cases "tbl ! middle < val")
      case True
      have below: "tbl ! i < val" if "i < middle + 1" for i
      proof -
        from that mid "1.prems"(1) have "tbl ! i \<le> tbl ! middle"
          by (simp add: sorted_nth_mono)
        with True show ?thesis by simp
      qed
      have "middle + 1 + (len - len div 2 - 1) = first + len"
        using False by (simp add: middle_def)
      with True False below "1.IH"(1)[OF False refl middle_def] "1.prems" show ?thesis
        by (subst (1 2 3) lower_bound.simps) (simp add: middle_def Let_def)
    next
      case high: False
      have above: "val \<le> tbl ! i" if "middle \<le> i" "i < length tbl" for i
      proof -
        from that "1.prems"(1) have "tbl ! middle \<le> tbl ! i" by (simp add: sorted_nth_mono)
        with high show ?thesis by simp
      qed
      with high False mid "1.IH"(2)[OF False refl middle_def] "1.prems" show ?thesis
        by (subst (1 2 3) lower_bound.simps) (simp add: middle_def Let_def)
    qed
  qed
qed

lemma binary_search_sorted:
  assumes "sorted tbl"
  shows "binary_search tbl val \<longleftrightarrow> val \<in> set tbl"
proof -
  define i where "i = lower_bound tbl 0 (length tbl) val"
  have i: "i \<le> length tbl" "\<And>j. j < i \<Longrightarrow> tbl ! j < val"
    "\<And>j. i \<le> j \<Longrightarrow> j < length tbl \<Longrightarrow> val \<le> tbl ! j"
    using lower_bound_partitions[OF assms, of 0 "length tbl" val] by (auto simp: i_def)
  have "val \<in> set tbl \<longleftrightarrow> i < length tbl \<and> val = tbl ! i"
  proof
    assume "val \<in> set tbl"
    then obtain j where j: "j < length tbl" "tbl ! j = val" by (auto simp: in_set_conv_nth)
    then have "i \<le> j" using i(2) by (meson less_irrefl not_le)
    then have "tbl ! i \<le> tbl ! j" using assms j(1) by (simp add: sorted_nth_mono)
    with j i(3)[of i] \<open>i \<le> j\<close> show "i < length tbl \<and> val = tbl ! i" by auto
  qed auto
  then show ?thesis using i(1) i(3)[of i] by (auto simp: binary_search_def Let_def i_def)
qed

end
