(* ===== verification/Http_Parser.thy ===== *)
theory Http_Parser
  imports Std_String Std_Search
begin

text \<open>
  The helper functions of the HTTP message parser, \<^verbatim>\<open>6.http/lib/message.cpp\<close> lines 8 to
  178: the scanner on a \<^verbatim>\<open>std::string_view\<close>, the checks that tell incomplete from
  incorrect data, the protocol, header and body parsers.

  A function that takes \<^verbatim>\<open>std::string_view&\<close> returns the rest of the view. Calling
  \<^verbatim>\<open>remove_prefix(n)\<close> on a view shorter than \<^verbatim>\<open>n\<close>, or building a string from
  iterators past the end, is undefined behaviour in C++: it is the outcome
  \<^verbatim>\<open>Undefined_Behaviour\<close>, so that a theorem which rules it out says something.
\<close>

section \<open>Errors\<close>

text \<open>\<^verbatim>\<open>6.http/include/httperr.h\<close>: the two parsing errors, with their messages.\<close>

datatype parse_error =
    ExpectingData string
  | IncorrectData string
  | Undefined_Behaviour

section \<open>Scanner\<close>

definition is_space :: "char \<Rightarrow> bool" where
  "is_space c \<longleftrightarrow> c = CHR '' '' \<or> c = CHR 0x09"

fun LeftStrip :: "string \<Rightarrow> string" where
  "LeftStrip [] = []"
| "LeftStrip (c # sv) = (if is_space c then LeftStrip sv else c # sv)"

definition token_end :: "char \<Rightarrow> bool" where
  "token_end c \<longleftrightarrow> c = CHR '' '' \<or> c = CHR 0x0D"

definition ReadToken :: "string \<Rightarrow> string \<times> string" where
  "ReadToken sv =
     (let sv1 = LeftStrip sv;
          n = (case find_pos token_end sv1 of None \<Rightarrow> length sv1 | Some pos \<Rightarrow> pos)
      in (take n sv1, drop n sv1))"

definition remove_prefix :: "nat \<Rightarrow> string \<Rightarrow> parse_error + string" where
  "remove_prefix n sv = (if n \<le> length sv then Inr (drop n sv) else Inl Undefined_Behaviour)"

abbreviation CRLF :: string where
  "CRLF \<equiv> [CHR 0x0D, CHR 0x0A]"

section \<open>Tables\<close>

text \<open>
  \<^verbatim>\<open>METHODS\<close> is declared as an array of ten views with nine initialisers: its last
  element is the default, empty view.
\<close>

definition METHODS :: "string list" where
  "METHODS =
    [''CONNECT'', ''DELETE'', ''GET'', ''HEAD'', ''OPTIONS'', ''PATCH'', ''POST'', ''PUT'',
     ''TRACE'', []]"

definition VERSIONS :: "string list" where
  "VERSIONS =
    [''0.9'', ''1.0'', ''1.1'']"

definition REQUEST_HEADER_NAMES :: "string list" where
  "REQUEST_HEADER_NAMES =
    [''A-IM'', ''Accept'', ''Accept-Charset'', ''Accept-Control-Request-Headers'',
     ''Accept-Control-Request-Method'', ''Accept-DateTime'', ''Accept-Encoding'',
     ''Accept-Language'', ''Authorization'', ''Cache-Control'', ''Connection'',
     ''Content-Encoding'', ''Content-Length'', ''Content-MD5'', ''Content-Type'', ''Cookie'',
     ''DNT'', ''Date'', ''Expect'', ''Forwarded'', ''From'', ''Front-End-Https'',
     ''HTTP2-Settings'', ''Host'', ''If-Match'', ''If-Modified-Since'', ''If-None-Match'',
     ''If-Unmodified-Since'', ''IfRange'', ''Max-Forward'', ''Origin'', ''Pragma'',
     ''Proxy-Authorization'', ''Proxy-Connection'', ''Range'', ''Referer'', ''Save-Data'',
     ''TE'', ''Trailer'', ''Transfer-Encoding'', ''Upgrade'', ''Upgrade-Insecure-Requests'',
     ''User-Agent'', ''Via'', ''Warning'']"

definition RESPONCE_HEADER_NAMES :: "string list" where
  "RESPONCE_HEADER_NAMES =
    [''Accept-Patch'', ''Accept-Ranges'', ''Access-Control-Allow-Headers'',
     ''Access-Control-Allow-Methods'', ''Access-Control-Allow-Origin'',
     ''Access-Control-AllowCredentials'', ''Access-Control-Expose-Headers'',
     ''Access-Control-Max-Age'', ''Age'', ''Allow'', ''Alt-Svc'', ''Cache-Control'',
     ''Connection'', ''Content-Disposition'', ''Content-Encoding'', ''Content-Language'',
     ''Content-Length'', ''Content-Locationg'', ''Content-MD5'', ''Content-Range'',
     ''Content-Security-Policy'', ''Content-Type'', ''Date'', ''Delta-Base'', ''ETag'',
     ''Expires'', ''IM'', ''Last-Modified'', ''Link'', ''Location'', ''P3P'', ''Pragma'',
     ''Proxy-Authenticate'', ''Public-Key-Pins'', ''Refresh'', ''Retry-After'', ''Server'',
     ''Set-Cookie'', ''Status'', ''Strict-Transport-Security'', ''Timing-Allow-Origin'',
     ''Tk'', ''Trailer'', ''Transfer-Encoding'', ''Upgrade'', ''Vary'', ''Via'',
     ''WWW-Authenticate'', ''Warning'']"

section \<open>Comparing what is there with what is expected\<close>

text \<open>The length of the longest common prefix.\<close>

fun mismatch :: "string \<Rightarrow> string \<Rightarrow> nat" where
  "mismatch (a # lhs) (b # rhs) = (if a = b then Suc (mismatch lhs rhs) else 0)"
| "mismatch _ _ = 0"

text \<open>An empty hint stands for the default argument.\<close>

definition expecting :: "string \<Rightarrow> string \<Rightarrow> string \<Rightarrow> string \<Rightarrow> parse_error + nat" where
  "expecting expectation reality full_message hint =
     (let cur = mismatch expectation reality
      in if 0 < cur \<and> cur = length reality \<and> cur < length expectation \<and> full_message = []
         then Inl (ExpectingData (if hint = [] then expectation else hint))
         else Inr cur)"

text \<open>\<^verbatim>\<open>std::find_if\<close> with the throwing predicate: the first hit, or the first throw.\<close>

fun find_expected :: "string list \<Rightarrow> string \<Rightarrow> string \<Rightarrow> string \<Rightarrow> parse_error + bool" where
  "find_expected [] reality full_message hint = Inr False"
| "find_expected (sv # views) reality full_message hint =
     bindE (expecting sv reality full_message hint)
       (\<lambda>cur. if cur = length reality then Inr True
              else find_expected views reality full_message hint)"

definition expecting_to_find_in_range ::
  "string list \<Rightarrow> string \<Rightarrow> string \<Rightarrow> string \<Rightarrow> parse_error + unit" where
  "expecting_to_find_in_range views reality full_message hint =
     bindE (find_expected views reality full_message hint)
       (\<lambda>found. if found then Inr ()
                else Inl (IncorrectData (if hint = [] then reality else hint)))"

section \<open>The protocol and its version\<close>

definition parse_protocol :: "string \<Rightarrow> parse_error + (string \<times> string)" where
  "parse_protocol mes_sv =
     (let (token, mes_sv) = ReadToken mes_sv
      in bindE (expecting ''HTTP/'' token mes_sv [])
           (\<lambda>cur. if cur = 0 then Inl (IncorrectData ''Request protocol'')
             else bindE (remove_prefix cur token)
               (\<lambda>token. if token = [] then Inl (ExpectingData ''Request protocol version'')
                 else if 3 < length token then Inl (IncorrectData ''Request version'')
                 else bindE (expecting_to_find_in_range VERSIONS token mes_sv ''Request version'')
                   (\<lambda>_. Inr (token, mes_sv)))))"

section \<open>Headers\<close>

text \<open>\<^verbatim>\<open>6.http/include/message.h\<close>, struct \<^verbatim>\<open>Header\<close>.\<close>

record Header =
  header_name :: string
  header_value :: string

definition to_string_header :: "Header \<Rightarrow> string" where
  "to_string_header h = header_name h @ '': '' @ header_value h @ CRLF"

text \<open>
  One turn of the loop of \<^verbatim>\<open>parse_headers\<close>: a token that ends in its only colon, a name
  from the table or an \<^verbatim>\<open>X-\<close> name, no second use, then the value up to the line break.
\<close>

definition parse_header_line ::
  "string list \<Rightarrow> Header list \<Rightarrow> string \<Rightarrow> parse_error + (Header list \<times> string)" where
  "parse_header_line names headers mes_sv =
     (let (token, mes_sv) = ReadToken mes_sv
      in if token = [] \<or> find_pos (\<lambda>c. c = CHR '':'') token \<noteq> Some (length token - 1)
         then Inl (IncorrectData ''Header name'')
         else let token = butlast token
           in if \<not> binary_search names token \<and> find_str ''X-'' token \<noteq> Some 0
              then Inl (IncorrectData ''Header name'')
              else if \<exists>h\<in>set headers. header_name h = token
              then Inl (IncorrectData ''Multiple header use'')
              else let mes_sv = LeftStrip mes_sv
                in case find_str CRLF mes_sv of
                     None \<Rightarrow> Inl Undefined_Behaviour
                   | Some cur \<Rightarrow>
                       Inr (headers @ [\<lparr>header_name = token, header_value = take cur mes_sv\<rparr>],
                            drop (cur + 2) mes_sv))"

lemma LeftStrip_eq: "LeftStrip sv = dropWhile is_space sv"
  by (induction sv) auto

lemma LeftStrip_length [simp]: "length (LeftStrip sv) \<le> length sv"
  by (simp add: LeftStrip_eq length_dropWhile_le)

lemma ReadToken_eq:
  "ReadToken sv = (takeWhile (\<lambda>c. \<not> token_end c) (LeftStrip sv),
                   dropWhile (\<lambda>c. \<not> token_end c) (LeftStrip sv))"
proof -
  have "take (case find_pos token_end xs of None \<Rightarrow> length xs | Some pos \<Rightarrow> pos) xs =
          takeWhile (\<lambda>c. \<not> token_end c) xs \<and>
        drop (case find_pos token_end xs of None \<Rightarrow> length xs | Some pos \<Rightarrow> pos) xs =
          dropWhile (\<lambda>c. \<not> token_end c) xs" for xs
    by (induction xs) (auto split: option.splits)
  then show ?thesis by (simp add: ReadToken_def Let_def)
qed

lemma ReadToken_length: "ReadToken sv = (token, rest) \<Longrightarrow> length token + length rest \<le> length sv"
proof -
  assume "ReadToken sv = (token, rest)"
  then have "token @ rest = LeftStrip sv" by (auto simp: ReadToken_eq)
  then have "length token + length rest = length (LeftStrip sv)" by (metis length_append)
  then show ?thesis by simp
qed

lemma parse_header_line_shorter:
  assumes "parse_header_line names headers sv = Inr (hs, sv')"
  shows "length sv' < length sv"
proof -
  obtain token rest where rt: "ReadToken sv = (token, rest)" by (cases "ReadToken sv")
  with assms obtain cur where "find_str CRLF (LeftStrip rest) = Some cur"
      and sv': "sv' = drop (cur + 2) (LeftStrip rest)"
    by (auto simp: parse_header_line_def Let_def split: if_splits option.splits)
  then have "cur + 2 \<le> length (LeftStrip rest)" using find_str_bound by fastforce
  then have "length sv' < length (LeftStrip rest)" by (simp add: sv')
  also have "\<dots> \<le> length rest" by (rule LeftStrip_length)
  also have "\<dots> \<le> length sv" using ReadToken_length[OF rt] by simp
  finally show ?thesis .
qed

function parse_headers_loop ::
  "string list \<Rightarrow> Header list \<Rightarrow> string \<Rightarrow> parse_error + (Header list \<times> string)" where
  "parse_headers_loop names headers mes_sv =
     (case find_str CRLF mes_sv of
        None \<Rightarrow> if mes_sv = [] then Inl (ExpectingData ''Header'') else Inr (headers, mes_sv)
      | Some cur \<Rightarrow>
          if cur = 0 then Inr (headers, mes_sv)
          else case parse_header_line names headers mes_sv of
                 Inl e \<Rightarrow> Inl e
               | Inr (hs, sv') \<Rightarrow> parse_headers_loop names hs sv')"
  by pat_completeness auto
termination
  by (relation "measure (\<lambda>(names, headers, sv). length sv)")
    (auto dest: parse_header_line_shorter)

declare parse_headers_loop.simps [simp del]

definition parse_headers :: "string list \<Rightarrow> string \<Rightarrow> parse_error + (Header list \<times> string)" where
  "parse_headers names mes_sv = parse_headers_loop names [] mes_sv"

section \<open>Body\<close>

definition is_length_header :: "Header \<Rightarrow> bool" where
  "is_length_header h \<longleftrightarrow>
     header_name h = ''Content-Length'' \<or> header_name h = ''Transfer-Encoding''"

definition parse_body :: "Header list \<Rightarrow> string \<Rightarrow> parse_error + string" where
  "parse_body headers mes_sv =
     (case List.find is_length_header headers of
        Some it \<Rightarrow>
          (case stoul (header_value it) of
             Inl _ \<Rightarrow> Inl (IncorrectData ''Content length'')
           | Inr sz \<Rightarrow>
               if length mes_sv < sz then Inl (ExpectingData ''Body'')
               else if sz < length mes_sv then Inl (IncorrectData ''Size of body'')
               else Inr mes_sv)
      | None \<Rightarrow>
          if mes_sv \<noteq> [] then Inl (IncorrectData ''Body exists, but no content length found'')
          else Inr [])"

end
