(* ===== verification/Http_Parser_Facts.thy ===== *)
theory Http_Parser_Facts
  imports Http_Parser
begin

text \<open>
  What the parser's helpers compute: tokens, the prefix test behind \<^verbatim>\<open>expecting\<close>, the
  protocol, one header line, the header loop, and the body. Every lemma is about the
  definitions of \<^verbatim>\<open>Http_Parser\<close>; the message classes use them in both directions, from a
  printed message to its fields and from a parsed text to what its fields satisfy.
\<close>

section \<open>Tokens\<close>

lemmas token_chars = is_space_def token_end_def

definition token_text :: "string \<Rightarrow> bool" where
  "token_text w \<longleftrightarrow> w \<noteq> [] \<and> (\<forall>c\<in>set w. \<not> token_end c) \<and> \<not> is_space (hd w)"

lemma LeftStrip_id [view_simps]: "sv = [] \<or> \<not> is_space (hd sv) \<Longrightarrow> LeftStrip sv = sv"
  by (cases sv) auto

lemma LeftStrip_hd: "LeftStrip sv = [] \<or> \<not> is_space (hd (LeftStrip sv))"
  by (induction sv) auto

lemma LeftStrip_suffix: "suffix (LeftStrip sv) sv"
  by (simp add: LeftStrip_eq suffix_dropWhile)

lemma ReadToken_space [view_simps]: "is_space c \<Longrightarrow> ReadToken (c # sv) = ReadToken sv"
  by (simp add: ReadToken_def)

lemma ReadToken_token [view_simps]:
  assumes "token_text w" "rest = [] \<or> token_end (hd rest)"
  shows "ReadToken (w @ rest) = (w, rest)"
proof -
  have "LeftStrip (w @ rest) = w @ rest"
    using assms(1) by (intro LeftStrip_id) (auto simp: token_text_def)
  moreover have "takeWhile (\<lambda>c. \<not> token_end c) rest = []" "dropWhile (\<lambda>c. \<not> token_end c) rest = rest"
    using assms(2) by (cases rest; simp)+
  ultimately show ?thesis
    using assms(1) by (simp add: ReadToken_eq token_text_def)
qed

lemma ReadToken_split:
  assumes "ReadToken sv = (token, rest)"
  obtains blanks where "sv = blanks @ token @ rest" "\<forall>c\<in>set blanks. is_space c"
    "\<forall>c\<in>set token. \<not> token_end c" "token = [] \<or> \<not> is_space (hd token)"
    "rest = [] \<or> token_end (hd rest)"
proof
  let ?sv = "LeftStrip sv"
  have t: "token = takeWhile (\<lambda>c. \<not> token_end c) ?sv" "rest = dropWhile (\<lambda>c. \<not> token_end c) ?sv"
    using assms by (simp_all add: ReadToken_eq)
  show "sv = takeWhile is_space sv @ token @ rest" by (simp add: t LeftStrip_eq)
  show "\<forall>c\<in>set (takeWhile is_space sv). is_space c" by (auto dest: set_takeWhileD)
  show "\<forall>c\<in>set token. \<not> token_end c" by (auto simp: t dest: set_takeWhileD)
  show "rest = [] \<or> token_end (hd rest)" using hd_dropWhile[of "\<lambda>c. \<not> token_end c" ?sv] by (auto simp: t)
  show "token = [] \<or> \<not> is_space (hd token)"
    using LeftStrip_hd[of sv] by (cases ?sv) (auto simp: t)
qed

lemma ReadToken_token_text: "ReadToken sv = (token, rest) \<Longrightarrow> token \<noteq> [] \<Longrightarrow> token_text token"
  by (erule ReadToken_split) (simp add: token_text_def)

text \<open>At a carriage return the scanner reads the empty token and does not move.\<close>

lemma ReadToken_empty:
  assumes "ReadToken sv = ([], rest)"
  shows "rest = [] \<or> hd rest = CHR 0x0D"
proof -
  have "rest = LeftStrip sv"
    using assms by (cases "LeftStrip sv") (auto simp: ReadToken_eq split: if_splits)
  then have "rest = [] \<or> \<not> is_space (hd rest)" using LeftStrip_hd[of sv] by simp
  moreover have "rest = [] \<or> token_end (hd rest)" using assms by (rule ReadToken_split)
  ultimately show ?thesis by (auto simp: token_chars)
qed

lemma ReadToken_at_end:
  "rest = [] \<or> hd rest = CHR 0x0D \<Longrightarrow> ReadToken rest = ([], rest)"
  by (cases rest) (auto simp: ReadToken_eq token_chars)

section \<open>Expectations\<close>

lemma mismatch_le: "mismatch e r \<le> length r \<and> mismatch e r \<le> length e"
  by (induction e r rule: mismatch.induct) auto

lemma mismatch_full: "mismatch e r = length r \<longleftrightarrow> prefix r e"
  by (induction e r rule: mismatch.induct) (auto simp: prefix_Cons)

lemma mismatch_append [simp]: "mismatch e (e @ r) = length e"
  by (induction e) auto

lemma mismatch_pos: "0 < mismatch e r \<longleftrightarrow> e \<noteq> [] \<and> r \<noteq> [] \<and> hd e = hd r"
  by (cases e; cases r) auto

text \<open>
  The search stops at the first view that has the text as a prefix: the whole view, or more
  text to come, is a hit; otherwise the rest of that view is expected.
\<close>

lemma find_expected_spec:
  "find_expected views r full hint =
     (case List.find (\<lambda>v. prefix r v) views of
        None \<Rightarrow> Inr False
      | Some v \<Rightarrow>
          if r \<noteq> [] \<and> r \<noteq> v \<and> full = []
          then Inl (ExpectingData (if hint = [] then v else hint)) else Inr True)"
proof (induction views)
  case Nil
  then show ?case by simp
next
  case (Cons v views)
  have len: "prefix r v \<Longrightarrow> length r < length v \<longleftrightarrow> r \<noteq> v"
    by (auto simp: prefix_def)
  show ?case
  proof (cases "prefix r v")
    case True
    then have "mismatch v r = length r" by (simp add: mismatch_full)
    with True len show ?thesis by (auto simp: expecting_def)
  next
    case False
    then have "mismatch v r \<noteq> length r" by (simp add: mismatch_full)
    with False Cons show ?thesis by (simp add: expecting_def)
  qed
qed

lemma expecting_to_find_ok [view_simps]:
  "full \<noteq> [] \<Longrightarrow> v \<in> set views \<Longrightarrow> prefix r v \<Longrightarrow>
   expecting_to_find_in_range views r full hint = Inr ()"
  by (auto simp: expecting_to_find_in_range_def find_expected_spec find_None_iff
      split: option.splits)

lemma expecting_to_find_Inr:
  "expecting_to_find_in_range views r full hint = Inr u \<Longrightarrow> \<exists>v\<in>set views. prefix r v"
  by (auto simp: expecting_to_find_in_range_def find_expected_spec find_Some_iff
      split: option.splits if_splits)

lemma expecting_to_find_no_UB:
  "expecting_to_find_in_range views r full hint \<noteq> Inl Undefined_Behaviour"
  by (auto simp: expecting_to_find_in_range_def find_expected_spec split: option.splits)

section \<open>The protocol\<close>

definition version_ok :: "string \<Rightarrow> bool" where
  "version_ok v \<longleftrightarrow> v \<noteq> [] \<and> (\<exists>w\<in>set VERSIONS. prefix v w)"

lemma VERSIONS_chars: "w \<in> set VERSIONS \<Longrightarrow> length w = 3 \<and> (\<forall>c\<in>set w. \<not> token_end c)"
  by (auto simp: VERSIONS_def token_chars)

lemma version_ok_chars:
  assumes "version_ok v"
  shows "length v \<le> 3 \<and> (\<forall>c\<in>set v. \<not> token_end c)"
proof -
  obtain w where w: "w \<in> set VERSIONS" "prefix v w" using assms by (auto simp: version_ok_def)
  then have "length v \<le> length w" "set v \<subseteq> set w"
    by (auto dest: prefix_length_le set_mono_prefix)
  with VERSIONS_chars[OF w(1)] show ?thesis by auto
qed

lemma parse_protocol_ok [view_simps]:
  assumes "version_ok v" "rest \<noteq> []" "token_end (hd rest)"
  shows "parse_protocol (''HTTP/'' @ v @ rest) = Inr (v, rest)"
proof -
  have "token_text (''HTTP/'' @ v)"
    using version_ok_chars[OF assms(1)] by (auto simp: token_text_def token_chars)
  then have "ReadToken (''HTTP/'' @ v @ rest) = (''HTTP/'' @ v, rest)"
    using ReadToken_token[of "''HTTP/'' @ v" rest] assms(3) by simp
  moreover have "expecting ''HTTP/'' (''HTTP/'' @ v) rest [] = Inr 5"
    using mismatch_append[of "''HTTP/''" v] by (simp add: expecting_def)
  moreover have "expecting_to_find_in_range VERSIONS v rest ''Request version'' = Inr ()"
    using assms by (auto simp: version_ok_def intro: expecting_to_find_ok)
  ultimately show ?thesis
    using assms(1) version_ok_chars[OF assms(1)]
    by (simp add: parse_protocol_def remove_prefix_def version_ok_def)
qed

lemma parse_protocol_space [view_simps]:
  "is_space c \<Longrightarrow> parse_protocol (c # sv) = parse_protocol sv"
  by (simp add: parse_protocol_def ReadToken_space)

lemma parse_protocol_Inr:
  assumes "parse_protocol sv = Inr (v, rest)"
  shows "version_ok v \<and> (\<exists>token. token \<noteq> [] \<and> ReadToken sv = (token, rest))"
proof -
  obtain token rest' where rt: "ReadToken sv = (token, rest')" by (cases "ReadToken sv")
  with assms have "rest' = rest" "token \<noteq> []" "version_ok v"
    by (auto simp: parse_protocol_def bindE_eq_Inr version_ok_def expecting_def Let_def
        dest: expecting_to_find_Inr split: if_splits)
  with rt show ?thesis by auto
qed

lemma parse_protocol_no_UB: "parse_protocol sv \<noteq> Inl Undefined_Behaviour"
proof -
  have "remove_prefix (mismatch e t) t \<noteq> Inl Undefined_Behaviour" for e t
    using mismatch_le[of e t] by (simp add: remove_prefix_def)
  then show ?thesis
    using expecting_to_find_no_UB
    by (auto simp: parse_protocol_def bindE_eq_Inl expecting_def Let_def
        split: prod.splits if_splits)
qed

lemma parse_protocol_empty:
  assumes "ReadToken sv = ([], rest)"
  shows "parse_protocol sv = Inl (IncorrectData ''Request protocol'')"
  using assms by (simp add: parse_protocol_def expecting_def)

section \<open>Line breaks\<close>

lemma find_str_ne_None: "find_str pat s \<noteq> None \<longleftrightarrow> (\<exists>a b. s = a @ pat @ b)"
proof
  assume "find_str pat s \<noteq> None"
  then obtain n where "find_str pat s = Some n" by auto
  then show "\<exists>a b. s = a @ pat @ b" using find_str_split by blast
next
  assume "\<exists>a b. s = a @ pat @ b"
  then obtain a b where "s = a @ pat @ b" by blast
  then have "prefix pat (drop (length a) s)" "length a \<le> length s" by simp_all
  then show "find_str pat s \<noteq> None" by (auto simp: find_str_None_iff)
qed

lemma find_CRLF_append:
  "find_str CRLF v = None \<Longrightarrow> find_str CRLF (v @ CRLF @ rest) = Some (length v)"
proof (induction v)
  case Nil
  then show ?case by simp
next
  case (Cons c v)
  have np: "\<not> prefix CRLF (c # v)" "find_str CRLF v = None"
    using Cons.prems by (auto split: if_splits)
  have "\<not> prefix CRLF (c # v @ CRLF @ rest)" using np(1) by (cases v) auto
  then have "find_str CRLF (c # v @ CRLF @ rest) =
      map_option Suc (find_str CRLF (v @ CRLF @ rest))" by (rule find_str_skip)
  with Cons.IH[OF np(2)] show ?case by (simp only: append_Cons length_Cons option.map)
qed

lemma find_str_shift:
  "pat \<noteq> [] \<Longrightarrow> \<forall>c\<in>set a. c \<noteq> hd pat \<Longrightarrow>
   find_str pat (a @ s) = map_option (\<lambda>n. length a + n) (find_str pat s)"
proof (induction a)
  case Nil
  then show ?case by (simp add: option.map_ident)
next
  case (Cons c a)
  have "\<not> prefix pat (c # a @ s)" using Cons.prems by (cases pat) auto
  then have "find_str pat (c # a @ s) = map_option Suc (find_str pat (a @ s))"
    by (rule find_str_skip)
  also have "\<dots> = map_option (\<lambda>n. length (c # a) + n) (find_str pat s)"
    using Cons by (simp add: option.map_comp comp_def)
  finally show ?case by (simp only: append_Cons)
qed

lemma find_CRLF_shift:
  "\<forall>c\<in>set a. c \<noteq> CHR 0x0D \<Longrightarrow>
   find_str CRLF (a @ s) = map_option (\<lambda>n. length a + n) (find_str CRLF s)"
  by (rule find_str_shift) auto

lemma no_CR_token: "\<forall>c\<in>set w. \<not> token_end c \<Longrightarrow> \<forall>c\<in>set w. c \<noteq> CHR 0x0D"
  unfolding token_end_def by blast

lemma no_CR_blank: "\<forall>c\<in>set w. is_space c \<Longrightarrow> \<forall>c\<in>set w. c \<noteq> CHR 0x0D"
  unfolding is_space_def by (rule ballI) (drule (1) bspec, auto)

lemma find_CRLF_take: "find_str CRLF s = Some n \<Longrightarrow> find_str CRLF (take n s) = None"
proof -
  assume n: "find_str CRLF s = Some n"
  have "\<not> prefix CRLF (drop i (take n s))" for i
  proof
    assume p: "prefix CRLF (drop i (take n s))"
    then have "i < n" by (cases "i < n") auto
    moreover have "prefix CRLF (drop i s)"
      using p by (metis append_take_drop_id drop_take prefixI prefix_order.trans)
    ultimately show False using n by (simp add: find_str_Some_iff)
  qed
  then show ?thesis by (simp add: find_str_None_iff)
qed

section \<open>Header lines\<close>

definition table_ok :: "string list \<Rightarrow> bool" where
  "table_ok names \<longleftrightarrow> sorted names \<and> [] \<notin> set names"

definition name_ok :: "string list \<Rightarrow> string \<Rightarrow> bool" where
  "name_ok names n \<longleftrightarrow> token_text n \<and> CHR '':'' \<notin> set n \<and> (n \<in> set names \<or> prefix ''X-'' n)"

definition value_ok :: "string \<Rightarrow> bool" where
  "value_ok v \<longleftrightarrow> find_str CRLF v = None \<and> (v = [] \<or> \<not> is_space (hd v))"

definition headers_ok :: "string list \<Rightarrow> Header list \<Rightarrow> bool" where
  "headers_ok names hs \<longleftrightarrow>
     (\<forall>h\<in>set hs. name_ok names (header_name h) \<and> value_ok (header_value h)) \<and>
     distinct (map header_name hs)"

lemma find_str_0: "find_str pat s = Some 0 \<longleftrightarrow> prefix pat s"
  by (simp add: find_str_Some_iff)

lemma headers_ok_snoc:
  "headers_ok names (hs @ [h]) \<longleftrightarrow> headers_ok names hs \<and> name_ok names (header_name h) \<and>
     value_ok (header_value h) \<and> header_name h \<notin> header_name ` set hs"
  by (auto simp: headers_ok_def)

lemma colon_token:
  "token \<noteq> [] \<and> find_pos (\<lambda>c. c = CHR '':'') token = Some (length token - 1) \<longleftrightarrow>
   (\<exists>n. token = n @ '':'' \<and> CHR '':'' \<notin> set n)"
proof
  assume t: "token \<noteq> [] \<and> find_pos (\<lambda>c. c = CHR '':'') token = Some (length token - 1)"
  then obtain n c where tok: "token = n @ [c]" by (cases token rule: rev_cases) auto
  with t have "c = CHR '':''" "\<forall>i<length n. n ! i \<noteq> CHR '':''"
    by (auto simp: find_pos_Some_iff nth_append split: if_splits)
  with tok show "\<exists>n. token = n @ '':'' \<and> CHR '':'' \<notin> set n" by (auto simp: in_set_conv_nth)
next
  assume "\<exists>n. token = n @ '':'' \<and> CHR '':'' \<notin> set n"
  then obtain n where "token = n @ '':''" "CHR '':'' \<notin> set n" by blast
  then show "token \<noteq> [] \<and> find_pos (\<lambda>c. c = CHR '':'') token = Some (length token - 1)"
    using find_pos_append_hit[of n "\<lambda>c. c = CHR '':''" "CHR '':''" "[]"] by auto
qed

lemma value_ok_take:
  assumes "find_str CRLF (LeftStrip sv) = Some n"
  shows "value_ok (take n (LeftStrip sv))"
  using find_CRLF_take[OF assms] LeftStrip_hd[of sv]
  by (cases n; cases "LeftStrip sv") (auto simp: value_ok_def)

lemma parse_header_line_ok:
  assumes "table_ok names" "name_ok names n" "value_ok v" "n \<notin> header_name ` set hs"
  shows "parse_header_line names hs (n @ '': '' @ v @ CRLF @ rest) =
    Inr (hs @ [\<lparr>header_name = n, header_value = v\<rparr>], rest)"
proof -
  let ?sv = "'' '' @ v @ CRLF @ rest"
  have "token_text (n @ '':'')"
    using assms(2) by (auto simp: name_ok_def token_text_def token_chars)
  then have tok: "ReadToken (n @ '': '' @ v @ CRLF @ rest) = (n @ '':'', ?sv)"
    using ReadToken_token[of "n @ '':''" ?sv] by (simp add: token_end_def)
  have "LeftStrip ?sv = v @ CRLF @ rest"
    using assms(3) LeftStrip_id[of "v @ CRLF @ rest"] by (cases v) (auto simp: value_ok_def token_chars)
  moreover have "find_str CRLF (v @ CRLF @ rest) = Some (length v)"
    using assms(3) by (intro find_CRLF_append) (simp add: value_ok_def)
  moreover have "n @ '':'' \<noteq> [] \<and>
      find_pos (\<lambda>c. c = CHR '':'') (n @ '':'') = Some (length (n @ '':'') - 1)"
    using assms(2) by (subst colon_token) (auto simp: name_ok_def)
  moreover have "binary_search names n \<or> find_str ''X-'' n = Some 0"
    using assms(1,2) by (auto simp: table_ok_def name_ok_def binary_search_sorted find_str_0)
  moreover have "\<not> (\<exists>h\<in>set hs. header_name h = n)" using assms(4) by auto
  ultimately show ?thesis unfolding parse_header_line_def tok by simp
qed

text \<open>What a turn of the loop did, read off its result; it never runs past the line break.\<close>

lemma parse_header_line_cases:
  assumes "table_ok names" "find_str CRLF sv = Some c0"
  shows "(\<exists>m. parse_header_line names hs sv = Inl (IncorrectData m)) \<or>
    (\<exists>h. parse_header_line names hs sv = Inr (hs @ [h], drop (c0 + 2) sv) \<and>
      name_ok names (header_name h) \<and> value_ok (header_value h) \<and>
      header_name h \<notin> header_name ` set hs)"
proof -
  obtain token rest where rt: "ReadToken sv = (token, rest)" by (cases "ReadToken sv")
  then obtain bl where sv: "sv = bl @ token @ rest" "\<forall>c\<in>set bl. is_space c"
      "\<forall>c\<in>set token. \<not> token_end c" "token = [] \<or> \<not> is_space (hd token)"
    by (rule ReadToken_split)
  obtain bl2 where bl2: "rest = bl2 @ LeftStrip rest" "\<forall>c\<in>set bl2. is_space c"
    using takeWhile_dropWhile_id[of is_space rest] set_takeWhileD[of _ is_space rest]
    by (metis LeftStrip_eq)
  define a where "a = bl @ token @ bl2"
  have "sv = a @ LeftStrip rest" using sv(1) bl2(1) by (simp add: a_def)
  moreover have "\<forall>c\<in>set a. c \<noteq> CHR 0x0D"
    using no_CR_blank[OF sv(2)] no_CR_token[OF sv(3)] no_CR_blank[OF bl2(2)] by (auto simp: a_def)
  ultimately obtain c1 where c1: "find_str CRLF (LeftStrip rest) = Some c1" "c0 = length a + c1"
    using assms(2) by (auto simp: find_CRLF_shift)
  then have dr: "drop (c1 + 2) (LeftStrip rest) = drop (c0 + 2) sv"
    using \<open>sv = a @ LeftStrip rest\<close> by simp
  have val: "value_ok (take c1 (LeftStrip rest))" using c1(1) by (rule value_ok_take)
  show ?thesis
  proof (cases "token = [] \<or> find_pos (\<lambda>c. c = CHR '':'') token \<noteq> Some (length token - 1)")
    case True
    then show ?thesis by (simp add: parse_header_line_def rt)
  next
    case False
    then obtain n where n: "token = n @ '':''" "CHR '':'' \<notin> set n" using colon_token by auto
    show ?thesis
    proof (cases "binary_search names n \<or> find_str ''X-'' n = Some 0")
      case hit: True
      then have "n \<in> set names \<or> prefix ''X-'' n"
        using assms(1) by (simp add: table_ok_def binary_search_sorted find_str_0)
      moreover from this have "n \<noteq> []" using assms(1) by (auto simp: table_ok_def)
      ultimately have "name_ok names n"
        using n sv(3,4) by (auto simp: name_ok_def token_text_def)
      then show ?thesis
        using False hit n c1(1) dr val by (auto simp: parse_header_line_def rt)
    next
      case no: False
      with False n show ?thesis by (simp add: parse_header_line_def rt)
    qed
  qed
qed

section \<open>The header loop\<close>

lemma find_CRLF_header:
  "name_ok names (header_name h) \<Longrightarrow> value_ok (header_value h) \<Longrightarrow>
   \<exists>cur. find_str CRLF (to_string_header h @ rest) = Some cur \<and> 0 < cur"
  using find_CRLF_shift[of "header_name h @ '': ''" "header_value h @ CRLF @ rest"]
    find_CRLF_append[of "header_value h" rest]
  by (auto simp: to_string_header_def name_ok_def value_ok_def token_text_def token_end_def)

lemma parse_headers_loop_printed:
  assumes "table_ok names" "headers_ok names (hs0 @ hs)"
  shows "parse_headers_loop names hs0 (concat (map to_string_header hs) @ rest) =
    parse_headers_loop names (hs0 @ hs) rest"
  using assms(2)
proof (induction hs arbitrary: hs0)
  case Nil
  then show ?case by simp
next
  case (Cons h hs)
  let ?tail = "concat (map to_string_header hs) @ rest"
  have h: "name_ok names (header_name h)" "value_ok (header_value h)"
      "header_name h \<notin> header_name ` set hs0"
    using Cons.prems by (auto simp: headers_ok_def)
  have eta: "\<lparr>header_name = header_name h, header_value = header_value h\<rparr> = h" by simp
  obtain cur where "find_str CRLF (to_string_header h @ ?tail) = Some cur" "0 < cur"
    using find_CRLF_header[OF h(1,2)] by blast
  then have "parse_headers_loop names hs0 (to_string_header h @ ?tail) =
      parse_headers_loop names (hs0 @ [h]) ?tail"
    using parse_header_line_ok[OF assms(1) h(1,2,3), of ?tail]
    by (subst parse_headers_loop.simps) (simp add: to_string_header_def eta)
  also have "\<dots> = parse_headers_loop names (hs0 @ h # hs) rest"
    using Cons.IH[of "hs0 @ [h]"] Cons.prems by simp
  finally show ?case by simp
qed

lemma parse_headers_stop:
  "parse_headers_loop names hs (CRLF @ b) = Inr (hs, CRLF @ b)"
  by (simp add: parse_headers_loop.simps)

lemma parse_headers_truncated:
  "find_str CRLF junk = None \<Longrightarrow> parse_headers_loop names hs junk =
    (if junk = [] then Inl (ExpectingData ''Header'') else Inr (hs, junk))"
  by (simp add: parse_headers_loop.simps)

definition has_blank_line :: "string \<Rightarrow> bool" where
  "has_blank_line sv \<longleftrightarrow> find_str (CRLF @ CRLF) sv \<noteq> None"

lemma blank_line_drop:
  assumes "has_blank_line sv" "find_str CRLF sv = Some c0"
  shows "prefix CRLF (drop (c0 + 2) sv) \<or> has_blank_line (drop (c0 + 2) sv)"
proof -
  obtain a b where "sv = a @ (CRLF @ CRLF) @ b"
    using assms(1) unfolding has_blank_line_def find_str_ne_None by blast
  then have sv: "sv = a @ CRLF @ CRLF @ b" by simp
  have c0: "prefix CRLF (drop c0 sv)" "\<not> length a < c0"
    using assms(2) sv by (auto simp: find_str_Some_iff)
  have "c0 + 1 \<noteq> length a"
  proof
    assume c: "c0 + 1 = length a"
    then obtain x where "drop c0 sv = x # CRLF @ CRLF @ b" using sv
      by (metis Cons_nth_drop_Suc Suc_eq_plus1 append_eq_conv_conj c length_append less_add_same_cancel1
          add_gr_0 less_add_one trans_less_add1)
    with c0(1) show False by simp
  qed
  then consider "c0 = length a" | "c0 + 2 \<le> length a" using c0(2) by linarith
  then show ?thesis
  proof cases
    case 1
    then show ?thesis by (simp add: sv)
  next
    case 2
    then have "drop (c0 + 2) sv = drop (c0 + 2) a @ (CRLF @ CRLF) @ b" by (simp add: sv)
    then show ?thesis unfolding has_blank_line_def find_str_ne_None by blast
  qed
qed

lemma has_blank_line_shift:
  "\<forall>c\<in>set a. c \<noteq> CHR 0x0D \<Longrightarrow> has_blank_line (a @ s) = has_blank_line s"
  using find_str_shift[of "CRLF @ CRLF" a s] by (simp add: has_blank_line_def)

lemma has_blank_line_split: "has_blank_line s \<Longrightarrow> \<exists>a b. s = a @ CRLF @ CRLF @ b"
  unfolding has_blank_line_def find_str_ne_None by simp

lemma has_blank_lineI: "has_blank_line (a @ CRLF @ CRLF @ b)"
proof -
  have "a @ CRLF @ CRLF @ b = a @ (CRLF @ CRLF) @ b" by simp
  then show ?thesis unfolding has_blank_line_def find_str_ne_None by blast
qed

text \<open>
  The loop, from its result: the headers are well formed; the text left is a line break or,
  when the text ran out before the empty line, what follows the last line break. It is the
  former when the text had an empty line.
\<close>

lemma parse_headers_loop_Inr:
  assumes "table_ok names" "parse_headers_loop names hs sv = Inr (hs', sv')" "headers_ok names hs"
  shows "headers_ok names hs' \<and>
    (prefix CRLF sv' \<or> find_str CRLF sv' = None \<and> sv' \<noteq> [] \<and> \<not> has_blank_line sv)"
  using assms
proof (induction names hs sv rule: parse_headers_loop.induct)
  case (1 names hs sv)
  show ?case
  proof (cases "find_str CRLF sv")
    case None
    then have "\<not> has_blank_line sv"
      using find_str_ne_None[of "CRLF" sv] find_str_ne_None[of "CRLF @ CRLF" sv]
      by (auto simp: has_blank_line_def)
    with None "1.prems" show ?thesis by (auto simp: parse_headers_loop.simps split: if_splits)
  next
    case (Some c0)
    show ?thesis
    proof (cases "c0 = 0")
      case True
      with Some have "prefix CRLF sv" by (simp add: find_str_Some_iff)
      with Some True "1.prems" show ?thesis by (simp add: parse_headers_loop.simps[of names hs sv])
    next
      case False
      with Some "1.prems"(2) obtain z where
          line: "parse_header_line names hs sv = Inr z"
        and rec: "parse_headers_loop names (fst z) (snd z) = Inr (hs', sv')"
        by (auto simp: parse_headers_loop.simps[of names hs sv] split: sum.splits)
      obtain h where z: "z = (hs @ [h], drop (c0 + 2) sv)" and "headers_ok names (hs @ [h])"
        using parse_header_line_cases[OF "1.prems"(1) Some, of hs] line "1.prems"(3)
        by (auto simp: headers_ok_snoc)
      then have "headers_ok names hs' \<and>
          (prefix CRLF sv' \<or> find_str CRLF sv' = None \<and> sv' \<noteq> [] \<and>
            \<not> has_blank_line (drop (c0 + 2) sv))"
        using "1.IH"[OF Some False line, of "fst z" "snd z"] rec "1.prems"(1) by simp
      moreover have "prefix CRLF sv'" if "prefix CRLF (drop (c0 + 2) sv)"
      proof -
        have "find_str CRLF (drop (c0 + 2) sv) = Some 0" using that by (simp add: find_str_0)
        with rec z that show ?thesis by (simp add: parse_headers_loop.simps)
      qed
      ultimately show ?thesis using blank_line_drop[of sv c0] Some by blast
    qed
  qed
qed

lemma parse_headers_loop_no_UB:
  assumes "table_ok names"
  shows "parse_headers_loop names hs sv \<noteq> Inl Undefined_Behaviour"
  using assms
proof (induction names hs sv rule: parse_headers_loop.induct)
  case (1 names hs sv)
  show ?case
  proof (cases "find_str CRLF sv")
    case None
    then show ?thesis by (simp add: parse_headers_loop.simps)
  next
    case (Some c0)
    then show ?thesis
      using parse_header_line_cases[OF "1.prems" Some, of hs] "1.IH"[OF Some] "1.prems"
      by (subst parse_headers_loop.simps) auto
  qed
qed

section \<open>The body\<close>

definition body_ok :: "Header list \<Rightarrow> string \<Rightarrow> bool" where
  "body_ok hs b \<longleftrightarrow>
     (case List.find is_length_header hs of
        Some h \<Rightarrow> stoul (header_value h) = Inr (length b)
      | None \<Rightarrow> b = [])"

lemma parse_body_Inr: "parse_body hs sv = Inr b \<longleftrightarrow> b = sv \<and> body_ok hs b"
  by (auto simp: parse_body_def body_ok_def split: option.splits sum.splits)

lemma parse_body_partial:
  "body_ok hs b \<Longrightarrow> k < length b \<Longrightarrow> parse_body hs (take k b) = Inl (ExpectingData ''Body'')"
  by (auto simp: parse_body_def body_ok_def split: option.splits)

lemma parse_body_no_UB: "parse_body hs sv \<noteq> Inl Undefined_Behaviour"
  by (auto simp: parse_body_def split: option.splits sum.splits)

section \<open>The tables\<close>

lemma table_ok_REQUEST: "table_ok REQUEST_HEADER_NAMES"
  unfolding table_ok_def by code_simp

lemma table_ok_RESPONCE: "table_ok RESPONCE_HEADER_NAMES"
  unfolding table_ok_def by code_simp

lemma METHODS_tokens: "m \<in> set METHODS \<Longrightarrow> \<forall>c\<in>set m. \<not> token_end c \<and> \<not> is_space c"
  by (auto simp: METHODS_def token_chars)

section \<open>Where the scanner stands\<close>

text \<open>The scanner passes blanks and tokens, never a carriage return.\<close>

lemma ReadToken_passes:
  "ReadToken sv = (token, rest) \<Longrightarrow> \<exists>a. sv = a @ rest \<and> (\<forall>c\<in>set a. c \<noteq> CHR 0x0D)"
proof -
  assume "ReadToken sv = (token, rest)"
  then obtain bl where "sv = bl @ token @ rest" "\<forall>c\<in>set bl. is_space c"
      "\<forall>c\<in>set token. \<not> token_end c"
    by (rule ReadToken_split)
  then show ?thesis
    using no_CR_blank[of bl] no_CR_token[of token] by (intro exI[of _ "bl @ token"]) auto
qed

lemma LeftStrip_passes: "\<exists>a. sv = a @ LeftStrip sv \<and> (\<forall>c\<in>set a. c \<noteq> CHR 0x0D)"
  using no_CR_blank[of "takeWhile is_space sv"] set_takeWhileD[of _ is_space sv]
  by (intro exI[of _ "takeWhile is_space sv"]) (auto simp: LeftStrip_eq)

lemma ReadToken_blank_line:
  "ReadToken sv = (token, rest) \<Longrightarrow> has_blank_line rest = has_blank_line sv"
  using ReadToken_passes has_blank_line_shift by blast

lemma LeftStrip_blank_line: "has_blank_line (LeftStrip sv) = has_blank_line sv"
  using LeftStrip_passes[of sv] has_blank_line_shift by metis

lemma parse_protocol_blank_line:
  "parse_protocol sv = Inr (v, rest) \<Longrightarrow> has_blank_line rest = has_blank_line sv"
  using parse_protocol_Inr ReadToken_blank_line by blast

end
