(* ===== verification/Status_Code.thy ===== *)
theory Status_Code
  imports Prelude
begin

text \<open>
  \<^verbatim>\<open>6.http/include/status_code.h\<close> and \<^verbatim>\<open>6.http/lib/status_code.cpp\<close>: the
  enumeration \<^verbatim>\<open>StatusCode\<close> with its 16-bit underlying type and the switch
  \<^verbatim>\<open>to_string\<close>. A variable of the enumeration's type holds any 16-bit value (the
  response parser casts a number into it), so the type is \<^verbatim>\<open>16 word\<close>, and the
  enumerators are a table of names and values.
\<close>

section \<open>The enumeration\<close>

type_synonym StatusCode = "16 word"

definition enumerators :: "(string \<times> StatusCode) list" where
  "enumerators =
    [(''None'', 0), (''Continue'', 100), (''SwitchingProtocol'', 101), (''Processing'', 102),
     (''OK'', 200), (''Created'', 201), (''Accepted'', 202),
     (''NonAuthorativeInformation'', 203), (''NoContent'', 204), (''ResetContent'', 205),
     (''PartialContent'', 206), (''MultiStatus'', 207), (''AlreadyReported'', 208),
     (''IMUsed'', 226), (''MultipleChoices'', 300), (''MovedPermanently'', 301),
     (''Found'', 302), (''SeeOther'', 303), (''NotModified'', 304), (''UseProxy'', 305),
     (''UNUSED'', 306), (''TemporaryRedirect'', 307), (''PermanentRedirect'', 308),
     (''BadRequest'', 400), (''Unauthorized'', 401), (''PaymentRequired'', 402),
     (''Forbidden'', 403), (''NotFound'', 404), (''MethodNotAllowed'', 405),
     (''NotAcceptable'', 406), (''ProxyAuthenticationRequired'', 407),
     (''RequestTimeout'', 408), (''Conflict'', 409), (''Gone'', 410),
     (''LengthRequired'', 411), (''PreconditionFailed'', 412), (''PayloadTooLarge'', 413),
     (''URITooLong'', 414), (''UnsupportedMediaType'', 415),
     (''RequestedRangeNotSatisfiable'', 416), (''ExpectationFailed'', 417),
     (''ImATeapot'', 418), (''AuthenticationTimeout'', 419), (''MisdirectedRequest'', 421),
     (''UnprocessableEntity'', 422), (''Locked'', 423), (''FailedDependency'', 424),
     (''UpgradeRequired'', 426), (''PreconditionRequired'', 428), (''TooManyRequests'', 429),
     (''RequestHeaderFieldsTooLarge'', 431), (''ConnectionClosedWithoutResponse'', 444),
     (''RetryWith'', 449), (''UnavailableForLegalReasons'', 451),
     (''ClientClosedRequest'', 499), (''InternalServerError'', 500),
     (''NotImplemented'', 501), (''BadGateway'', 502), (''ServiceUnavailable'', 503),
     (''GatewayTimeout'', 504), (''HTTPVersionNotSupported'', 505),
     (''VariantAlsoNegotiates'', 506), (''InsufficientStorage'', 507),
     (''LoopDetected'', 508), (''BandwidthLimitExceeded'', 509), (''NotExtended'', 510),
     (''NetworkAuthenticationRequired'', 511), (''UnknownError'', 520),
     (''WebServerIsDown'', 521), (''ConnectionTimedOut'', 522),
     (''OriginIsUnreachable'', 523), (''ATimeoutOccured'', 524),
     (''SSLHadnshakeFailed'', 525), (''NetworkConnectTimeoutError'', 599)]"

text \<open>The enumerators that other files of the repository name, and \<^verbatim>\<open>UNUSED\<close>.\<close>

definition StatusCode_None :: StatusCode where
  "StatusCode_None = 0"

definition StatusCode_UNUSED :: StatusCode where
  "StatusCode_UNUSED = 306"

definition NetworkConnectTimeoutError :: StatusCode where
  "NetworkConnectTimeoutError = 599"

section \<open>The text of a code\<close>

text \<open>
  The cases of the switch in the source's order; a case label is the value of the enumerator
  the source names, and the texts are the source's (its spelling included).
\<close>

definition status_switch :: "(StatusCode \<times> string) list" where
  "status_switch =
    [(100, ''Continue''), (101, ''Switching Protocols''), (102, ''Processing''),
     (200, ''OK''), (201, ''Created''), (202, ''Accepted''),
     (203, ''Non-Authoritative Information''), (204, ''No Content''),
     (205, ''Reset Content''), (206, ''Partial Content''), (207, ''Multi-Status''),
     (208, ''Already Reported''), (226, ''IM Used''), (300, ''Multiple Choices''),
     (301, ''Moved Permanently''), (302, ''Found''), (303, ''See Other''),
     (304, ''Not Modified''), (305, ''Use Proxy''), (307, ''Temporary Redirect''),
     (308, ''Permanent Redirect''), (400, ''Bad Request''), (401, ''Unauthrized''),
     (402, ''Payment Required''), (403, ''Forbidden''), (404, ''Not Found''),
     (405, ''Method Not Allowed''), (406, ''Not Acceptable''),
     (407, ''Proxy Authentication Required''), (408, ''Request Timeout''),
     (409, ''Conflict''), (410, ''Gone''), (411, ''Length Required''),
     (412, ''Precondition Failed''), (413, ''Payload Too Large''), (414, ''URI Too Long''),
     (415, ''Unsupported Media Type''), (416, ''Requested Range Not Satisfiable''),
     (417, ''Expectation Failed''), (418, ''I'' @ [CHR 0x27] @ ''m a teapot''),
     (419, ''Authentication Timeout''), (421, ''Misdirected Request''),
     (422, ''UnprocessableEntity''), (423, ''Locked''), (424, ''Failed Dependency''),
     (426, ''Upgrade Required''), (428, ''Precondition Required''),
     (429, ''Too Many Requests''), (431, ''Request Header Fields Too Large''),
     (444, ''Connection Closed Without Response''), (449, ''Retry With''),
     (451, ''Unavailable For Legal Reasons''), (499, ''Client Closed Request''),
     (500, ''Internal Server Error''), (501, ''Not Implemented''), (502, ''Bad Gateway''),
     (503, ''Service Unavailable''), (504, ''Gateway Timeout''),
     (505, ''HTTP Version Not Supported''), (506, ''Variant Also Negotiates''),
     (507, ''Insufficient Storage''), (508, ''Loop Detected''),
     (509, ''Bandwidth Limit Exceeded''), (510, ''Not Extended''),
     (511, ''Network Authentication Required''), (520, ''Unknown Error''),
     (521, ''Web Server Is Down''), (522, ''Connection Timed Out''),
     (523, ''Origin Is Unreachable''), (524, ''A Timeout Occured''),
     (525, ''SSL Handshake Failed''), (599, ''Invalid SSL Certificate'')]"

definition to_string_code :: "StatusCode \<Rightarrow> string" where
  "to_string_code c = (case map_of status_switch c of Some t \<Rightarrow> t | None \<Rightarrow> [])"

section \<open>Facts about the enumeration\<close>

text \<open>A text that can stand in a start line: no carriage return in it and no blank in front.\<close>

definition line_text :: "string \<Rightarrow> bool" where
  "line_text t \<longleftrightarrow> CHR 0x0D \<notin> set t \<and> (t = [] \<or> hd t \<noteq> CHR '' '' \<and> hd t \<noteq> CHR 0x09)"

lemma enumerators_distinct: "distinct (map snd enumerators)"
  by code_simp

lemma switch_texts_distinct: "distinct (map snd status_switch)"
  by code_simp

lemma switch_line: "list_all (\<lambda>(c, t). c \<le> 599 \<and> t \<noteq> [] \<and> line_text t) status_switch"
  by code_simp

text \<open>Every enumerator but two has a case, and every case is that of an enumerator.\<close>

lemma switch_labels:
  "set (map fst status_switch) = set (map snd enumerators) - {StatusCode_None, StatusCode_UNUSED}"
proof -
  have "map fst status_switch =
        filter (\<lambda>c. c \<noteq> StatusCode_None \<and> c \<noteq> StatusCode_UNUSED) (map snd enumerators)"
    by code_simp
  then show ?thesis by auto
qed

lemma to_string_code_cases:
  "to_string_code c = [] \<and> c \<notin> set (map fst status_switch) \<or>
   (c, to_string_code c) \<in> set status_switch \<and> to_string_code c \<noteq> []"
proof (cases "map_of status_switch c")
  case None
  then have "to_string_code c = []" by (simp add: to_string_code_def)
  moreover from None have "c \<notin> set (map fst status_switch)" by (simp add: map_of_eq_None_iff)
  ultimately show ?thesis by simp
next
  case (Some t)
  then have "(c, t) \<in> set status_switch" by (rule map_of_SomeD)
  moreover from this switch_line have "t \<noteq> []" by (auto simp: list_all_iff)
  ultimately show ?thesis using Some by (simp add: to_string_code_def)
qed

lemma to_string_code_line: "line_text (to_string_code c)"
  using to_string_code_cases[of c] switch_line by (auto simp: list_all_iff line_text_def)

section \<open>Properties\<close>

text \<open>
  The text of a status code identifies it. Two codes with the same non-empty text
  are equal, and a code has a text exactly when it is the value of an enumerator
  other than \<^verbatim>\<open>None\<close> and \<^verbatim>\<open>UNUSED\<close>, which the switch leaves to its default.
\<close>

lemma status_text_identifies:
  "(to_string_code c \<noteq> [] \<longleftrightarrow>
      c \<in> set (map snd enumerators) \<and> c \<noteq> StatusCode_None \<and> c \<noteq> StatusCode_UNUSED) \<and>
   (to_string_code c = to_string_code d \<and> to_string_code c \<noteq> [] \<longrightarrow> c = d)"
proof -
  have "c = d" if "to_string_code c = to_string_code d" "to_string_code c \<noteq> []"
  proof -
    have "(c, to_string_code c) \<in> set status_switch" "(d, to_string_code c) \<in> set status_switch"
      using that to_string_code_cases[of c] to_string_code_cases[of d] by auto
    moreover have "inj_on snd (set status_switch)"
      using switch_texts_distinct by (simp add: distinct_map)
    ultimately show ?thesis
      using inj_onD[of snd _ "(c, to_string_code c)" "(d, to_string_code c)"] by simp
  qed
  moreover have "to_string_code c \<noteq> [] \<longleftrightarrow> c \<in> set (map fst status_switch)"
    using to_string_code_cases[of c] by (force simp: image_iff)
  ultimately show ?thesis unfolding switch_labels by auto
qed

end
