(* ===== verification/Http_Message.thy ===== *)
theory Http_Message
  imports Http_Parser_Facts Status_Code
begin

text \<open>
  \<^verbatim>\<open>6.http/include/message.h\<close> and \<^verbatim>\<open>6.http/lib/message.cpp\<close> lines 182 to 304:
  the classes \<^verbatim>\<open>Message\<close>, \<^verbatim>\<open>Request\<close> and \<^verbatim>\<open>Responce\<close>.

  A message object is a record, a derived class extends the base class's record. The method
  \<^verbatim>\<open>parse\<close> assigns the members one after the other while it reads, so it is a function
  from the object to the object it leaves behind and the outcome: on an exception the members
  assigned before it keep their new values. A constructor that throws leaves no object.
\<close>

section \<open>The classes\<close>

record Message =
  m_version :: string
  m_headers :: "Header list"
  m_body :: string

record Request = Message +
  req_method :: string
  req_target :: string

record Responce = Message +
  res_code :: StatusCode
  res_status_text :: string

definition Request_default :: Request where
  "Request_default =
     \<lparr>m_version = [], m_headers = [], m_body = [], req_method = [], req_target = []\<rparr>"

definition Responce_default :: Responce where
  "Responce_default =
     \<lparr>m_version = [], m_headers = [], m_body = [],
      res_code = StatusCode_None, res_status_text = []\<rparr>"

section \<open>Printing\<close>

definition Request_str :: "Request \<Rightarrow> string" where
  "Request_str r =
     req_method r @ '' '' @ req_target r @ '' '' @ ''HTTP/'' @ m_version r @ CRLF
     @ concat (map to_string_header (m_headers r)) @ CRLF @ m_body r"

definition Responce_str :: "Responce \<Rightarrow> string" where
  "Responce_str r =
     ''HTTP/'' @ m_version r @ '' '' @ to_string_nat (unat (res_code r)) @ '' ''
     @ res_status_text r @ CRLF
     @ concat (map to_string_header (m_headers r)) @ CRLF @ m_body r"

section \<open>Parsing\<close>

text \<open>
  The end that both \<^verbatim>\<open>parse\<close> methods share: headers, then the two bytes of the empty
  line, then the body.
\<close>

definition parse_fields ::
  "string list \<Rightarrow> 'a Message_scheme \<Rightarrow> string \<Rightarrow> 'a Message_scheme \<times> (parse_error + unit)" where
  "parse_fields names r sv =
     (case parse_headers names sv of
        Inl e \<Rightarrow> (r, Inl e)
      | Inr (hs, sv) \<Rightarrow>
          let r = r\<lparr>m_headers := hs\<rparr>
          in case bindE (remove_prefix 2 sv) (parse_body hs) of
               Inl e \<Rightarrow> (r, Inl e)
             | Inr b \<Rightarrow> (r\<lparr>m_body := b\<rparr>, Inr ()))"

text \<open>The end of a request's start line: two bytes, the first of them a carriage return.\<close>

definition start_line_break :: "string \<Rightarrow> parse_error + string" where
  "start_line_break sv =
     (let sv = LeftStrip sv
      in bindE (expecting CRLF (take 2 sv) sv [])
           (\<lambda>cur. if cur = 0 then Inl (IncorrectData ''Start line'') else remove_prefix 2 sv))"

definition Request_parse :: "Request \<Rightarrow> string \<Rightarrow> Request \<times> (parse_error + unit)" where
  "Request_parse r req =
     (let (token, sv) = ReadToken req
      in case expecting_to_find_in_range METHODS token sv [] of
           Inl e \<Rightarrow> (r, Inl e)
         | Inr _ \<Rightarrow>
             let r = r\<lparr>req_method := token\<rparr>;
                 (token, sv) = ReadToken sv;
                 r = r\<lparr>req_target := token\<rparr>
             in case parse_protocol sv of
                  Inl e \<Rightarrow> (r, Inl e)
                | Inr (v, sv) \<Rightarrow>
                    let r = r\<lparr>m_version := v\<rparr>
                    in case start_line_break sv of
                         Inl e \<Rightarrow> (r, Inl e)
                       | Inr sv \<Rightarrow> parse_fields REQUEST_HEADER_NAMES r sv)"

definition Responce_parse :: "Responce \<Rightarrow> string \<Rightarrow> Responce \<times> (parse_error + unit)" where
  "Responce_parse r responce =
     (case parse_protocol responce of
        Inl e \<Rightarrow> (r, Inl e)
      | Inr (v, sv) \<Rightarrow>
          let r = r\<lparr>m_version := v\<rparr>;
              (token, sv) = ReadToken sv
          in case stoul token of
               Inl _ \<Rightarrow> (r, Inl (IncorrectData ''Cannot convert error code''))
             | Inr n \<Rightarrow>
                 let r = r\<lparr>res_code := word_of_nat n\<rparr>
                 in if unat (res_code r) < 60 \<and> sv = []
                    then (r, Inl (ExpectingData ''Status code''))
                    else if NetworkConnectTimeoutError < res_code r
                    then (r, Inl (IncorrectData ''Status code''))
                    else let sv = LeftStrip sv
                      in case find_str CRLF sv of
                           None \<Rightarrow> (r, Inl (ExpectingData ''Start line''))
                         | Some cur \<Rightarrow>
                             parse_fields RESPONCE_HEADER_NAMES
                               (r\<lparr>res_status_text := take cur sv\<rparr>) (drop (cur + 2) sv))"

text \<open>The constructors from a string.\<close>

definition Request_new :: "string \<Rightarrow> parse_error + Request" where
  "Request_new req =
     (case Request_parse Request_default req of
        (r, Inr _) \<Rightarrow> Inr r
      | (_, Inl e) \<Rightarrow> Inl e)"

definition Responce_new :: "string \<Rightarrow> parse_error + Responce" where
  "Responce_new res =
     (case Responce_parse Responce_default res of
        (r, Inr _) \<Rightarrow> Inr r
      | (_, Inl e) \<Rightarrow> Inl e)"

end
