(* ===== verification/Http_Message_Props.thy ===== *)
theory Http_Message_Props
  imports Http_Message
begin

text \<open>
  The properties of the message classes: printing and parsing are inverse on the well-formed
  objects, parsing produces only well-formed objects, a text with an empty line never runs the
  parser into undefined behaviour, a body that arrives in pieces is waited for; and what the
  parser does on a text that is cut elsewhere.
\<close>

section \<open>Well-formed messages\<close>

definition Request_ok :: "Request \<Rightarrow> bool" where
  "Request_ok r \<longleftrightarrow>
     req_method r \<noteq> [] \<and> (\<exists>m\<in>set METHODS. prefix (req_method r) m) \<and>
     token_text (req_target r) \<and> version_ok (m_version r) \<and>
     headers_ok REQUEST_HEADER_NAMES (m_headers r) \<and> body_ok (m_headers r) (m_body r)"

definition Responce_ok :: "Responce \<Rightarrow> bool" where
  "Responce_ok r \<longleftrightarrow>
     version_ok (m_version r) \<and> res_code r \<le> NetworkConnectTimeoutError \<and>
     value_ok (res_status_text r) \<and>
     headers_ok RESPONCE_HEADER_NAMES (m_headers r) \<and> body_ok (m_headers r) (m_body r)"

definition request_line :: "string \<Rightarrow> string \<Rightarrow> string \<Rightarrow> string" where
  "request_line m t v = m @ '' '' @ t @ '' '' @ ''HTTP/'' @ v"

definition status_line :: "string \<Rightarrow> nat \<Rightarrow> string \<Rightarrow> string" where
  "status_line v n t = ''HTTP/'' @ v @ '' '' @ to_string_nat n @ '' '' @ t"

section \<open>The parser on printed text\<close>

lemma parse_fields_printed:
  assumes "table_ok names" "headers_ok names hs"
  shows "parse_fields names r (concat (map to_string_header hs) @ CRLF @ b) =
    (case parse_body hs b of
       Inl e \<Rightarrow> (r\<lparr>m_headers := hs\<rparr>, Inl e)
     | Inr b \<Rightarrow> (r\<lparr>m_headers := hs, m_body := b\<rparr>, Inr ()))"
  using parse_headers_loop_printed[OF assms(1), of "[]" hs "CRLF @ b"] assms(2)
    parse_headers_stop[of names hs b]
  by (simp add: parse_fields_def parse_headers_def remove_prefix_def Let_def split: sum.splits)

lemma method_token:
  assumes "m \<noteq> []" "mm \<in> set METHODS" "prefix m mm"
  shows "token_text m"
proof -
  have "set m \<subseteq> set mm" using assms(3) by (rule set_mono_prefix)
  moreover from this have "hd m \<in> set mm" using assms(1) by auto
  ultimately show ?thesis
    using METHODS_tokens[OF assms(2)] assms(1) by (auto simp: token_text_def)
qed

lemma Request_parse_line:
  assumes "m \<noteq> []" "mm \<in> set METHODS" "prefix m mm" "token_text t" "version_ok v"
  shows "Request_parse r (request_line m t v @ CRLF @ rest) =
    parse_fields REQUEST_HEADER_NAMES
      (r\<lparr>req_method := m, req_target := t, m_version := v\<rparr>) rest"
proof -
  let ?s3 = "CRLF @ rest"
  let ?s2 = "'' '' @ ''HTTP/'' @ v @ ?s3"
  let ?s1 = "'' '' @ t @ ?s2"
  have m: "ReadToken (m @ ?s1) = (m, ?s1)"
    using method_token[OF assms(1-3)] by (rule ReadToken_token) (simp add: token_end_def)
  have t: "ReadToken ?s1 = (t, ?s2)"
    using ReadToken_token[OF assms(4), of ?s2] ReadToken_space[of "CHR '' ''" "t @ ?s2"]
    by (simp add: token_chars)
  have v: "parse_protocol ?s2 = Inr (v, ?s3)"
    using parse_protocol_ok[OF assms(5), of ?s3] parse_protocol_space[of "CHR '' ''" "''HTTP/'' @ v @ ?s3"]
    by (simp add: token_chars)
  have l: "start_line_break ?s3 = Inr rest"
    by (simp add: start_line_break_def is_space_def expecting_def remove_prefix_def)
  have e: "expecting_to_find_in_range METHODS m ?s1 [] = Inr ()"
    by (rule expecting_to_find_ok) (use assms in simp_all)
  have "request_line m t v @ CRLF @ rest = m @ ?s1" by (simp add: request_line_def)
  then show ?thesis
    by (simp only: Request_parse_def m t v l e Let_def prod.case sum.case bindE_Inr)
qed

lemma Responce_parse_line:
  assumes "version_ok v" "n < 2 ^ 64" "value_ok t"
  shows "Responce_parse r (status_line v n t @ CRLF @ rest) =
    (if NetworkConnectTimeoutError < word_of_nat n
     then (r\<lparr>m_version := v, res_code := word_of_nat n\<rparr>, Inl (IncorrectData ''Status code''))
     else parse_fields RESPONCE_HEADER_NAMES
       (r\<lparr>m_version := v, res_code := word_of_nat n, res_status_text := t\<rparr>) rest)"
proof -
  let ?s3 = "t @ CRLF @ rest"
  let ?s2 = "'' '' @ ?s3"
  let ?s1 = "'' '' @ to_string_nat n @ ?s2"
  have v: "parse_protocol (''HTTP/'' @ v @ ?s1) = Inr (v, ?s1)"
    using assms(1) by (rule parse_protocol_ok) (simp_all add: token_end_def)
  have "\<forall>c\<in>set (to_string_nat n). \<not> token_end c \<and> \<not> is_space c"
    using to_string_nat_digits[of n] by (auto simp: token_chars is_digit_def)
  then have "token_text (to_string_nat n)" by (auto simp: token_text_def)
  then have n: "ReadToken ?s1 = (to_string_nat n, ?s2)"
    using ReadToken_token[of "to_string_nat n" ?s2] ReadToken_space[of "CHR '' ''" "to_string_nat n @ ?s2"]
    by (simp add: token_chars)
  have l: "LeftStrip ?s2 = ?s3"
    using assms(3) LeftStrip_id[of ?s3] by (cases t) (auto simp: value_ok_def token_chars)
  have f: "find_str CRLF ?s3 = Some (length t)"
    using assms(3) by (intro find_CRLF_append) (simp add: value_ok_def)
  have d: "take (length t) ?s3 = t" "drop (length t + 2) ?s3 = rest" by simp_all
  have "status_line v n t @ CRLF @ rest = ''HTTP/'' @ v @ ?s1" by (simp add: status_line_def)
  then show ?thesis
    by (simp only: Responce_parse_def v n l f d stoul_to_string[OF assms(2)] Let_def prod.case
        sum.case option.case) simp
qed

section \<open>The parser on any text\<close>

lemma parse_fields_Inr:
  assumes "table_ok names" "parse_fields names r sv = (r', Inr u)"
  shows "\<exists>hs b. headers_ok names hs \<and> body_ok hs b \<and> r' = r\<lparr>m_headers := hs, m_body := b\<rparr>"
proof -
  obtain hs sv1 where "parse_headers names sv = Inr (hs, sv1)"
    using assms(2) by (auto simp: parse_fields_def split: sum.splits)
  moreover from this have "headers_ok names hs"
    using parse_headers_loop_Inr[OF assms(1), of "[]" sv hs sv1]
    by (simp add: parse_headers_def headers_ok_def)
  ultimately show ?thesis
    using assms(2)
    by (auto simp: parse_fields_def Let_def bindE_eq_Inr parse_body_Inr split: sum.splits)
qed

lemma parse_fields_no_UB:
  assumes "table_ok names" "prefix CRLF sv \<or> has_blank_line sv"
  shows "snd (parse_fields names r sv) \<noteq> Inl Undefined_Behaviour"
proof (cases "parse_headers names sv")
  case (Inl e)
  then show ?thesis
    using parse_headers_loop_no_UB[OF assms(1), of "[]" sv]
    by (auto simp: parse_fields_def parse_headers_def)
next
  case (Inr p)
  obtain hs sv1 where p: "p = (hs, sv1)" by (cases p)
  have "prefix CRLF sv1"
  proof (cases "prefix CRLF sv")
    case True
    then have "find_str CRLF sv = Some 0" by (simp add: find_str_Some_iff)
    with Inr p True show ?thesis by (simp add: parse_headers_def parse_headers_loop.simps)
  next
    case False
    with assms Inr p show ?thesis
      using parse_headers_loop_Inr[OF assms(1), of "[]" sv hs sv1]
      by (simp add: parse_headers_def headers_ok_def)
  qed
  then have "2 \<le> length sv1" using prefix_length_le by fastforce
  then show ?thesis
    using parse_body_no_UB[of hs "drop 2 sv1"] Inr p
    by (auto simp: parse_fields_def remove_prefix_def Let_def split: sum.splits)
qed

lemma parse_fields_Inl:
  assumes "table_ok names" "parse_fields names r sv = (r', Inl e)"
  shows "m_body r' = m_body r \<and> m_version r' = m_version r \<and>
    (m_headers r' = m_headers r \<or> headers_ok names (m_headers r'))"
  using assms parse_headers_loop_Inr[OF assms(1), of "[]" sv]
  by (auto simp: parse_fields_def parse_headers_def headers_ok_def Let_def split: sum.splits)

text \<open>The start line of a request that parses: none of its three parts is empty.\<close>

lemma Request_parse_Inr:
  assumes "Request_parse r s = (r', Inr u)"
  shows "\<exists>m t v hs b. m \<noteq> [] \<and> (\<exists>mm\<in>set METHODS. prefix m mm) \<and> token_text t \<and> version_ok v \<and>
    headers_ok REQUEST_HEADER_NAMES hs \<and> body_ok hs b \<and>
    r' = r\<lparr>req_method := m, req_target := t, m_version := v, m_headers := hs, m_body := b\<rparr>"
proof -
  obtain m s1 where m: "ReadToken s = (m, s1)" by (cases "ReadToken s")
  obtain t s2 where t: "ReadToken s1 = (t, s2)" by (cases "ReadToken s1")
  from assms obtain v s3 s5 where e: "expecting_to_find_in_range METHODS m s1 [] = Inr ()"
    and v: "parse_protocol s2 = Inr (v, s3)"
    and f: "parse_fields REQUEST_HEADER_NAMES
      (r\<lparr>req_method := m, req_target := t, m_version := v\<rparr>) s5 = (r', Inr u)"
    by (auto simp: Request_parse_def m t Let_def split: sum.splits)
  have "t \<noteq> []"
  proof
    assume "t = []"
    with t have "ReadToken s2 = ([], s2)" using ReadToken_empty ReadToken_at_end by blast
    with v show False by (simp add: parse_protocol_empty)
  qed
  moreover have "m \<noteq> []"
  proof
    assume "m = []"
    with m have "ReadToken s1 = ([], s1)" using ReadToken_empty ReadToken_at_end by blast
    with t \<open>t \<noteq> []\<close> show False by simp
  qed
  moreover have "token_text t" using ReadToken_token_text[OF t] \<open>t \<noteq> []\<close> by simp
  ultimately show ?thesis
    using expecting_to_find_Inr[OF e] parse_protocol_Inr[OF v]
      parse_fields_Inr[OF table_ok_REQUEST f] by blast
qed

lemma Responce_parse_Inr:
  assumes "Responce_parse r s = (r', Inr u)"
  shows "\<exists>v c t hs b. version_ok v \<and> c \<le> NetworkConnectTimeoutError \<and> value_ok t \<and>
    headers_ok RESPONCE_HEADER_NAMES hs \<and> body_ok hs b \<and>
    r' = r\<lparr>m_version := v, res_code := c, res_status_text := t, m_headers := hs, m_body := b\<rparr>"
proof -
  obtain v s1 where v: "parse_protocol s = Inr (v, s1)"
    using assms by (auto simp: Responce_parse_def split: sum.splits)
  obtain token s2 where t: "ReadToken s1 = (token, s2)" by (cases "ReadToken s1")
  from assms obtain n where n: "stoul token = Inr n"
    by (auto simp: Responce_parse_def v t Let_def split: sum.splits)
  from assms obtain cur where cur: "find_str CRLF (LeftStrip s2) = Some cur"
    and c: "word_of_nat n \<le> NetworkConnectTimeoutError"
    and f: "parse_fields RESPONCE_HEADER_NAMES
      (r\<lparr>m_version := v, res_code := word_of_nat n, res_status_text := take cur (LeftStrip s2)\<rparr>)
      (drop (cur + 2) (LeftStrip s2)) = (r', Inr u)"
    by (auto simp: Responce_parse_def v t n Let_def not_less split: if_splits option.splits)
  show ?thesis
    using parse_protocol_Inr[OF v] c value_ok_take[OF cur] parse_fields_Inr[OF table_ok_RESPONCE f]
    by blast
qed

section \<open>Printing, then parsing\<close>

lemma Request_new_str:
  assumes "Request_ok r"
  shows "Request_new (Request_str r) = Inr r"
proof -
  obtain mm where m: "req_method r \<noteq> []" "mm \<in> set METHODS" "prefix (req_method r) mm"
    and ok: "token_text (req_target r)" "version_ok (m_version r)"
      "headers_ok REQUEST_HEADER_NAMES (m_headers r)" "body_ok (m_headers r) (m_body r)"
    using assms by (auto simp: Request_ok_def)
  let ?hs = "concat (map to_string_header (m_headers r)) @ CRLF @ m_body r"
  have str: "Request_str r =
      request_line (req_method r) (req_target r) (m_version r) @ CRLF @ ?hs"
    by (simp add: Request_str_def request_line_def)
  have body: "parse_body (m_headers r) (m_body r) = Inr (m_body r)"
    using ok(4) by (simp add: parse_body_Inr)
  have "Request_parse Request_default (Request_str r) = (r, Inr ())"
    by (simp only: str Request_parse_line[OF m ok(1,2)]
        parse_fields_printed[OF table_ok_REQUEST ok(3)] body sum.case)
      (simp add: Request_default_def)
  then show ?thesis by (simp add: Request_new_def)
qed

lemma Responce_new_str:
  assumes "Responce_ok r"
  shows "Responce_new (Responce_str r) = Inr r"
proof -
  have ok: "version_ok (m_version r)" "res_code r \<le> NetworkConnectTimeoutError"
      "value_ok (res_status_text r)"
      "headers_ok RESPONCE_HEADER_NAMES (m_headers r)" "body_ok (m_headers r) (m_body r)"
    using assms by (simp_all add: Responce_ok_def)
  let ?hs = "concat (map to_string_header (m_headers r)) @ CRLF @ m_body r"
  have str: "Responce_str r =
      status_line (m_version r) (unat (res_code r)) (res_status_text r) @ CRLF @ ?hs"
    by (simp add: Responce_str_def status_line_def)
  have body: "parse_body (m_headers r) (m_body r) = Inr (m_body r)"
    using ok(5) by (simp add: parse_body_Inr)
  have "unat (res_code r) < 2 ^ LENGTH(16)" by (rule unsigned_less)
  then have n: "unat (res_code r) < 2 ^ 64" by simp
  have c: "(NetworkConnectTimeoutError < word_of_nat (unat (res_code r))) = False"
    using ok(2) by (simp add: not_less)
  have "Responce_parse Responce_default (Responce_str r) = (r, Inr ())"
    by (simp only: str Responce_parse_line[OF ok(1) n ok(3)] c if_False
        parse_fields_printed[OF table_ok_RESPONCE ok(4)] body sum.case)
      (simp add: Responce_default_def)
  then show ?thesis by (simp add: Responce_new_def)
qed

section \<open>Concrete messages\<close>

definition sample_get :: Request where
  "sample_get = \<lparr>m_version = ''1.1'',
     m_headers = [\<lparr>header_name = ''Host'', header_value = ''a''\<rparr>],
     m_body = [], req_method = ''GET'', req_target = ''/''\<rparr>"

definition sample_post :: Request where
  "sample_post = \<lparr>m_version = ''1.0'',
     m_headers = [\<lparr>header_name = ''Content-Length'', header_value = to_string_nat 2\<rparr>,
                  \<lparr>header_name = ''X-K'', header_value = []\<rparr>],
     m_body = ''ab'', req_method = ''POST'', req_target = ''/p''\<rparr>"

definition sample_ok :: Responce where
  "sample_ok = \<lparr>m_version = ''1.1'',
     m_headers = [\<lparr>header_name = ''Content-Length'', header_value = to_string_nat 2\<rparr>],
     m_body = ''hi'', res_code = 200, res_status_text = ''OK''\<rparr>"

lemmas sample_simps = sample_get_def sample_post_def sample_ok_def

lemma sample_lengths: "stoul (to_string_nat 2) = Inr 2"
  by (simp add: stoul_to_string)

lemma value_ok_number: "value_ok (to_string_nat n)"
proof -
  have d: "is_digit c" if "c \<in> set (to_string_nat n)" for c
    using to_string_nat_digits[of n] that by blast
  have "CHR 0x0D \<notin> set (to_string_nat n)" using d[of "CHR 0x0D"] by (auto simp: is_digit_def)
  then have "find_str CRLF (to_string_nat n) = None"
    by (metis append_Cons find_str_ne_None in_set_conv_decomp)
  moreover have "\<not> is_space (hd (to_string_nat n))"
    using d[of "hd (to_string_nat n)"] by (auto simp: is_digit_def is_space_def)
  ultimately show ?thesis by (simp add: value_ok_def)
qed

lemma value_ok_Nil [simp]: "value_ok []"
  by (simp add: value_ok_def)

lemmas name_simps = name_ok_def token_text_def token_chars
  REQUEST_HEADER_NAMES_def RESPONCE_HEADER_NAMES_def

lemma sample_names:
  "name_ok REQUEST_HEADER_NAMES ''Host'' \<and> name_ok REQUEST_HEADER_NAMES ''Content-Length'' \<and>
   name_ok REQUEST_HEADER_NAMES ''X-K'' \<and> name_ok RESPONCE_HEADER_NAMES ''Content-Length''"
  by (simp add: name_simps)

lemma sample_texts: "value_ok ''a'' \<and> value_ok ''OK'' \<and> token_text ''/'' \<and> token_text ''/p'' \<and>
    version_ok ''1.1'' \<and> version_ok ''1.0'' \<and> version_ok ''1''"
  by code_simp

lemma sample_get_ok: "Request_ok sample_get"
  using sample_names sample_texts
  by (simp add: Request_ok_def sample_simps headers_ok_def body_ok_def is_length_header_def
      METHODS_def)

lemma sample_post_ok: "Request_ok sample_post"
  using sample_names sample_texts sample_lengths value_ok_number[of 2]
  by (simp add: Request_ok_def sample_simps headers_ok_def body_ok_def is_length_header_def
      METHODS_def)

lemma sample_ok_ok: "Responce_ok sample_ok"
  using sample_names sample_texts sample_lengths value_ok_number[of 2]
  by (simp add: Responce_ok_def sample_simps headers_ok_def body_ok_def is_length_header_def
      NetworkConnectTimeoutError_def)

section \<open>Properties: round trips\<close>

text \<open>
  C1: Printing a well-formed request and constructing a request from the text gives the
  request back: every method, target, version, header list and body survives
  \<^verbatim>\<open>Request::str\<close> followed by \<^verbatim>\<open>Request::parse\<close>. Well-formed means: the method
  is a non-empty prefix of a known one, the target one token, the headers known or
  \<^verbatim>\<open>X-\<close> names used once with values that hold no line break, and the body of the
  announced length.
\<close>

theorem request_roundtrip:
  assumes "Request_ok r"
  shows "Request_new (Request_str r) = Inr r"
  using assms by (rule Request_new_str)

theorem request_roundtrip_witness: "Request_new (Request_str sample_post) = Inr sample_post"
  by (rule request_roundtrip[OF sample_post_ok])

text \<open>
  C2: The same for responses: \<^verbatim>\<open>Responce::parse\<close> inverts \<^verbatim>\<open>Responce::str\<close> on
  every response with a code of at most 599, a status text that is one line, headers from the
  response table and a body of the announced length.
\<close>

theorem responce_roundtrip:
  assumes "Responce_ok r"
  shows "Responce_new (Responce_str r) = Inr r"
  using assms by (rule Responce_new_str)

theorem responce_roundtrip_witness: "Responce_new (Responce_str sample_ok) = Inr sample_ok"
  by (rule responce_roundtrip[OF sample_ok_ok])

section \<open>Properties: what the parser accepts\<close>

text \<open>
  C3: Parsing is sound and normalising. A request that the constructor accepts, from any text,
  is well formed, and printing it and parsing again gives the same request: the parser accepts
  no object that its own printer would not reproduce.
\<close>

theorem request_parsed_ok:
  assumes "Request_new s = Inr r"
  shows "Request_ok r \<and> Request_new (Request_str r) = Inr r"
proof -
  have "Request_parse Request_default s = (r, Inr ())"
    using assms by (auto simp: Request_new_def split: prod.splits sum.splits)
  then have "Request_ok r"
    by (auto dest!: Request_parse_Inr simp: Request_ok_def)
  then show ?thesis using Request_new_str by blast
qed

theorem request_parsed_ok_witness:
  "Request_ok sample_post \<and> Request_new (Request_str sample_post) = Inr sample_post"
  by (rule request_parsed_ok[OF Request_new_str[OF sample_post_ok]])

text \<open>
  The same for responses: what the constructor accepts has a code of at most 599, a
  one-line text, known headers used once, a body of the announced length, and is
  reproduced by printing and parsing.
\<close>

lemma responce_parsed_ok:
  assumes "Responce_new s = Inr r"
  shows "Responce_ok r \<and> Responce_new (Responce_str r) = Inr r"
proof -
  have "Responce_parse Responce_default s = (r, Inr ())"
    using assms by (auto simp: Responce_new_def split: prod.splits sum.splits)
  then have "Responce_ok r"
    by (auto dest!: Responce_parse_Inr simp: Responce_ok_def)
  then show ?thesis using Responce_new_str by blast
qed

section \<open>Properties: memory safety\<close>

text \<open>A two-byte step over the start line's end, from a text with an empty line.\<close>

lemma start_line_end:
  assumes "has_blank_line sv" "hd sv = CHR 0x0D"
  shows "\<exists>x rest. sv = CHR 0x0D # x # rest \<and>
    (prefix CRLF rest \<or> has_blank_line rest \<or> (\<exists>t. rest = CHR 0x0A # CRLF @ t))"
proof -
  obtain a b where sv: "sv = a @ CRLF @ CRLF @ b" using has_blank_line_split[OF assms(1)] by blast
  show ?thesis
  proof (cases a)
    case Nil
    with sv show ?thesis by simp
  next
    case (Cons c a1)
    with sv assms(2) have c: "c = CHR 0x0D" by simp
    show ?thesis
    proof (cases a1)
      case Nil
      with sv Cons c show ?thesis by simp
    next
      case (Cons x a2)
      with sv \<open>a = c # a1\<close> c have "sv = CHR 0x0D # x # a2 @ CRLF @ CRLF @ b" by simp
      then show ?thesis using has_blank_lineI by blast
    qed
  qed
qed

lemma lone_LF_line:
  "parse_headers names (CHR 0x0A # CRLF @ t) = Inl (IncorrectData ''Header name'')"
proof -
  have "find_str CRLF (CHR 0x0A # CRLF @ t) = Some 1" by simp
  moreover have "ReadToken ([CHR 0x0A] @ CRLF @ t) = ([CHR 0x0A], CRLF @ t)"
    by (rule ReadToken_token) (simp_all add: token_text_def token_chars)
  ultimately show ?thesis
    by (simp add: parse_headers_def parse_headers_loop.simps parse_header_line_def)
qed

lemma start_line_break_blank_line:
  assumes "has_blank_line sv"
  shows "start_line_break sv \<noteq> Inl Undefined_Behaviour"
    and "start_line_break sv = Inr rest \<Longrightarrow>
      prefix CRLF rest \<or> has_blank_line rest \<or> (\<exists>t. rest = CHR 0x0A # CRLF @ t)"
proof -
  define s where "s = LeftStrip sv"
  have bl: "has_blank_line s" using assms LeftStrip_blank_line by (simp add: s_def)
  then obtain a b where "s = a @ CRLF @ CRLF @ b" using has_blank_line_split by blast
  then have len: "2 \<le> length s" by simp
  then show "start_line_break sv \<noteq> Inl Undefined_Behaviour"
    by (auto simp: start_line_break_def s_def[symmetric] bindE_eq_Inl expecting_def
        remove_prefix_def Let_def split: if_splits)
  assume r: "start_line_break sv = Inr rest"
  with len have "0 < mismatch CRLF (take 2 s)" and rest: "rest = drop 2 s"
    by (auto simp: start_line_break_def s_def[symmetric] bindE_eq_Inr expecting_def
        remove_prefix_def Let_def split: if_splits)
  then have "hd s = CHR 0x0D" by (simp add: mismatch_pos)
  with bl rest show "prefix CRLF rest \<or> has_blank_line rest \<or> (\<exists>t. rest = CHR 0x0A # CRLF @ t)"
    using start_line_end[of s] by auto
qed

lemma Responce_tail_blank_line:
  assumes "has_blank_line sv" "find_str CRLF (LeftStrip sv) = Some cur"
  shows "prefix CRLF (drop (cur + 2) (LeftStrip sv)) \<or> has_blank_line (drop (cur + 2) (LeftStrip sv))"
  using blank_line_drop[OF _ assms(2)] assms(1) LeftStrip_blank_line by simp

text \<open>
  C4: No undefined behaviour on a complete header section. Once the received text holds the
  empty line (two consecutive line breaks) anywhere, whatever precedes and follows it,
  parsing a request or a response never removes more bytes from a view than it has and
  never builds a string past its end.
\<close>

theorem parse_no_undefined_behaviour:
  assumes "has_blank_line s"
  shows "Request_new s \<noteq> Inl Undefined_Behaviour \<and> Responce_new s \<noteq> Inl Undefined_Behaviour"
proof
  obtain m s1 where m: "ReadToken s = (m, s1)" by (cases "ReadToken s")
  obtain t s2 where t: "ReadToken s1 = (t, s2)" by (cases "ReadToken s1")
  have s3: "has_blank_line s3" if "parse_protocol s2 = Inr (v, s3)" for v s3
    using assms ReadToken_blank_line[OF m] ReadToken_blank_line[OF t]
      parse_protocol_blank_line[OF that] by simp
  have "snd (parse_fields REQUEST_HEADER_NAMES (r :: Request) s5) \<noteq> Inl Undefined_Behaviour"
    if "parse_protocol s2 = Inr (v, s3)" "start_line_break s3 = Inr s5" for r v s3 s5
    using start_line_break_blank_line(2)[OF s3[OF that(1)] that(2)]
      parse_fields_no_UB[OF table_ok_REQUEST] lone_LF_line by (auto simp: parse_fields_def)
  then have "snd (Request_parse Request_default s) \<noteq> Inl Undefined_Behaviour"
    using parse_protocol_no_UB[of s2] expecting_to_find_no_UB[of METHODS m s1 "[]"]
      start_line_break_blank_line(1)[OF s3]
    by (auto simp: Request_parse_def m t Let_def split: sum.splits)
  then show "Request_new s \<noteq> Inl Undefined_Behaviour"
    by (auto simp: Request_new_def split: prod.splits sum.splits)
next
  have "snd (Responce_parse Responce_default s) \<noteq> Inl Undefined_Behaviour"
  proof (cases "parse_protocol s")
    case (Inl e)
    then show ?thesis using parse_protocol_no_UB[of s] by (auto simp: Responce_parse_def)
  next
    case (Inr p)
    obtain v s1 where p: "p = (v, s1)" by (cases p)
    obtain token s2 where t: "ReadToken s1 = (token, s2)" by (cases "ReadToken s1")
    have "has_blank_line s2"
      using assms parse_protocol_blank_line[of s v s1] ReadToken_blank_line[OF t] Inr p by simp
    then show ?thesis
      using Inr p parse_fields_no_UB[OF table_ok_RESPONCE] Responce_tail_blank_line[of s2]
      by (auto simp: Responce_parse_def t Let_def split: sum.splits option.splits)
  qed
  then show "Responce_new s \<noteq> Inl Undefined_Behaviour"
    by (auto simp: Responce_new_def split: prod.splits sum.splits)
qed

theorem parse_no_undefined_behaviour_witness:
  "has_blank_line (''x'' @ CRLF @ CRLF) \<and>
   Request_new (''x'' @ CRLF @ CRLF) \<noteq> Inl Undefined_Behaviour"
proof -
  have "has_blank_line (''x'' @ CRLF @ CRLF)" using has_blank_lineI[of "''x''" "[]"] by simp
  then show ?thesis using parse_no_undefined_behaviour by blast
qed

section \<open>Properties: text that arrives in pieces\<close>

lemma Request_printed_line:
  assumes "Request_ok r"
  shows "Request_parse r0 (request_line (req_method r) (req_target r) (m_version r) @ CRLF @ rest) =
    parse_fields REQUEST_HEADER_NAMES
      (r0\<lparr>req_method := req_method r, req_target := req_target r, m_version := m_version r\<rparr>) rest"
proof -
  obtain mm where "req_method r \<noteq> []" "mm \<in> set METHODS" "prefix (req_method r) mm"
      "token_text (req_target r)" "version_ok (m_version r)"
    using assms by (auto simp: Request_ok_def)
  then show ?thesis by (rule Request_parse_line)
qed

definition request_head :: "Request \<Rightarrow> string" where
  "request_head r = request_line (req_method r) (req_target r) (m_version r) @ CRLF @
     concat (map to_string_header (m_headers r))"

lemma Request_str_head: "Request_str r = request_head r @ CRLF @ m_body r"
  by (simp add: Request_str_def request_head_def request_line_def)

text \<open>
  After the printed headers of a well-formed request, whatever follows: the loop goes on with
  those headers read, then the two bytes and the body.
\<close>

lemma Request_new_rest:
  assumes "Request_ok r"
  shows "Request_new (request_head r @ rest) =
    (case parse_headers_loop REQUEST_HEADER_NAMES (m_headers r) rest of
       Inl e \<Rightarrow> Inl e
     | Inr (hs, sv) \<Rightarrow>
         (case bindE (remove_prefix 2 sv) (parse_body hs) of
            Inl e \<Rightarrow> Inl e | Inr b \<Rightarrow> Inr (r\<lparr>m_headers := hs, m_body := b\<rparr>)))"
proof -
  have hs: "headers_ok REQUEST_HEADER_NAMES ([] @ m_headers r)"
    using assms by (simp add: Request_ok_def)
  show ?thesis
    by (simp only: Request_new_def request_head_def append_assoc Request_printed_line[OF assms]
        parse_fields_def parse_headers_def parse_headers_loop_printed[OF table_ok_REQUEST hs])
      (simp add: Request_default_def Let_def split: sum.split)
qed

lemma headers_eta: "r\<lparr>m_headers := m_headers r, m_body := b\<rparr> = r\<lparr>m_body := b\<rparr>"
  by (cases r) simp

lemma Request_new_head:
  assumes "Request_ok r"
  shows "Request_new (request_head r @ CRLF @ b) =
    (case parse_body (m_headers r) b of Inl e \<Rightarrow> Inl e | Inr b \<Rightarrow> Inr (r\<lparr>m_body := b\<rparr>))"
  using Request_new_rest[OF assms, of "CRLF @ b"] parse_headers_stop[of REQUEST_HEADER_NAMES "m_headers r" b]
  by (simp add: remove_prefix_def headers_eta split: sum.split)

lemma Request_new_cut:
  assumes "Request_ok r" "find_str CRLF junk = None" "junk \<noteq> []"
  shows "Request_new (request_head r @ junk) =
    (case bindE (remove_prefix 2 junk) (parse_body (m_headers r)) of
       Inl e \<Rightarrow> Inl e | Inr b \<Rightarrow> Inr (r\<lparr>m_body := b\<rparr>))"
  using Request_new_rest[OF assms(1), of junk] parse_headers_truncated[OF assms(2)] assms(3)
  by (simp add: headers_eta split: sum.split)

lemma Request_new_partial_body:
  assumes "Request_ok r"
    and "length (Request_str r) - length (m_body r) \<le> n" "n < length (Request_str r)"
  shows "Request_new (take n (Request_str r)) = Inl (ExpectingData ''Body'')"
proof -
  define k where "k = n - length (request_head r @ CRLF)"
  have "Request_str r = (request_head r @ CRLF) @ m_body r" by (simp add: Request_str_head)
  then have "take n (Request_str r) = (request_head r @ CRLF) @ take k (m_body r)"
    using assms(2) by (simp only: take_append k_def) simp
  moreover have "k < length (m_body r)" using assms(2,3) by (auto simp: Request_str_head k_def)
  ultimately show ?thesis
    using Request_new_head[OF assms(1), of "take k (m_body r)"] assms(1)
      parse_body_partial[of "m_headers r" "m_body r" k]
    by (simp add: Request_ok_def)
qed

text \<open>
  A body that arrives in pieces is waited for. If the received text is a well-formed
  request cut anywhere inside its body, the constructor throws \<^verbatim>\<open>ExpectingData\<close>, the
  error on which the workers keep reading, never \<^verbatim>\<open>IncorrectData\<close>.
\<close>

lemma partial_body_expects_data:
  assumes "Request_ok r"
    and "length (Request_str r) - length (m_body r) \<le> n" "n < length (Request_str r)"
  shows "Request_new (take n (Request_str r)) = Inl (ExpectingData ''Body'')"
  using assms by (rule Request_new_partial_body)

text \<open>
  Text after a complete request is refused. A second request (or anything else) received
  in the same read as a well-formed request makes the whole text incorrect data: the parser
  does not split pipelined requests, it throws the error on which the worker closes the
  connection.
\<close>

lemma trailing_text_incorrect:
  assumes "Request_ok r" "extra \<noteq> []"
  shows "Request_new (Request_str r @ extra) = Inl (IncorrectData
    (if List.find is_length_header (m_headers r) = None
     then ''Body exists, but no content length found'' else ''Size of body''))"
  using Request_new_head[OF assms(1), of "m_body r @ extra"] assms
  by (auto simp: Request_str_head Request_ok_def body_ok_def parse_body_def split: option.splits)

text \<open>
  C5: A header section cut before its empty line is not always recognised as incomplete. When
  what follows the last complete header line is a piece without a line break (the start of the
  next header's name, say), the parser drops two bytes of it and takes the rest for the body: a
  piece of two bytes more than the announced body is accepted as the whole request, although it
  was never complete, a shorter one is waited for as a body, a longer one is incorrect. A piece
  of one byte has two removed from a view of length one, which is undefined behaviour; only
  without a piece does the parser wait for headers.
\<close>

theorem cut_header_section:
  assumes "Request_ok r" "find_str CRLF junk = None"
  shows "Request_new (request_head r @ junk) =
    (if junk = [] then Inl (ExpectingData ''Header'')
     else if length junk = 1 then Inl Undefined_Behaviour
     else if length junk < length (m_body r) + 2 then Inl (ExpectingData ''Body'')
     else if length junk = length (m_body r) + 2 then Inr (r\<lparr>m_body := drop 2 junk\<rparr>)
     else Inl (IncorrectData (if List.find is_length_header (m_headers r) = None
       then ''Body exists, but no content length found'' else ''Size of body'')))"
proof (cases "junk = []")
  case True
  then show ?thesis using Request_new_rest[OF assms(1), of "[]"] by (simp add: parse_headers_truncated)
next
  case False
  note cut = Request_new_cut[OF assms False]
  show ?thesis
  proof (cases "length junk = 1")
    case True
    then have "remove_prefix 2 junk = Inl Undefined_Behaviour" by (simp add: remove_prefix_def)
    then show ?thesis using cut True False by simp
  next
    case two: False
    then have "2 \<le> length junk" using False by (cases "length junk") (auto simp: le_Suc_eq)
    then have rest: "remove_prefix 2 junk = Inr (drop 2 junk)" by (simp add: remove_prefix_def)
    have "body_ok (m_headers r) (m_body r)" using assms(1) by (simp add: Request_ok_def)
    then have "parse_body (m_headers r) (drop 2 junk) =
        (if length junk < length (m_body r) + 2 then Inl (ExpectingData ''Body'')
         else if length junk = length (m_body r) + 2 then Inr (drop 2 junk)
         else Inl (IncorrectData (if List.find is_length_header (m_headers r) = None
           then ''Body exists, but no content length found'' else ''Size of body'')))"
      using \<open>2 \<le> length junk\<close> by (auto simp: parse_body_def body_ok_def split: option.splits)
    then show ?thesis using cut rest two False by simp
  qed
qed

theorem cut_header_section_witness:
  "Request_new (request_head sample_get @ ''Co'') = Inr sample_get \<and>
   Request_new (request_head sample_get @ ''C'') = Inl Undefined_Behaviour"
  using cut_header_section[OF sample_get_ok, of "''Co''"] cut_header_section[OF sample_get_ok, of "''C''"]
  by (simp add: sample_simps)

text \<open>
  A start line cut right before its line break is called incorrect. The text up to and
  including the version is a prefix of every request with that start line, yet the constructor
  throws \<^verbatim>\<open>IncorrectData\<close>, so a client whose first packet ends there is disconnected.
\<close>

lemma cut_start_line_incorrect:
  assumes "Request_ok r" "m_version r \<in> set VERSIONS"
  shows "prefix (request_line (req_method r) (req_target r) (m_version r)) (Request_str r) \<and>
    Request_new (request_line (req_method r) (req_target r) (m_version r)) =
      Inl (IncorrectData ''Start line'')"
proof
  show "prefix (request_line (req_method r) (req_target r) (m_version r)) (Request_str r)"
    by (simp add: Request_str_head request_head_def)
  obtain mm where m: "req_method r \<noteq> []" "mm \<in> set METHODS" "prefix (req_method r) mm"
    and t: "token_text (req_target r)" using assms(1) by (auto simp: Request_ok_def)
  let ?s2 = "'' '' @ ''HTTP/'' @ m_version r"
  let ?s1 = "'' '' @ req_target r @ ?s2"
  have m': "ReadToken (req_method r @ ?s1) = (req_method r, ?s1)"
    using method_token[OF m] by (rule ReadToken_token) (simp add: token_end_def)
  have t': "ReadToken ?s1 = (req_target r, ?s2)"
    using ReadToken_token[OF t, of ?s2] ReadToken_space[of "CHR '' ''" "req_target r @ ?s2"]
    by (simp add: token_chars)
  have v: "parse_protocol ?s2 = Inr (m_version r, [])"
    using assms(2) unfolding VERSIONS_def by auto code_simp+
  have "expecting_to_find_in_range METHODS (req_method r) ?s1 [] = Inr ()"
    by (rule expecting_to_find_ok) (use m in simp_all)
  moreover have "start_line_break [] = Inl (IncorrectData ''Start line'')"
    by (simp add: start_line_break_def expecting_def)
  ultimately show "Request_new (request_line (req_method r) (req_target r) (m_version r)) =
      Inl (IncorrectData ''Start line'')"
    by (simp only: Request_new_def Request_parse_def request_line_def m' t' v Let_def prod.case
        sum.case)
qed

text \<open>
  The status code of a response is taken modulo \<^verbatim>\<open>2 ^ 16\<close> before it is checked. A
  response with any code \<^verbatim>\<open>n\<close> of an unsigned long is accepted when the remainder is at
  most 599, and its code is the remainder.
\<close>

lemma status_code_wraps:
  assumes "version_ok v" "n < 2 ^ 64" "value_ok t"
  shows "Responce_new (status_line v n t @ CRLF @ CRLF) =
    (if n mod 2 ^ 16 \<le> 599
     then Inr \<lparr>m_version = v, m_headers = [], m_body = [],
               res_code = word_of_nat (n mod 2 ^ 16), res_status_text = t\<rparr>
     else Inl (IncorrectData ''Status code''))"
proof -
  have c: "unat (word_of_nat n :: StatusCode) = n mod 2 ^ 16" by (simp add: unat_of_nat)
  then have "NetworkConnectTimeoutError < word_of_nat n \<longleftrightarrow> 599 < n mod 2 ^ 16"
    by (simp add: word_less_nat_alt NetworkConnectTimeoutError_def)
  moreover have "(word_of_nat (n mod 2 ^ 16) :: StatusCode) = word_of_nat n"
    unfolding c[symmetric] by simp
  moreover have "parse_fields RESPONCE_HEADER_NAMES r ([] @ CRLF @ []) =
      (r\<lparr>m_headers := [], m_body := []\<rparr>, Inr ())" for r :: Responce
    using parse_fields_printed[OF table_ok_RESPONCE, of "[]" r "[]"]
    by (simp add: headers_ok_def parse_body_def)
  ultimately show ?thesis
    using Responce_parse_line[OF assms, of Responce_default CRLF]
    by (simp add: Responce_new_def Responce_default_def)
qed

text \<open>
  Every non-empty prefix of a known method is a method to the parser. The search for the
  method asks whether the comparison with a table entry reached the end of the received
  token, not the end of the entry, so \<^verbatim>\<open>G / HTTP/1.1\<close> is a request with the method
  \<^verbatim>\<open>G\<close>.
\<close>

lemma method_prefix_accepted:
  assumes "m \<in> set METHODS" "0 < n" "n \<le> length m" "token_text t" "version_ok v"
  shows "Request_new (request_line (take n m) t v @ CRLF @ CRLF) =
    Inr \<lparr>m_version = v, m_headers = [], m_body = [], req_method = take n m, req_target = t\<rparr>"
proof -
  have "take n m \<noteq> []" using assms(2,3) by auto
  then have "Request_ok \<lparr>m_version = v, m_headers = [], m_body = [],
      req_method = take n m, req_target = t\<rparr>"
    using assms take_is_prefix[of n m]
    by (auto simp: Request_ok_def headers_ok_def body_ok_def)
  from Request_new_str[OF this] show ?thesis by (simp add: Request_str_def request_line_def)
qed

text \<open>
  A parse that fails leaves a usable object. Whatever text is parsed into whatever
  request, when the call throws the body is the old one, and headers and version are the old
  ones or well-formed new ones: no half-read header list and no half-read body is ever stored.
\<close>

lemma failed_parse_keeps:
  assumes "Request_parse r s = (r', Inl e)"
  shows "m_body r' = m_body r \<and>
    (m_headers r' = m_headers r \<or> headers_ok REQUEST_HEADER_NAMES (m_headers r')) \<and>
    (m_version r' = m_version r \<or> version_ok (m_version r'))"
proof -
  obtain m s1 where m: "ReadToken s = (m, s1)" by (cases "ReadToken s")
  obtain t s2 where t: "ReadToken s1 = (t, s2)" by (cases "ReadToken s1")
  show ?thesis
    using assms parse_protocol_Inr[of s2] parse_fields_Inl[OF table_ok_REQUEST]
    by (fastforce simp: Request_parse_def m t Let_def split: sum.splits)
qed

text \<open>
  The binary search is a membership test. Both header tables are written in ascending
  byte order, so that \<^verbatim>\<open>std::binary_search\<close> finds exactly the names they hold.
\<close>

lemma header_names_found:
  "binary_search REQUEST_HEADER_NAMES n = (n \<in> set REQUEST_HEADER_NAMES) \<and>
   binary_search RESPONCE_HEADER_NAMES n = (n \<in> set RESPONCE_HEADER_NAMES)"
  using table_ok_REQUEST table_ok_RESPONCE by (simp add: table_ok_def binary_search_sorted)

end
