(* ===== verification/Handles.thy ===== *)
theory Handles
  imports Prelude "HOL-Library.Multiset"
begin

text \<open>
  The interface of an owning file-descriptor handle, as both classes \<^verbatim>\<open>Descriptor\<close>
  (\<^verbatim>\<open>3.tcp/lib/descriptor.cpp\<close> and \<^verbatim>\<open>1.proc/lib/descriptor.cpp\<close>) offer it: a number,
  owned when it is not negative, that moves between objects and is passed to
  \<^verbatim>\<open>::close\<close> once.

  An operation returns the objects it leaves behind and the list of the numbers it passed to
  \<^verbatim>\<open>::close\<close>, in order. What a handle owns is a multiset, so that owning twice and closing
  twice are visible.
\<close>

definition owned :: "int \<Rightarrow> int multiset" where
  "owned n = (if -1 < n then {#n#} else {#})"

lemma owned_simps [simp]: "owned (-1) = {#}" "-1 < n \<Longrightarrow> owned n = {#n#}" "n < 0 \<Longrightarrow> owned n = {#}"
  by (auto simp: owned_def)

locale owning_handle =
  fixes number :: "'h \<Rightarrow> int"
    and create :: "int \<Rightarrow> 'h"
    and close_op :: "'h \<Rightarrow> 'h \<times> int list"
    and move_op :: "'h \<Rightarrow> 'h \<times> 'h"
    and assign_op :: "'h \<Rightarrow> 'h \<Rightarrow> 'h \<times> 'h \<times> int list"
    and set_op :: "'h \<Rightarrow> int \<Rightarrow> 'h \<times> int list"
  assumes create_number: "number (create n) = n"
    and close_law: "close_op h = (h', cs) \<Longrightarrow> number h' < 0 \<and> mset cs = owned (number h)"
    and move_law: "move_op h = (new, old) \<Longrightarrow> number new = number h \<and> number old = -1"
    and assign_law: "assign_op h g = (h', g', cs) \<Longrightarrow>
      number h' = number g \<and> number g' = -1 \<and> mset cs = owned (number h)"
    and set_law: "set_op h n = (h', cs) \<Longrightarrow> number h' = n \<and> mset cs = owned (number h)"
begin

text \<open>Ownership is conserved: what is owned before is owned or closed after.\<close>

lemma close_conserves:
  "close_op h = (h', cs) \<Longrightarrow> owned (number h') + mset cs = owned (number h)"
  using close_law[of h h' cs] by simp

lemma move_conserves:
  "move_op h = (new, old) \<Longrightarrow> owned (number new) + owned (number old) = owned (number h)"
  using move_law[of h new old] by simp

lemma assign_conserves:
  "assign_op h g = (h', g', cs) \<Longrightarrow>
   owned (number h') + owned (number g') + mset cs = owned (number h) + owned (number g)"
  using assign_law[of h g h' g' cs] by simp

lemma set_conserves:
  "set_op h n = (h', cs) \<Longrightarrow> owned (number h') + mset cs = owned (number h) + owned n"
  using set_law[of h n h' cs] by simp

lemma close_twice:
  assumes "close_op h = (h', cs)" "close_op h' = (h'', cs')"
  shows "cs' = []"
  using close_law[OF assms(1)] close_law[OF assms(2)] by simp

end

end
