(* ===== verification/Posix.thy ===== *)
theory Posix
  imports Prelude
begin

text \<open>
  The operating system as the code sees it. System calls are parameters of the definitions that
  make them: functions of the world \<^verbatim>\<open>'w\<close> that return the world after the call and what the
  C function returns, \<^verbatim>\<open>Inl errno\<close> for -1. What a property needs of a call is a named predicate
  below, the documented behaviour of \<^verbatim>\<open>read(2)\<close> and \<^verbatim>\<open>write(2)\<close>.

  The scripted peer at the end is one world for which these predicates hold, on which the
  witnesses evaluate.
\<close>

datatype errno = EAGAIN | EWOULDBLOCK | EINPROGRESS | EBADF | Errno nat

type_synonym 'w read_call = "int \<Rightarrow> nat \<Rightarrow> 'w \<Rightarrow> 'w \<times> (errno + string)"
type_synonym 'w write_call = "int \<Rightarrow> string \<Rightarrow> 'w \<Rightarrow> 'w \<times> (errno + nat)"

text \<open>
  \<^verbatim>\<open>read\<close> of at most \<^verbatim>\<open>n\<close> bytes takes what it returns from the front of what the peer has
  still to deliver on the descriptor, and takes nothing when it fails.
\<close>

definition reads_stream :: "'w read_call \<Rightarrow> int \<Rightarrow> ('w \<Rightarrow> string) \<Rightarrow> bool" where
  "reads_stream rd fd pending \<longleftrightarrow>
     (\<forall>n w w' r. rd fd n w = (w', r) \<longrightarrow>
        (case r of Inl e \<Rightarrow> pending w' = pending w
         | Inr bs \<Rightarrow> length bs \<le> n \<and> pending w = bs @ pending w'))"

text \<open>A read that neither fails nor returns 0 while the peer has bytes to deliver.\<close>

definition reads_progress :: "'w read_call \<Rightarrow> int \<Rightarrow> ('w \<Rightarrow> string) \<Rightarrow> bool" where
  "reads_progress rd fd pending \<longleftrightarrow>
     (\<forall>n w. 0 < n \<longrightarrow> pending w \<noteq> [] \<longrightarrow> (\<exists>w' bs. rd fd n w = (w', Inr bs) \<and> bs \<noteq> []))"

text \<open>
  \<^verbatim>\<open>write\<close> appends the first bytes of the buffer, as many as it returns, to what the peer has
  received, and nothing when it fails.
\<close>

definition writes_stream :: "'w write_call \<Rightarrow> int \<Rightarrow> ('w \<Rightarrow> string) \<Rightarrow> bool" where
  "writes_stream wr fd sent \<longleftrightarrow>
     (\<forall>bs w w' r. wr fd bs w = (w', r) \<longrightarrow>
        (case r of Inl e \<Rightarrow> sent w' = sent w
         | Inr n \<Rightarrow> n \<le> length bs \<and> sent w' = sent w @ take n bs))"

definition writes_progress :: "'w write_call \<Rightarrow> int \<Rightarrow> bool" where
  "writes_progress wr fd \<longleftrightarrow>
     (\<forall>bs w w' n. bs \<noteq> [] \<longrightarrow> wr fd bs w = (w', Inr n) \<longrightarrow> 0 < n)"

lemma reads_streamD:
  assumes "reads_stream rd fd pending" "rd fd n w = (w', r)"
  shows "(\<forall>e. r = Inl e \<longrightarrow> pending w' = pending w) \<and>
    (\<forall>bs. r = Inr bs \<longrightarrow> length bs \<le> n \<and> pending w = bs @ pending w')"
proof -
  have "case r of Inl e \<Rightarrow> pending w' = pending w
      | Inr bs \<Rightarrow> length bs \<le> n \<and> pending w = bs @ pending w'"
    using assms unfolding reads_stream_def by blast
  then show ?thesis by (auto split: sum.splits)
qed

lemma reads_progressD:
  "reads_progress rd fd pending \<Longrightarrow> 0 < n \<Longrightarrow> pending w \<noteq> [] \<Longrightarrow>
   \<exists>w' bs. rd fd n w = (w', Inr bs) \<and> bs \<noteq> []"
  by (simp add: reads_progress_def)

lemma writes_streamD:
  assumes "writes_stream wr fd sent" "wr fd bs w = (w', r)"
  shows "(\<forall>e. r = Inl e \<longrightarrow> sent w' = sent w) \<and>
    (\<forall>n. r = Inr n \<longrightarrow> n \<le> length bs \<and> sent w' = sent w @ take n bs)"
proof -
  have "case r of Inl e \<Rightarrow> sent w' = sent w
      | Inr n \<Rightarrow> n \<le> length bs \<and> sent w' = sent w @ take n bs"
    using assms unfolding writes_stream_def by blast
  then show ?thesis by (auto split: sum.splits)
qed

section \<open>A scripted peer\<close>

text \<open>
  The peer delivers its chunks in order, one per read unless the buffer is shorter, then closes
  its end; a read on which it has an error planned fails with it. It takes written bytes in
  portions of at most three.
\<close>

record peer =
  to_deliver :: "(errno + string) list"
  received :: string

fun deliver :: "nat \<Rightarrow> (errno + string) list \<Rightarrow> (errno + string) list \<times> (errno + string)" where
  "deliver n [] = ([], Inr [])"
| "deliver n (Inl e # cs) = (cs, Inl e)"
| "deliver n (Inr bs # cs) =
     (if drop n bs = [] then cs else Inr (drop n bs) # cs, Inr (take n bs))"

fun chunk_bytes :: "(errno + string) list \<Rightarrow> string" where
  "chunk_bytes [] = []"
| "chunk_bytes (Inl e # cs) = chunk_bytes cs"
| "chunk_bytes (Inr bs # cs) = bs @ chunk_bytes cs"

definition peer_read :: "peer read_call" where
  "peer_read fd n w =
     (let (cs, r) = deliver n (to_deliver w) in (w\<lparr>to_deliver := cs\<rparr>, r))"

definition peer_write :: "peer write_call" where
  "peer_write fd bs w = (w\<lparr>received := received w @ take 3 bs\<rparr>, Inr (min 3 (length bs)))"

lemma deliver_bytes:
  "deliver n cs = (cs', r) \<Longrightarrow>
   (case r of Inl e \<Rightarrow> chunk_bytes cs' = chunk_bytes cs
    | Inr bs \<Rightarrow> length bs \<le> n \<and> chunk_bytes cs = bs @ chunk_bytes cs')"
  by (induction n cs rule: deliver.induct) (auto simp flip: append_assoc split: if_splits)

lemma peer_reads_stream [os_laws]: "reads_stream peer_read fd (\<lambda>w. chunk_bytes (to_deliver w))"
  unfolding reads_stream_def peer_read_def
  by (auto simp: Let_def split: prod.splits sum.splits dest!: deliver_bytes)

lemma peer_writes_stream [os_laws]: "writes_stream peer_write fd received"
  unfolding writes_stream_def peer_write_def by (auto simp: min_def)

lemma peer_writes_progress [os_laws]: "writes_progress peer_write fd"
  unfolding writes_progress_def peer_write_def by auto

end
