(* ===== verification/Exact_IO.thy ===== *)
theory Exact_IO
  imports Posix
begin

text \<open>
  The contract of the two loops \<^verbatim>\<open>readExact\<close> and \<^verbatim>\<open>writeExact\<close> over the single-call methods
  \<^verbatim>\<open>read\<close> and \<^verbatim>\<open>write\<close> of the same class. Both \<^verbatim>\<open>tcp::Connection\<close> and \<^verbatim>\<open>prc::Process\<close> have the
  pair; each interprets the locales on its own definitions, with the system calls free.
\<close>

section \<open>Reading\<close>

locale exact_reader =
  fixes rd :: "nat \<Rightarrow> 'w \<Rightarrow> 'w \<times> ('e + string)"
    and eof :: 'e
    and loop :: "nat \<Rightarrow> string \<Rightarrow> 'w \<Rightarrow> 'w \<times> string \<times> ('e + unit)"
  assumes loop_eq: "loop len buf w =
    (if length buf < len
     then case rd (len - length buf) w of
       (w', Inl e) \<Rightarrow> (w', buf, Inl e)
     | (w', Inr bs) \<Rightarrow> if bs = [] then (w', buf, Inl eof) else loop len (buf @ bs) w'
     else (w, buf, Inr ()))"
begin

text \<open>
  Whatever happens, the buffer holds the bytes taken from the stream, in order, and nothing is
  taken that is not in the buffer; without an exception it is full.
\<close>

lemma exact_read:
  assumes law: "\<And>n w w' r. rd n w = (w', r) \<Longrightarrow>
      (case r of Inl e \<Rightarrow> pending w' = pending w
       | Inr bs \<Rightarrow> length bs \<le> n \<and> pending w = bs @ pending w')"
    and "loop len buf w = (w', buf', r)" "length buf \<le> len"
  shows "\<exists>got. buf' = buf @ got \<and> pending w = got @ pending w' \<and> length buf' \<le> len \<and>
    (r = Inr () \<longrightarrow> length buf' = len)"
  using assms(2,3)
proof (induction "len - length buf" arbitrary: buf w rule: less_induct)
  case less
  show ?case
  proof (cases "length buf < len")
    case False
    with less.prems show ?thesis by (auto simp: loop_eq[of len buf])
  next
    case True
    obtain w1 r1 where rd: "rd (len - length buf) w = (w1, r1)"
      by (cases "rd (len - length buf) w")
    show ?thesis
    proof (cases r1)
      case (Inl e)
      with less.prems True rd law[OF rd] show ?thesis by (auto simp: loop_eq[of len buf])
    next
      case (Inr bs)
      have bs: "length bs \<le> len - length buf" "pending w = bs @ pending w1"
        using law[OF rd] Inr by auto
      show ?thesis
      proof (cases "bs = []")
        case True
        with less.prems \<open>length buf < len\<close> rd Inr bs show ?thesis
          by (auto simp: loop_eq[of len buf])
      next
        case False
        have "loop len (buf @ bs) w1 = (w', buf', r)"
          using less.prems(1) True rd Inr False by (simp add: loop_eq[of len buf])
        moreover have "len - length (buf @ bs) < len - length buf" "length (buf @ bs) \<le> len"
          using True False bs(1) by (cases bs, auto)
        ultimately obtain got where "buf' = (buf @ bs) @ got" "pending w1 = got @ pending w'"
            "length buf' \<le> len" "r = Inr () \<longrightarrow> length buf' = len"
          using less.hyps by blast
        then show ?thesis using bs(2) by (intro exI[of _ "bs @ got"]) simp
      qed
    qed
  qed
qed

text \<open>With a peer that delivers enough, the loop ends without an exception.\<close>

lemma exact_read_succeeds:
  assumes law: "\<And>n w w' r. rd n w = (w', r) \<Longrightarrow>
      (case r of Inl e \<Rightarrow> pending w' = pending w
       | Inr bs \<Rightarrow> length bs \<le> n \<and> pending w = bs @ pending w')"
    and progress: "\<And>n w. 0 < n \<Longrightarrow> pending w \<noteq> [] \<Longrightarrow> \<exists>w' bs. rd n w = (w', Inr bs) \<and> bs \<noteq> []"
    and "length buf \<le> len" "len \<le> length buf + length (pending w)"
  shows "\<exists>w'. loop len buf w = (w', buf @ take (len - length buf) (pending w), Inr ()) \<and>
    pending w' = drop (len - length buf) (pending w)"
  using assms(3,4)
proof (induction "len - length buf" arbitrary: buf w rule: less_induct)
  case less
  show ?case
  proof (cases "length buf < len")
    case False
    with less.prems show ?thesis by (auto simp: loop_eq[of len buf])
  next
    case True
    with less.prems obtain w1 bs where rd: "rd (len - length buf) w = (w1, Inr bs)" "bs \<noteq> []"
      using progress[of "len - length buf" w] by fastforce
    have bs: "length bs \<le> len - length buf" "pending w = bs @ pending w1"
      using law[OF rd(1)] by auto
    have "len - length (buf @ bs) < len - length buf" using True rd(2) by (cases bs) auto
    moreover have "length (buf @ bs) \<le> len" "len \<le> length (buf @ bs) + length (pending w1)"
      using bs less.prems True by auto
    ultimately obtain w' where
      "loop len (buf @ bs) w1 = (w', (buf @ bs) @ take (len - length (buf @ bs)) (pending w1), Inr ())"
      "pending w' = drop (len - length (buf @ bs)) (pending w1)"
      using less.hyps by blast
    then show ?thesis using True rd bs by (simp add: loop_eq[of len buf])
  qed
qed

end

section \<open>Writing\<close>

locale exact_writer =
  fixes wr :: "string \<Rightarrow> 'w \<Rightarrow> 'w \<times> ('e + nat)"
    and loop :: "string \<Rightarrow> nat \<Rightarrow> 'w \<Rightarrow> ('w \<times> ('e + unit)) option"
  assumes loop_eq: "loop data counter w =
    (if counter < length data
     then case wr (drop counter data) w of
       (w', Inl e) \<Rightarrow> Some (w', Inl e)
     | (w', Inr n) \<Rightarrow> loop data (counter + n) w'
     else Some (w, Inr ()))"
begin

text \<open>
  When each call makes progress the loop returns; without an exception the peer has received
  the whole buffer, otherwise a prefix of it.
\<close>

lemma exact_write:
  assumes law: "\<And>bs w w' r. wr bs w = (w', r) \<Longrightarrow>
      (case r of Inl e \<Rightarrow> sent w' = sent w
       | Inr n \<Rightarrow> n \<le> length bs \<and> sent w' = sent w @ take n bs)"
    and progress: "\<And>bs w w' n. bs \<noteq> [] \<Longrightarrow> wr bs w = (w', Inr n) \<Longrightarrow> 0 < n"
    and "counter \<le> length data"
  shows "\<exists>w' r n. loop data counter w = Some (w', r) \<and> n \<le> length data - counter \<and>
    sent w' = sent w @ take n (drop counter data) \<and> (r = Inr () \<longrightarrow> n = length data - counter)"
  using assms(3)
proof (induction "length data - counter" arbitrary: counter w rule: less_induct)
  case less
  show ?case
  proof (cases "counter < length data")
    case False
    with less.prems show ?thesis
      by (intro exI[of _ w] exI[of _ "Inr ()"] exI[of _ 0]) (simp add: loop_eq)
  next
    case True
    obtain w1 r1 where wr: "wr (drop counter data) w = (w1, r1)"
      by (cases "wr (drop counter data) w")
    show ?thesis
    proof (cases r1)
      case (Inl e)
      with True wr law[OF wr] show ?thesis
        by (auto simp: loop_eq[of data counter] intro!: exI[of _ 0])
    next
      case (Inr k)
      have k: "k \<le> length data - counter" "sent w1 = sent w @ take k (drop counter data)"
        using law[OF wr] Inr by auto
      have "0 < k" using progress[OF _ wr[unfolded Inr]] True by simp
      then have "length data - (counter + k) < length data - counter" "counter + k \<le> length data"
        using k(1) True by auto
      then obtain w' r n where ih: "loop data (counter + k) w1 = Some (w', r)"
          "n \<le> length data - (counter + k)"
          "sent w' = sent w1 @ take n (drop (counter + k) data)"
          "r = Inr () \<longrightarrow> n = length data - (counter + k)"
        using less.hyps by blast
      moreover have "take k (drop counter data) @ take n (drop (counter + k) data) =
          take (k + n) (drop counter data)"
        by (simp add: take_add add.commute)
      ultimately show ?thesis
        using True wr Inr k
        by (intro exI[of _ w'] exI[of _ r] exI[of _ "k + n"]) (auto simp: loop_eq[of data counter])
    qed
  qed
qed

end

end
