(* ===== verification/Prc_Process.thy ===== *)
theory Prc_Process
  imports Handles Exact_IO
begin

text \<open>
  \<^verbatim>\<open>1.proc\<close>: the class \<^verbatim>\<open>prc::Process\<close>, a child process behind two pipes, and the class
  \<^verbatim>\<open>prc::Descriptor\<close> it keeps its pipe ends in.

  A method is given the results of the system calls it makes and returns the object, the calls
  it made that matter to what the object owns (in order, destructors of locals included) and
  its outcome.
\<close>

section \<open>Descriptor\<close>

record Prc_Descriptor =
  p_id :: int

definition Prc_Descriptor_default :: Prc_Descriptor where
  "Prc_Descriptor_default = \<lparr>p_id = -1\<rparr>"

definition Prc_Descriptor_new :: "int \<Rightarrow> Prc_Descriptor" where
  "Prc_Descriptor_new n = \<lparr>p_id = n\<rparr>"

definition Prc_Descriptor_valid :: "Prc_Descriptor \<Rightarrow> bool" where
  "Prc_Descriptor_valid d \<longleftrightarrow> p_id d > -1"

definition Prc_Descriptor_invalidate :: "Prc_Descriptor \<Rightarrow> Prc_Descriptor" where
  "Prc_Descriptor_invalidate d = d\<lparr>p_id := -1\<rparr>"

definition Prc_Descriptor_close :: "Prc_Descriptor \<Rightarrow> Prc_Descriptor \<times> int list" where
  "Prc_Descriptor_close d =
     (if Prc_Descriptor_valid d then (Prc_Descriptor_invalidate d, [p_id d]) else (d, []))"

definition Prc_Descriptor_move :: "Prc_Descriptor \<Rightarrow> Prc_Descriptor \<times> Prc_Descriptor" where
  "Prc_Descriptor_move other =
     (Prc_Descriptor_new (p_id other), Prc_Descriptor_invalidate other)"

definition Prc_Descriptor_assign ::
  "Prc_Descriptor \<Rightarrow> Prc_Descriptor \<Rightarrow> Prc_Descriptor \<times> Prc_Descriptor \<times> int list" where
  "Prc_Descriptor_assign this other =
     (let (this, cs) = Prc_Descriptor_close this
      in (this\<lparr>p_id := p_id other\<rparr>, Prc_Descriptor_invalidate other, cs))"

definition Prc_Descriptor_set_fd :: "Prc_Descriptor \<Rightarrow> int \<Rightarrow> Prc_Descriptor \<times> int list" where
  "Prc_Descriptor_set_fd d n = (let (d, cs) = Prc_Descriptor_close d in (d\<lparr>p_id := n\<rparr>, cs))"

lemmas Prc_Descriptor_defs = Prc_Descriptor_default_def Prc_Descriptor_new_def
  Prc_Descriptor_valid_def Prc_Descriptor_invalidate_def Prc_Descriptor_close_def
  Prc_Descriptor_move_def Prc_Descriptor_assign_def Prc_Descriptor_set_fd_def

interpretation prc_handle: owning_handle p_id Prc_Descriptor_new Prc_Descriptor_close
  Prc_Descriptor_move Prc_Descriptor_assign Prc_Descriptor_set_fd
  by unfold_locales (auto simp: Prc_Descriptor_defs Let_def split: if_splits)

section \<open>Process\<close>

datatype prc_error =
    PrcError errno
  | CreationError "errno + string"
  | PrcDescriptorError "errno + string" int

record Process =
  cpid :: int
  write_to_child :: Prc_Descriptor
  read_from_child :: Prc_Descriptor

definition Process_default :: Process where
  "Process_default = \<lparr>cpid = -1, write_to_child = Prc_Descriptor_default,
     read_from_child = Prc_Descriptor_default\<rparr>"

datatype sys_call =
    Close int
  | Dup2 int int
  | Execv string "string list"
  | Exit
  | Kill int
  | Waitpid int

text \<open>The result of \<^verbatim>\<open>waitpid(_cpid, nullptr, WNOHANG)\<close>: -1, or a process number, or 0.\<close>

definition Process_isRunning :: "(int \<Rightarrow> errno + int) \<Rightarrow> Process \<Rightarrow> bool" where
  "Process_isRunning os_waitpid p \<longleftrightarrow> os_waitpid (cpid p) = Inr 0"

text \<open>The argument vector without its terminating null pointer.\<close>

definition argv :: "string \<Rightarrow> string list \<Rightarrow> string list" where
  "argv path params = path # params"

text \<open>What the child does between \<^verbatim>\<open>fork\<close> and the end of its copy of the program.\<close>

definition Process_child ::
  "errno + unit \<Rightarrow> errno + unit \<Rightarrow> errno + unit \<Rightarrow> Prc_Descriptor \<Rightarrow> Prc_Descriptor \<Rightarrow>
   Process \<Rightarrow> string \<Rightarrow> string list \<Rightarrow> sys_call list" where
  "Process_child dup_in dup_out exec read_from_parent write_to_parent p path params =
     Dup2 (p_id read_from_parent) 0 #
     (case dup_in of Inl _ \<Rightarrow> [Exit] | Inr _ \<Rightarrow>
        map Close (snd (Prc_Descriptor_close read_from_parent)) @
        map Close (snd (Prc_Descriptor_close (write_to_child p))) @
        Dup2 (p_id write_to_parent) 1 #
        (case dup_out of Inl _ \<Rightarrow> [Exit] | Inr _ \<Rightarrow>
           map Close (snd (Prc_Descriptor_close write_to_parent)) @
           map Close (snd (Prc_Descriptor_close (read_from_child p))) @
           Execv path (argv path params) #
           (case exec of Inl _ \<Rightarrow> [Exit] | Inr _ \<Rightarrow> [])))"

text \<open>
  The outcome \<^verbatim>\<open>Inr calls\<close>: the calls of the child when \<^verbatim>\<open>fork\<close> returned 0, none in the
  parent. The two locals are destroyed in the reverse order of their declarations.
\<close>

definition Process_open ::
  "(int \<Rightarrow> errno + int) \<Rightarrow> errno + (int \<times> int) \<Rightarrow> errno + (int \<times> int) \<Rightarrow> errno + int \<Rightarrow>
   (errno + unit) \<times> (errno + unit) \<times> (errno + unit) \<Rightarrow> Process \<Rightarrow> string \<Rightarrow> string list \<Rightarrow>
   Process \<times> sys_call list \<times> (prc_error + sys_call list)" where
  "Process_open os_waitpid os_pipe2 os_pipe os_fork child p path params =
     (if Process_isRunning os_waitpid p
      then (p, [], Inl (CreationError (Inr ''Nested processes are forbidden'')))
      else case os_pipe2 of
        Inl errno \<Rightarrow> (p, [], Inl (CreationError (Inl errno)))
      | Inr (pipe_out0, pipe_out1) \<Rightarrow>
      case os_pipe of
        Inl errno \<Rightarrow> (p, [Close pipe_out0, Close pipe_out1], Inl (CreationError (Inl errno)))
      | Inr (pipe_in0, pipe_in1) \<Rightarrow>
          let write_to_parent = Prc_Descriptor_new pipe_out1;
              (rfc, cs1) = Prc_Descriptor_set_fd (read_from_child p) pipe_out0;
              read_from_parent = Prc_Descriptor_new pipe_in0;
              (wtc, cs2) = Prc_Descriptor_set_fd (write_to_child p) pipe_in1;
              p = p\<lparr>write_to_child := wtc, read_from_child := rfc\<rparr>;
              locals = snd (Prc_Descriptor_close read_from_parent) @
                snd (Prc_Descriptor_close write_to_parent)
          in case os_fork of
               Inl errno \<Rightarrow> (p\<lparr>cpid := -1\<rparr>, map Close (cs1 @ cs2 @ locals),
                 Inl (CreationError (Inl errno)))
             | Inr pid \<Rightarrow>
                 if pid = 0
                 then (p\<lparr>cpid := 0\<rparr>, map Close (cs1 @ cs2),
                   Inr (case child of (dup_in, dup_out, exec) \<Rightarrow>
                     Process_child dup_in dup_out exec read_from_parent write_to_parent p
                       path params))
                 else (p\<lparr>cpid := pid\<rparr>, map Close (cs1 @ cs2 @ locals), Inr []))"

text \<open>The constructor opens; when \<^verbatim>\<open>open\<close> throws, the members are destroyed in reverse order.\<close>

definition Process_new ::
  "(int \<Rightarrow> errno + int) \<Rightarrow> errno + (int \<times> int) \<Rightarrow> errno + (int \<times> int) \<Rightarrow> errno + int \<Rightarrow>
   (errno + unit) \<times> (errno + unit) \<times> (errno + unit) \<Rightarrow> string \<Rightarrow> string list \<Rightarrow>
   sys_call list \<times> (prc_error + Process \<times> sys_call list)" where
  "Process_new os_waitpid os_pipe2 os_pipe os_fork child path params =
     (case Process_open os_waitpid os_pipe2 os_pipe os_fork child Process_default path params of
        (p, cs, Inl e) \<Rightarrow>
          (cs @ map Close (snd (Prc_Descriptor_close (read_from_child p)) @
             snd (Prc_Descriptor_close (write_to_child p))), Inl e)
      | (p, cs, Inr calls) \<Rightarrow> (cs, Inr (p, calls)))"

definition Process_write ::
  "'w write_call \<Rightarrow> Process \<Rightarrow> string \<Rightarrow> 'w \<Rightarrow> 'w \<times> (prc_error + nat)" where
  "Process_write os_write p data w =
     (case os_write (p_id (write_to_child p)) data w of
        (w, Inl errno) \<Rightarrow> (w, Inl (PrcDescriptorError (Inl errno) (p_id (write_to_child p))))
      | (w, Inr n) \<Rightarrow> (w, Inr n))"

partial_function (option) Process_writeExact_loop ::
  "'w write_call \<Rightarrow> Process \<Rightarrow> string \<Rightarrow> nat \<Rightarrow> 'w \<Rightarrow> ('w \<times> (prc_error + unit)) option" where
  "Process_writeExact_loop os_write p data counter w =
     (if counter < length data
      then case Process_write os_write p (drop counter data) w of
        (w', Inl e) \<Rightarrow> Some (w', Inl e)
      | (w', Inr n) \<Rightarrow> Process_writeExact_loop os_write p data (counter + n) w'
      else Some (w, Inr ()))"

definition Process_writeExact ::
  "'w write_call \<Rightarrow> Process \<Rightarrow> string \<Rightarrow> 'w \<Rightarrow> ('w \<times> (prc_error + unit)) option" where
  "Process_writeExact os_write p data w = Process_writeExact_loop os_write p data 0 w"

definition Process_read ::
  "'w read_call \<Rightarrow> Process \<Rightarrow> nat \<Rightarrow> 'w \<Rightarrow> 'w \<times> (prc_error + string)" where
  "Process_read os_read p len w =
     (case os_read (p_id (read_from_child p)) len w of
        (w, Inl errno) \<Rightarrow> (w, Inl (PrcDescriptorError (Inl errno) (p_id (read_from_child p))))
      | (w, Inr bs) \<Rightarrow> (w, Inr bs))"

function Process_readExact_loop ::
  "'w read_call \<Rightarrow> Process \<Rightarrow> nat \<Rightarrow> string \<Rightarrow> 'w \<Rightarrow> 'w \<times> string \<times> (prc_error + unit)" where
  "Process_readExact_loop os_read p len buf w =
     (if length buf < len
      then case Process_read os_read p (len - length buf) w of
        (w', Inl e) \<Rightarrow> (w', buf, Inl e)
      | (w', Inr bs) \<Rightarrow>
          if bs = []
          then (w', buf,
            Inl (PrcDescriptorError (Inr ''Desctiptor closed'') (p_id (read_from_child p))))
          else Process_readExact_loop os_read p len (buf @ bs) w'
      else (w, buf, Inr ()))"
  by pat_completeness auto
termination
  by (relation "measure (\<lambda>(os_read, p, len, buf, w). len - length buf)")
    (auto simp: less_diff_conv2 neq_Nil_conv)

declare Process_readExact_loop.simps [simp del]

definition Process_readExact ::
  "'w read_call \<Rightarrow> Process \<Rightarrow> nat \<Rightarrow> 'w \<Rightarrow> 'w \<times> string \<times> (prc_error + unit)" where
  "Process_readExact os_read p len w = Process_readExact_loop os_read p len [] w"

definition Process_closeStdin :: "Process \<Rightarrow> Process \<times> sys_call list" where
  "Process_closeStdin p =
     (let (d, cs) = Prc_Descriptor_close (write_to_child p)
      in (p\<lparr>write_to_child := d\<rparr>, map Close cs))"

definition Process_close ::
  "errno + unit \<Rightarrow> errno + int \<Rightarrow> Process \<Rightarrow> Process \<times> sys_call list \<times> (prc_error + unit)" where
  "Process_close os_kill os_wait p =
     (let (wtc, cs1) = Prc_Descriptor_close (write_to_child p);
          (rfc, cs2) = Prc_Descriptor_close (read_from_child p);
          p = p\<lparr>write_to_child := wtc, read_from_child := rfc\<rparr>;
          calls = map Close (cs1 @ cs2) @ [Kill (cpid p)]
      in case os_kill of
           Inl errno \<Rightarrow> (p, calls, Inl (PrcError errno))
         | Inr _ \<Rightarrow>
             (case os_wait of
                Inl errno \<Rightarrow> (p, calls @ [Waitpid (cpid p)], Inl (PrcError errno))
              | Inr _ \<Rightarrow> (p, calls @ [Waitpid (cpid p)], Inr ())))"

text \<open>The destructor: \<^verbatim>\<open>close\<close> with its exceptions swallowed, then the members.\<close>

definition Process_destroy :: "errno + unit \<Rightarrow> errno + int \<Rightarrow> Process \<Rightarrow> sys_call list" where
  "Process_destroy os_kill os_wait p =
     (let (p, calls, r) = Process_close os_kill os_wait p
      in calls @ map Close (snd (Prc_Descriptor_close (read_from_child p)) @
           snd (Prc_Descriptor_close (write_to_child p))))"

section \<open>The loops as instances of the contract\<close>

interpretation prc_reader: exact_reader "Process_read os_read p"
  "PrcDescriptorError (Inr ''Desctiptor closed'') (p_id (read_from_child p))"
  "Process_readExact_loop os_read p" for os_read p
  by unfold_locales (rule Process_readExact_loop.simps)

interpretation prc_writer: exact_writer "Process_write os_write p"
  "Process_writeExact_loop os_write p" for os_write p
  by unfold_locales (rule Process_writeExact_loop.simps)

lemma Process_read_stream:
  assumes "reads_stream os_read (p_id (read_from_child p)) pending"
    and "Process_read os_read p n w = (w', r)"
  shows "case r of Inl e \<Rightarrow> pending w' = pending w
    | Inr bs \<Rightarrow> length bs \<le> n \<and> pending w = bs @ pending w'"
proof -
  obtain w1 r1 where "os_read (p_id (read_from_child p)) n w = (w1, r1)"
    by (cases "os_read (p_id (read_from_child p)) n w")
  with assms reads_streamD[OF assms(1) this] show ?thesis
    by (cases r1) (auto simp: Process_read_def)
qed

lemma Process_write_stream:
  assumes "writes_stream os_write (p_id (write_to_child p)) sent"
    and "Process_write os_write p bs w = (w', r)"
  shows "case r of Inl e \<Rightarrow> sent w' = sent w
    | Inr n \<Rightarrow> n \<le> length bs \<and> sent w' = sent w @ take n bs"
proof -
  obtain w1 r1 where "os_write (p_id (write_to_child p)) bs w = (w1, r1)"
    by (cases "os_write (p_id (write_to_child p)) bs w")
  with assms writes_streamD[OF assms(1) this] show ?thesis
    by (cases r1) (auto simp: Process_write_def)
qed

section \<open>Descriptor tables\<close>

text \<open>
  What a sequence of calls makes of a process's table of open descriptors: \<^verbatim>\<open>dup2(a, b)\<close> makes
  \<^verbatim>\<open>b\<close> refer to what \<^verbatim>\<open>a\<close> refers to, \<^verbatim>\<open>close(a)\<close> drops \<^verbatim>\<open>a\<close>.
\<close>

fun table_call :: "sys_call \<Rightarrow> (int \<rightharpoonup> 'f) \<Rightarrow> (int \<rightharpoonup> 'f)" where
  "table_call (Close a) t = t(a := None)"
| "table_call (Dup2 a b) t = t(b := t a)"
| "table_call (Execv _ _) t = t"
| "table_call Exit t = t"
| "table_call (Kill _) t = t"
| "table_call (Waitpid _) t = t"

definition table_after :: "sys_call list \<Rightarrow> (int \<rightharpoonup> 'f) \<Rightarrow> (int \<rightharpoonup> 'f)" where
  "table_after calls t = fold table_call calls t"

fun closes :: "sys_call list \<Rightarrow> int multiset" where
  "closes [] = {#}"
| "closes (Close a # cs) = add_mset a (closes cs)"
| "closes (_ # cs) = closes cs"

lemma closes_append [simp]: "closes (cs @ ds) = closes cs + closes ds"
  by (induction cs rule: closes.induct) auto

lemma closes_map [simp]: "closes (map Close fds) = mset fds"
  by (induction fds) auto

definition process_owned :: "Process \<Rightarrow> int multiset" where
  "process_owned p = owned (p_id (write_to_child p)) + owned (p_id (read_from_child p))"

definition pipe_ends :: "errno + (int \<times> int) \<Rightarrow> int multiset" where
  "pipe_ends r = (case r of Inl _ \<Rightarrow> {#} | Inr (a, b) \<Rightarrow> owned a + owned b)"

text \<open>
  The pipe ends the kernel has created when \<^verbatim>\<open>Process::open\<close> is over: \<^verbatim>\<open>pipe2\<close> is not called for
  an object whose process runs, and \<^verbatim>\<open>pipe\<close> not when \<^verbatim>\<open>pipe2\<close> has failed.
\<close>

definition ends_made :: "bool \<Rightarrow> errno + (int \<times> int) \<Rightarrow> errno + (int \<times> int) \<Rightarrow> int multiset" where
  "ends_made runs os_pipe2 os_pipe =
     (if runs then {#} else case os_pipe2 of Inl _ \<Rightarrow> {#} | Inr _ \<Rightarrow> pipe_ends os_pipe2 + pipe_ends os_pipe)"

lemma Prc_close_new: "mset (snd (Prc_Descriptor_close (Prc_Descriptor_new n))) = owned n"
  by (simp add: Prc_Descriptor_defs owned_def)

lemma Prc_set_fd: "Prc_Descriptor_set_fd d n = (Prc_Descriptor_new n, snd (Prc_Descriptor_close d))"
  by (cases d) (simp add: Prc_Descriptor_defs)

lemma Prc_close_owned: "mset (snd (Prc_Descriptor_close d)) = owned (p_id d)"
  by (simp add: Prc_Descriptor_defs owned_def)

section \<open>Properties\<close>

text \<open>
  C11: Opening a process loses no pipe end in the parent. Whatever \<^verbatim>\<open>waitpid\<close>, \<^verbatim>\<open>pipe2\<close>,
  \<^verbatim>\<open>pipe\<close> and \<^verbatim>\<open>fork\<close> return in the parent, the descriptors the object owned before and the pipe
  ends the kernel has created are afterwards owned by the object or closed, each once. The call
  throws exactly when the object's process runs or one of the three calls fails; before the
  \<^verbatim>\<open>fork\<close> it then leaves the object as it was, a failed \<^verbatim>\<open>fork\<close> leaves it with the number -1 and,
  as success does with the number of the child, with the end to write to the child and the end to
  read from it, and nothing else open.
\<close>

theorem process_open_descriptors:
  assumes "os_fork \<noteq> Inr 0" "\<And>a b. Inr (a, b) \<in> {os_pipe2, os_pipe} \<Longrightarrow> 0 \<le> a \<and> 0 \<le> b"
    and "Process_open os_waitpid os_pipe2 os_pipe os_fork child p path params = (p', calls, r)"
  shows "process_owned p' + closes calls =
      process_owned p + ends_made (Process_isRunning os_waitpid p) os_pipe2 os_pipe \<and>
    (case (Process_isRunning os_waitpid p, os_pipe2, os_pipe) of
       (False, Inr (o0, o1), Inr (i0, i1)) \<Rightarrow>
         write_to_child p' = \<lparr>p_id = i1\<rparr> \<and> read_from_child p' = \<lparr>p_id = o0\<rparr> \<and>
         (case os_fork of
            Inl e \<Rightarrow> r = Inl (CreationError (Inl e)) \<and> cpid p' = -1
          | Inr n \<Rightarrow> r = Inr [] \<and> cpid p' = n)
     | _ \<Rightarrow> p' = p \<and> (\<exists>e. r = Inl (CreationError e)))"
proof -
  have closed: "closes (map Close (snd (Prc_Descriptor_close (read_from_child p)) @
      snd (Prc_Descriptor_close (write_to_child p)) @
      snd (Prc_Descriptor_close (Prc_Descriptor_new a)) @
      snd (Prc_Descriptor_close (Prc_Descriptor_new b)))) = process_owned p + owned a + owned b" for a b
    by (simp only: closes_map mset_append Prc_close_new process_owned_def Prc_close_owned ac_simps
        prc_handle.create_number)
  have own: "process_owned \<lparr>cpid = n, write_to_child = Prc_Descriptor_new i1, read_from_child = Prc_Descriptor_new o0\<rparr> =
      owned i1 + owned o0" for n i1 o0
    by (simp add: process_owned_def Prc_Descriptor_new_def)
  show ?thesis
  proof (cases "Process_isRunning os_waitpid p")
    case True
    with assms(3) show ?thesis by (auto simp: Process_open_def ends_made_def)
  next
    case idle: False
    show ?thesis
    proof (cases os_pipe2)
      case (Inl e)
      with assms(3) idle show ?thesis by (auto simp: Process_open_def ends_made_def)
    next
      case (Inr ab)
      obtain o0 o1 where pipe2: "os_pipe2 = Inr (o0, o1)" "0 \<le> o0" "0 \<le> o1"
        using Inr assms(2) by (cases ab) auto
      show ?thesis
      proof (cases os_pipe)
        case (Inl e)
        with assms(3) idle pipe2 show ?thesis
          by (auto simp: Process_open_def ends_made_def pipe_ends_def owned_def)
      next
        case (Inr cd)
        then obtain i0 i1 where pipe: "os_pipe = Inr (i0, i1)" by (cases cd) auto
        have "p' = \<lparr>cpid = (case os_fork of Inl _ \<Rightarrow> -1 | Inr n \<Rightarrow> n),
              write_to_child = Prc_Descriptor_new i1, read_from_child = Prc_Descriptor_new o0\<rparr> \<and>
            calls = map Close (snd (Prc_Descriptor_close (read_from_child p)) @
              snd (Prc_Descriptor_close (write_to_child p)) @
              snd (Prc_Descriptor_close (Prc_Descriptor_new i0)) @
              snd (Prc_Descriptor_close (Prc_Descriptor_new o1))) \<and>
            r = (case os_fork of Inl e \<Rightarrow> Inl (CreationError (Inl e)) | Inr n \<Rightarrow> Inr [])"
          using assms(1,3) idle pipe2 pipe
          by (cases os_fork; cases p) (auto simp: Process_open_def Prc_set_fd Let_def)
        then show ?thesis
          using idle pipe2 pipe closed[of i0 o1] own
          by (simp add: ends_made_def pipe_ends_def Prc_Descriptor_new_def split: sum.split)
      qed
    qed
  qed
qed

theorem process_open_descriptors_witness:
  "process_owned (fst (Process_open (\<lambda>_. Inl (Errno 10)) (Inr (3, 4)) (Inr (5, 6)) (Inr 77)
     (Inr (), Inr (), Inr ()) Process_default ''/bin/cat'' [])) = {#3, 6#}"
  (is "process_owned (fst ?run) = _")
proof -
  obtain p' calls r where run: "?run = (p', calls, r)" by (metis prod_cases3)
  have idle: "\<not> Process_isRunning (\<lambda>_. Inl (Errno 10)) Process_default" by (simp add: Process_isRunning_def)
  have "write_to_child p' = \<lparr>p_id = 6\<rparr> \<and> read_from_child p' = \<lparr>p_id = 3\<rparr>"
    using process_open_descriptors[OF _ _ run] idle by fastforce
  then show ?thesis by (simp add: run process_owned_def owned_def)
qed

text \<open>
  C12: The program in the child sees exactly its two pipe ends. When the pipe descriptors are
  four different numbers above 1 and both \<^verbatim>\<open>dup2\<close> succeed, the child executes the given path
  with the path and the parameters as arguments, and at that moment its standard input is the
  read end of one pipe, its standard output the write end of the other, no pipe end is open
  under another number and every other descriptor is as before.
\<close>

theorem child_gets_pipes:
  assumes "Process_open os_waitpid (Inr (o0, o1)) (Inr (i0, i1)) (Inr 0) (Inr (), Inr (), Inr ()) p
      path params = (p', calls, Inr child)"
    and "distinct [o0, o1, i0, i1]" "\<forall>n\<in>{o0, o1, i0, i1}. 1 < n"
  shows "\<exists>prep. child = prep @ [Execv path (path # params)] \<and>
    table_after prep t = (\<lambda>n. if n = 0 then t i0 else if n = 1 then t o1
      else if n \<in> {o0, o1, i0, i1} then None else t n)"
proof -
  let ?prep = "[Dup2 i0 0, Close i0, Close i1, Dup2 o1 1, Close o1, Close o0]"
  have "child = ?prep @ [Execv path (path # params)]"
    using assms
    by (auto simp: Process_open_def Process_child_def Prc_Descriptor_defs argv_def Let_def
        split: if_splits)
  moreover have "table_after ?prep t n = (if n = 0 then t i0 else if n = 1 then t o1
      else if n \<in> {o0, o1, i0, i1} then None else t n)" for n
  proof -
    have "0 \<notin> {o0, o1, i0, i1}" "1 \<notin> {o0, o1, i0, i1}" "o1 \<noteq> i0" "o1 \<noteq> i1"
      using assms(2,3) by auto
    then show ?thesis by (simp add: table_after_def fun_upd_apply)
  qed
  ultimately show ?thesis by blast
qed

theorem child_gets_pipes_witness:
  "\<exists>child prep. Process_open (\<lambda>_. Inl (Errno 10)) (Inr (3, 4)) (Inr (5, 6)) (Inr 0)
      (Inr (), Inr (), Inr ()) Process_default ''/bin/cat'' [''-u''] =
      (\<lparr>cpid = 0, write_to_child = \<lparr>p_id = 6\<rparr>, read_from_child = \<lparr>p_id = 3\<rparr>\<rparr>, [], Inr child) \<and>
    child = prep @ [Execv ''/bin/cat'' [''/bin/cat'', ''-u'']]"
  (is "\<exists>child prep. ?run = (?p, [], Inr child) \<and> _ child prep")
proof -
  obtain child where run: "?run = (?p, [], Inr child)"
    by (simp add: Process_open_def Process_isRunning_def Process_default_def Prc_Descriptor_defs)
  show ?thesis
    using child_gets_pipes[OF run, of "\<lambda>n. Some n"] run by auto
qed

text \<open>
  An object whose \<^verbatim>\<open>fork\<close> failed signals every process. A failed \<^verbatim>\<open>fork\<close> leaves the child's
  number -1 in the object, and closing or destroying it then calls \<^verbatim>\<open>kill(-1, SIGINT)\<close>, which
  the system sends to every process the user may signal.
\<close>

lemma failed_fork_kill_target:
  assumes "Process_open os_waitpid os_pipe2 os_pipe (Inl e) child p path params = (p', calls, Inl err)"
    and "err = CreationError (Inl e)" "\<exists>ends. os_pipe2 = Inr ends" "\<exists>ends. os_pipe = Inr ends"
  shows "Kill (-1) \<in> set (fst (snd (Process_close os_kill os_wait p'))) \<and>
    Kill (-1) \<in> set (Process_destroy os_kill os_wait p')"
proof -
  have "cpid p' = -1"
    using assms by (auto simp: Process_open_def Let_def split: if_splits prod.splits)
  then show ?thesis
    by (auto simp: Process_destroy_def Process_close_def Let_def split: prod.splits sum.splits)
qed

end
