(* ===== verification/Float32.thy ===== *)
theory Float32
  imports Complex_Main Prelude
begin

text \<open>
  The part of IEEE single precision that \<^verbatim>\<open>4.shmem/include/shalloc.h\<close> uses: the value of a
  positive rational rounded to 24 significant bits, ties to even. The magnitudes there lie
  between \<^verbatim>\<open>2 ^ -64\<close> and \<^verbatim>\<open>2 ^ 64\<close>, far from overflow and from the subnormal numbers, so the
  exponent is not bounded here.
\<close>

fun log2 :: "nat \<Rightarrow> nat" where
  "log2 n = (if n < 2 then 0 else Suc (log2 (n div 2)))"

declare log2.simps [simp del]

text \<open>The exponent of a positive rational: the largest power of two not above it.\<close>

definition exponent :: "rat \<Rightarrow> int" where
  "exponent x =
     (if 1 \<le> x then int (log2 (nat \<lfloor>x\<rfloor>)) else - int (log2 (nat (\<lceil>1 / x\<rceil> - 1)) + 1))"

definition round_even :: "rat \<Rightarrow> int" where
  "round_even x =
     (let k = \<lfloor>x\<rfloor>; d = x - of_int k
      in if d < 1 / 2 then k else if 1 / 2 < d then k + 1 else if even k then k else k + 1)"

definition f32 :: "rat \<Rightarrow> rat" where
  "f32 x = (if x \<le> 0 then 0
            else let u = 2 powi (exponent x - 23) in of_int (round_even (x / u)) * u)"

section \<open>Rounding to an integer\<close>

lemma round_even_ge: "of_int k \<le> x \<Longrightarrow> k \<le> round_even x"
proof -
  assume "of_int k \<le> x"
  then have "k \<le> \<lfloor>x\<rfloor>" by (simp add: le_floor_iff)
  then show ?thesis by (simp add: round_even_def Let_def)
qed

lemma round_even_le: "x \<le> of_int k \<Longrightarrow> round_even x \<le> k"
proof -
  assume le: "x \<le> of_int k"
  then have "\<lfloor>x\<rfloor> \<le> k" by (meson floor_le_iff le_less_trans less_add_one of_int_less_iff floor_mono floor_of_int order_trans)
  moreover have "\<lfloor>x\<rfloor> < k" if "x \<noteq> of_int \<lfloor>x\<rfloor>"
    using le that by (metis floor_less_iff order_le_less floor_of_int)
  ultimately show ?thesis
    by (cases "x = of_int \<lfloor>x\<rfloor>") (auto simp: round_even_def Let_def)
qed

lemma round_even_half: "\<bar>of_int (round_even x) - x\<bar> \<le> 1 / 2"
proof -
  have "of_int \<lfloor>x\<rfloor> \<le> x" "x < of_int \<lfloor>x\<rfloor> + 1" by (rule of_int_floor_le) linarith
  then show ?thesis by (auto simp: round_even_def Let_def abs_le_iff)
qed

section \<open>The exponent\<close>

lemma log2_bounds: "0 < n \<Longrightarrow> 2 ^ log2 n \<le> n \<and> n < 2 ^ Suc (log2 n)"
proof (induction n rule: log2.induct)
  case (1 n)
  show ?case
  proof (cases "n < 2")
    case True
    with 1 show ?thesis by (simp add: log2.simps)
  next
    case False
    with 1 have "2 ^ log2 (n div 2) \<le> n div 2" "n div 2 < 2 ^ Suc (log2 (n div 2))" by auto
    then have "2 * 2 ^ log2 (n div 2) \<le> n" "n < 2 * 2 ^ Suc (log2 (n div 2))" by auto
    moreover have "log2 n = Suc (log2 (n div 2))" using False by (simp add: log2.simps[of n])
    ultimately show ?thesis by simp
  qed
qed

lemma exponent_bounds:
  assumes "0 < x"
  shows "2 powi (exponent x) \<le> x" "x < 2 powi (exponent x + 1)"
proof -
  have "2 powi (exponent x) \<le> x \<and> x < 2 powi (exponent x + 1)"
  proof (cases "1 \<le> x")
    case True
    define n where "n = nat \<lfloor>x\<rfloor>"
    have "1 \<le> \<lfloor>x\<rfloor>" using True by (simp add: le_floor_iff)
    then have n: "0 < n" "int n = \<lfloor>x\<rfloor>" by (auto simp: n_def)
    have x: "of_int (int n) \<le> x" "x < of_int (int n) + 1" unfolding n(2) by (rule of_int_floor_le) linarith
    from log2_bounds[OF n(1)] have "(2::rat) ^ log2 n \<le> of_nat n" "of_nat n + 1 \<le> (2::rat) ^ Suc (log2 n)"
      by (metis of_nat_le_iff of_nat_numeral of_nat_power)
        (metis (no_types, lifting) Suc_leI log2_bounds n(1) of_nat_1 of_nat_add of_nat_le_iff of_nat_numeral of_nat_power Suc_eq_plus1)
    then have "2 ^ log2 n \<le> x \<and> x < 2 ^ Suc (log2 n)" using x by linarith
    with True show ?thesis by (simp add: exponent_def n_def[symmetric] power_int_add)
  next
    case False
    define y where "y = \<lceil>1 / x\<rceil>"
    define k where "k = log2 (nat (y - 1))"
    have "1 < 1 / x" using assms False by simp
    then have y: "2 \<le> y" unfolding y_def by linarith
    have b: "of_int (y - 1) < 1 / x" "1 / x \<le> of_int y" unfolding y_def by linarith+
    from y have "2 ^ k \<le> nat (y - 1)" "nat (y - 1) < 2 ^ Suc k"
      using log2_bounds[of "nat (y - 1)"] by (simp_all add: k_def)
    then have "2 ^ k \<le> y - 1" "y \<le> 2 ^ Suc k" using y by (simp_all add: nat_less_iff nat_le_iff le_nat_iff)
    then have "(2::rat) ^ k \<le> of_int (y - 1)" "of_int y \<le> (2::rat) ^ Suc k"
      by (metis of_int_le_iff of_int_numeral of_int_power)+
    with b have "(2::rat) ^ k < 1 / x" "1 / x \<le> (2::rat) ^ Suc k" by linarith+
    then have "x < 1 / 2 ^ k" "1 / 2 ^ Suc k \<le> x" using assms by (simp_all add: field_simps)
    moreover have "exponent x = - int (Suc k)" using False by (simp add: exponent_def y_def k_def)
    moreover have "(2::rat) powi (- int (Suc k)) = 1 / 2 ^ Suc k"
      by (simp only: power_int_minus power_int_of_nat inverse_eq_divide)
    moreover have "(2::rat) powi (- int (Suc k) + 1) = 1 / 2 ^ k"
    proof -
      have "- int (Suc k) + 1 = - int k" by simp
      then show ?thesis by (simp only: power_int_minus power_int_of_nat inverse_eq_divide)
    qed
    ultimately show ?thesis by simp
  qed
  then show "2 powi (exponent x) \<le> x" "x < 2 powi (exponent x + 1)" by simp_all
qed

section \<open>Single precision\<close>

definition ulp :: "rat \<Rightarrow> rat" where
  "ulp x = 2 powi (exponent x - 23)"

lemma ulp_pos: "0 < ulp x"
  by (simp add: ulp_def)

lemma f32_ulp: "0 < x \<Longrightarrow> f32 x = of_int (round_even (x / ulp x)) * ulp x"
  by (simp add: f32_def ulp_def Let_def)

lemma power_exponent: "(2::rat) powi e = 2 ^ 23 * 2 powi (e - 23)"
  by (simp add: power_int_diff)

lemma ulp_scale: "2 ^ 23 * ulp x = 2 powi (exponent x)"
  unfolding ulp_def by (rule power_exponent[symmetric])

lemma mantissa_bound:
  assumes "0 < x"
  shows "of_int (2 ^ 23) \<le> x / ulp x"
  unfolding pos_le_divide_eq[OF ulp_pos] of_int_power of_int_numeral ulp_scale
  by (rule exponent_bounds(1)[OF assms])

lemma f32_half_ulp: "0 < x \<Longrightarrow> \<bar>f32 x - x\<bar> \<le> ulp x / 2"
proof -
  assume x: "0 < x"
  have "f32 x - x = (of_int (round_even (x / ulp x)) - x / ulp x) * ulp x"
    using ulp_pos[of x] x by (simp add: f32_ulp algebra_simps)
  then have "\<bar>f32 x - x\<bar> = \<bar>of_int (round_even (x / ulp x)) - x / ulp x\<bar> * ulp x"
    using ulp_pos[of x] by (simp add: abs_mult)
  also have "\<dots> \<le> 1 / 2 * ulp x"
    using ulp_pos[of x] round_even_half by (intro mult_right_mono) auto
  finally show ?thesis by simp
qed

lemma f32_pos: "0 < x \<Longrightarrow> 0 < f32 x"
proof -
  assume x: "0 < x"
  have "2 ^ 23 \<le> round_even (x / ulp x)" using mantissa_bound[OF x] by (rule round_even_ge)
  then have "0 < round_even (x / ulp x)" by simp
  then show ?thesis using ulp_pos[of x] x by (simp add: f32_ulp)
qed

text \<open>An integer with at most 24 bits is on the grid of every binade it lies in.\<close>

lemma grid_point:
  assumes "n \<le> 2 ^ 24" "0 < x" "exponent x \<le> 23"
  shows "\<exists>k. of_nat n = of_int k * ulp x"
proof -
  have "ulp x * 2 ^ nat (23 - exponent x) = 1"
    using assms(3) by (simp add: ulp_def power_int_def nat_diff_distrib' field_simps)
  then have "of_nat n = of_int (int n * 2 ^ nat (23 - exponent x)) * ulp x"
    by (simp add: mult.commute mult.left_commute)
  then show ?thesis by blast
qed

lemma small_exponent:
  assumes "n \<le> 2 ^ 24" "(2::rat) powi e < of_nat n"
  shows "e \<le> 23"
proof (rule ccontr)
  assume "\<not> e \<le> 23"
  then have "(2::rat) powi 24 \<le> 2 powi e" by (intro power_int_increasing) auto
  moreover have "(of_nat n :: rat) \<le> of_nat (2 ^ 24)" using assms(1) by (simp only: of_nat_le_iff)
  ultimately show False using assms(2) by simp
qed

lemma f32_ge_nat:
  assumes "n \<le> 2 ^ 24" "0 < x" "of_nat n \<le> x"
  shows "of_nat n \<le> f32 x"
proof (cases "of_nat n \<le> (2::rat) powi (exponent x)")
  case True
  have "2 ^ 23 \<le> round_even (x / ulp x)"
    using mantissa_bound[OF assms(2)] by (rule round_even_ge)
  then have "(2::rat) ^ 23 \<le> of_int (round_even (x / ulp x))"
    by (metis of_int_le_iff of_int_numeral of_int_power)
  then have "2 ^ 23 * ulp x \<le> f32 x"
    using ulp_pos[of x] assms(2) by (simp add: f32_ulp)
  with True show ?thesis unfolding ulp_scale by (rule order_trans)
next
  case False
  then obtain k where k: "of_nat n = of_int k * ulp x"
    using grid_point[OF assms(1,2)] small_exponent[OF assms(1), of "exponent x"] by auto
  with assms(3) ulp_pos[of x] have "of_int k \<le> x / ulp x" by (simp add: field_simps)
  then have "k \<le> round_even (x / ulp x)" by (rule round_even_ge)
  then show ?thesis using k ulp_pos[of x] assms(2) by (simp add: f32_ulp)
qed

lemma f32_le_nat:
  assumes "n \<le> 2 ^ 24" "0 < x" "x \<le> of_nat n"
  shows "f32 x \<le> of_nat n"
proof -
  have eb: "2 powi (exponent x) \<le> x" "x < 2 powi (exponent x + 1)"
    using exponent_bounds[OF assms(2)] .
  show ?thesis
  proof (cases "exponent x \<le> 23")
    case True
    then obtain k where k: "of_nat n = of_int k * ulp x"
      using grid_point[OF assms(1,2)] by blast
    with assms(3) ulp_pos[of x] have "x / ulp x \<le> of_int k" by (simp add: field_simps)
    then have "round_even (x / ulp x) \<le> k" by (rule round_even_le)
    then show ?thesis using k ulp_pos[of x] assms(2) by (simp add: f32_ulp)
  next
    case False
    have "\<not> (2::rat) powi (exponent x) < of_nat n" using small_exponent[OF assms(1)] False by blast
    then have x: "x = 2 powi (exponent x)" "x = of_nat n" using eb(1) assms(3) by auto
    then have "x / ulp x = of_int (2 ^ 23)"
      using ulp_pos[of x] ulp_scale[of x] by (simp add: divide_eq_eq)
    then have "round_even (x / ulp x) \<le> 2 ^ 23" by (intro round_even_le) simp
    then have "of_int (round_even (x / ulp x)) \<le> (2::rat) ^ 23"
      by (metis of_int_le_iff of_int_numeral of_int_power)
    then have "f32 x \<le> 2 ^ 23 * ulp x" using ulp_pos[of x] assms(2) by (simp add: f32_ulp)
    also have "\<dots> = x" using x(1) ulp_scale[of x] by simp
    finally show ?thesis using x(2) by simp
  qed
qed

lemma f32_nat: "n \<le> 2 ^ 24 \<Longrightarrow> f32 (of_nat n) = of_nat n"
proof (cases "n = 0")
  case False
  assume "n \<le> 2 ^ 24"
  with False show ?thesis by (intro antisym f32_le_nat f32_ge_nat) auto
qed (simp add: f32_def)

text \<open>A quotient just above an integer is not rounded down to it.\<close>

lemma f32_above:
  assumes "of_nat m < x" "of_nat m + 1 / of_nat b \<le> x" "0 < b" "m * b < 2 ^ 24" "x < of_nat m + 1"
  shows "of_nat m < f32 x"
proof (cases "m = 0")
  case True
  with assms(1) f32_pos[of x] show ?thesis by simp
next
  case False
  have x: "0 < x" using assms(1) by (meson of_nat_0_le_iff order_le_less_trans)
  have e: "2 powi (exponent x) \<le> (of_nat m :: rat)"
  proof (rule ccontr)
    assume "\<not> ?thesis"
    moreover have "1 \<le> m" using False by simp
    then have "(of_nat 1 :: rat) \<le> of_nat m" by (simp only: of_nat_le_iff)
    ultimately have lt: "(of_nat m :: rat) < 2 powi (exponent x)" "(1 :: rat) < 2 powi (exponent x)"
      by auto
    have "0 \<le> exponent x"
    proof (rule ccontr)
      assume "\<not> 0 \<le> exponent x"
      then have "(2 :: rat) powi (exponent x) \<le> 2 powi 0" by (intro power_int_increasing) auto
      with lt(2) show False by simp
    qed
    then have p: "(2 :: rat) powi (exponent x) = of_nat (2 ^ nat (exponent x))"
      by (simp add: power_int_def)
    with lt(1) have "m < 2 ^ nat (exponent x)" by (simp only: of_nat_less_iff)
    then have "m + 1 \<le> 2 ^ nat (exponent x)" by simp
    then have "(of_nat (m + 1) :: rat) \<le> 2 powi (exponent x)" unfolding p by (simp only: of_nat_le_iff)
    with exponent_bounds(1)[OF x] assms(5) show False by simp
  qed
  have "(of_nat (m * b) :: rat) < of_nat (2 ^ 24)" using assms(4) by (simp only: of_nat_less_iff)
  then have "of_nat m / 2 ^ 24 < 1 / (of_nat b :: rat)" using assms(3) by (simp add: field_simps)
  moreover have "ulp x / 2 \<le> of_nat m / 2 ^ 24"
    using e ulp_scale[of x] by (simp add: field_simps)
  ultimately have "ulp x / 2 < x - of_nat m" using assms(2) by linarith
  then show ?thesis using f32_half_ulp[OF x] by linarith
qed

end
