(* ===== verification/Block_Heap.thy ===== *)
theory Block_Heap
  imports Prelude
begin

text \<open>
  The interface between the shared-memory allocator and the containers that use it: requests
  are answered with an address or refused, every answer occupies a set of block numbers, and
  the occupied blocks are those of the requests not yet given back.
\<close>

section \<open>Families of disjoint sets\<close>

fun apart :: "'a set list \<Rightarrow> bool" where
  "apart [] = True"
| "apart (A # As) = (A \<inter> \<Union>(set As) = {} \<and> apart As)"

lemma apart_remove1:
  "apart As \<Longrightarrow> A \<in> set As \<Longrightarrow>
   apart (remove1 A As) \<and> \<Union>(set (remove1 A As)) = \<Union>(set As) - A"
proof (induction As)
  case (Cons B As)
  show ?case
  proof (cases "B = A")
    case True
    with Cons.prems show ?thesis by auto
  next
    case False
    then have "A \<in> set As" "apart As" using Cons.prems by auto
    with Cons.IH have "apart (remove1 A As)" "\<Union>(set (remove1 A As)) = \<Union>(set As) - A" by auto
    moreover have "B \<inter> A = {}" using Cons.prems False by auto
    ultimately show ?thesis using False Cons.prems(1) by auto
  qed
qed simp

lemma apart_distinct: "apart As \<Longrightarrow> {} \<notin> set As \<Longrightarrow> distinct As"
  by (induction As) auto

lemma apart_nth:
  "apart As \<Longrightarrow> i < length As \<Longrightarrow> j < length As \<Longrightarrow> i \<noteq> j \<Longrightarrow> As ! i \<inter> As ! j = {}"
proof (induction As arbitrary: i j)
  case (Cons A As)
  show ?case
  proof (cases i)
    case 0
    then obtain k where k: "j = Suc k" using Cons.prems by (cases j) auto
    then have "As ! k \<subseteq> \<Union>(set As)" using Cons.prems by (simp add: Union_upper)
    with 0 k Cons.prems(1) show ?thesis by auto
  next
    case (Suc k)
    show ?thesis
    proof (cases j)
      case 0
      have "As ! k \<subseteq> \<Union>(set As)" using Suc Cons.prems by (simp add: Union_upper)
      with 0 Suc Cons.prems(1) show ?thesis by auto
    next
      case (Suc l)
      with \<open>i = Suc k\<close> Cons.prems Cons.IH[of k l] show ?thesis by auto
    qed
  qed
qed simp

section \<open>The interface\<close>

locale block_heap =
  fixes used :: "'s \<Rightarrow> nat set"
    and extent :: "'s \<Rightarrow> 'a \<Rightarrow> 'r \<Rightarrow> nat set"
    and alloc :: "'r \<Rightarrow> 's \<Rightarrow> ('a \<times> 's) option"
    and dealloc :: "'a \<Rightarrow> 'r \<Rightarrow> 's \<Rightarrow> 's"
    and ok :: "'s \<Rightarrow> bool"
  assumes alloc_law: "ok s \<Longrightarrow> alloc r s = Some (a, s') \<Longrightarrow>
      ok s' \<and> extent s a r \<inter> used s = {} \<and> used s' = used s \<union> extent s a r \<and> extent s' = extent s"
    and dealloc_law: "ok s \<Longrightarrow> extent s a r \<subseteq> used s \<Longrightarrow>
      ok (dealloc a r s) \<and> used (dealloc a r s) = used s - extent s a r \<and>
      extent (dealloc a r s) = extent s"
begin

text \<open>The state accounts for the live requests: their extents are disjoint and all there is.\<close>

definition accounts :: "'s \<Rightarrow> ('a \<times> 'r) list \<Rightarrow> bool" where
  "accounts s live \<longleftrightarrow> ok s \<and> apart (map (\<lambda>(a, r). extent s a r) live) \<and>
     used s = (\<Union>(a, r)\<in>set live. extent s a r)"

lemma accounts_alloc:
  assumes "accounts s live" "alloc r s = Some (a, s')"
  shows "accounts s' ((a, r) # live)"
  using assms alloc_law[of s r a s'] by (auto simp: accounts_def)

lemma accounts_dealloc:
  assumes "accounts s live" "(a, r) \<in> set live"
  shows "accounts (dealloc a r s) (remove1 (a, r) live)"
proof -
  let ?E = "\<lambda>(a, r). extent s a r"
  have ok: "ok s" and ap: "apart (map ?E live)" and us: "used s = \<Union>(set (map ?E live))"
    using assms(1) by (auto simp: accounts_def)
  have mem: "extent s a r \<in> set (map ?E live)" using assms(2) by force
  have d: "ok (dealloc a r s) \<and> used (dealloc a r s) = used s - extent s a r \<and>
      extent (dealloc a r s) = extent s"
    using dealloc_law[OF ok, of a r] mem us by blast
  have rest: "apart (map ?E (remove1 x live)) \<and>
      \<Union>(set (map ?E (remove1 x live))) = \<Union>(set (map ?E live)) - ?E x"
    if "x \<in> set live" for x
    using ap that
  proof (induction live)
    case (Cons y ys)
    show ?case
    proof (cases "y = x")
      case True
      with Cons.prems show ?thesis by auto
    next
      case False
      then have "x \<in> set ys" "apart (map ?E ys)" using Cons.prems by auto
      with Cons.IH have ih: "apart (map ?E (remove1 x ys))"
          "\<Union>(set (map ?E (remove1 x ys))) = \<Union>(set (map ?E ys)) - ?E x"
        by auto
      have "?E y \<inter> \<Union>(set (map ?E ys)) = {}" using Cons.prems(1) by simp
      moreover have "?E x \<subseteq> \<Union>(set (map ?E ys))" using \<open>x \<in> set ys\<close> by auto
      ultimately show ?thesis using False ih by auto
    qed
  qed simp
  show ?thesis using d rest[OF assms(2)] us by (auto simp: accounts_def)
qed

lemma accounts_apart:
  assumes "accounts s live" "i < length live" "j < length live" "i \<noteq> j"
  shows "extent s (fst (live ! i)) (snd (live ! i)) \<inter> extent s (fst (live ! j)) (snd (live ! j)) = {}"
  using apart_nth[of "map (\<lambda>(a, r). extent s a r) live" i j] assms
  by (auto simp: accounts_def case_prod_beta)

lemma accounts_used: "accounts s live \<Longrightarrow> x \<in> set live \<Longrightarrow> extent s (fst x) (snd x) \<subseteq> used s"
  by (auto simp: accounts_def)

end

end
