(* ===== verification/Sh_Alloc.thy ===== *)
theory Sh_Alloc
  imports Float32 Block_Heap
begin

text \<open>
  \<^verbatim>\<open>4.shmem/include/shalloc.h\<close>: the block allocator over a shared mapping. A table of one
  character per block says which blocks are taken; a request is rounded up to blocks in single
  precision, and the first run of free blocks long enough is found by a text search.

  \<^verbatim>\<open>None\<close> is \<^verbatim>\<open>std::bad_alloc\<close>. Sizes are natural numbers: the products of the code stay
  below \<^verbatim>\<open>2 ^ 64\<close> in any request that a mapping can hold.
\<close>

section \<open>The allocator\<close>

definition USED_BLOCK :: char where
  "USED_BLOCK = CHR ''1''"

definition FREE_BLOCK :: char where
  "FREE_BLOCK = CHR ''0''"

record ShMemState =
  blocks_count :: nat
  block_size :: nat
  used_blocks_table :: string
  first_block :: nat

definition memset :: "string \<Rightarrow> nat \<Rightarrow> char \<Rightarrow> nat \<Rightarrow> string" where
  "memset table pos c n = take pos table @ replicate n c @ drop (pos + n) table"

definition get_size_in_blocks :: "nat \<Rightarrow> nat \<Rightarrow> nat" where
  "get_size_in_blocks bytes bsize =
     nat \<lceil>f32 (f32 (of_nat bytes) / f32 (of_nat bsize))\<rceil>"

definition find_free_blocks :: "nat \<Rightarrow> string \<Rightarrow> nat option" where
  "find_free_blocks count table = find_str (replicate count FREE_BLOCK) table"

text \<open>The request: the size of the element type and the number of elements.\<close>

definition ShAlloc_allocate :: "nat \<times> nat \<Rightarrow> ShMemState \<Rightarrow> (nat \<times> ShMemState) option" where
  "ShAlloc_allocate request st =
     (if block_size st = 0 then None
      else let needed = get_size_in_blocks (fst request * snd request) (block_size st)
        in case find_free_blocks needed (used_blocks_table st) of
             None \<Rightarrow> None
           | Some pos \<Rightarrow>
               Some (first_block st + pos * block_size st,
                 st\<lparr>used_blocks_table := memset (used_blocks_table st) pos USED_BLOCK needed\<rparr>))"

definition ShAlloc_deallocate :: "nat \<Rightarrow> nat \<times> nat \<Rightarrow> ShMemState \<Rightarrow> ShMemState" where
  "ShAlloc_deallocate p request st =
     (let offset = (p - first_block st) div block_size st;
          count = get_size_in_blocks (fst request * snd request) (block_size st)
      in st\<lparr>used_blocks_table := memset (used_blocks_table st) offset FREE_BLOCK count\<rparr>)"

section \<open>Rounding up\<close>

lemma ceil_unique: "of_nat n < (x::rat) \<Longrightarrow> x \<le> of_nat n + 1 \<Longrightarrow> nat \<lceil>x\<rceil> = Suc n"
  by (metis ceiling_unique add_diff_cancel_right' nat_int of_int_of_nat_eq of_nat_Suc add.commute)

lemma f32_block_size:
  assumes "0 < bytes" "bytes \<le> 2 ^ 24" "0 < b"
  shows "\<exists>b'. f32 (of_nat b) = b' \<and> (b \<le> 2 ^ 24 \<and> b' = of_nat b \<or> of_nat bytes \<le> b' \<and> bytes \<le> b)"
proof (cases "b \<le> 2 ^ 24")
  case True
  then show ?thesis using f32_nat by blast
next
  case False
  have "(of_nat (2 ^ 24) :: rat) \<le> of_nat b" using False by (simp only: of_nat_le_iff)
  then have "(of_nat (2 ^ 24) :: rat) \<le> f32 (of_nat b)"
    using assms(3) by (intro f32_ge_nat) auto
  moreover have "(of_nat bytes :: rat) \<le> of_nat (2 ^ 24)" using assms(2) by (simp only: of_nat_le_iff)
  ultimately show ?thesis using False assms(2) by force
qed

lemma get_size_in_blocks_exact:
  assumes "bytes \<le> 2 ^ 24" "0 < b"
  shows "get_size_in_blocks bytes b = (bytes + b - 1) div b"
proof (cases "bytes = 0")
  case True
  then show ?thesis using assms(2) by (simp add: get_size_in_blocks_def f32_def)
next
  case False
  define n where "n = (bytes - 1) div b"
  have b0: "(0 :: rat) < of_nat b" and y0: "(0 :: rat) < of_nat bytes" using assms(2) False by auto
  have "n * b \<le> bytes - 1" "bytes - 1 < n * b + b"
    using dividend_less_div_times[OF assms(2), of "bytes - 1"] by (simp_all add: n_def add.commute)
  then have nb: "n * b + 1 \<le> bytes" "bytes \<le> n * b + b" using False by auto
  have goal: "(bytes + b - 1) div b = Suc n"
    using False assms(2) div_add_self2[of b "bytes - 1"] by (simp add: n_def)
  have ba: "f32 (of_nat bytes) = of_nat bytes" using f32_nat[OF assms(1)] .
  consider "b \<le> 2 ^ 24" "f32 (of_nat b) = of_nat b" | "bytes \<le> b" "of_nat bytes \<le> f32 (of_nat b)"
    using f32_block_size[of bytes b] False assms by auto
  then show ?thesis
  proof cases
    case 1
    let ?x = "of_nat bytes / of_nat b :: rat"
    have "(of_nat (n * b + 1) :: rat) \<le> of_nat bytes" "(of_nat bytes :: rat) \<le> of_nat (n * b + b)"
      using nb by (simp_all only: of_nat_le_iff)
    then have "(of_nat n * of_nat b + 1) / of_nat b \<le> ?x" "?x \<le> of_nat (Suc n)"
      using b0 by (simp_all add: divide_right_mono divide_le_eq algebra_simps)
    then have x: "of_nat n + 1 / of_nat b \<le> ?x" "?x \<le> of_nat (Suc n)"
      using b0 by (simp_all add: add_divide_distrib)
    have "(0 :: rat) < 1 / of_nat b" using b0 by simp
    with x(1) have lt: "of_nat n < ?x" by linarith
    have "n \<le> n * b" using assms(2) by simp
    then have n: "Suc n \<le> 2 ^ 24" "n * b < 2 ^ 24" using nb(1) assms(1) by linarith+
    have up: "f32 ?x \<le> of_nat (Suc n)" using n(1) x(2) b0 y0 by (intro f32_le_nat) auto
    have "of_nat n < f32 ?x"
    proof (cases "?x = of_nat (Suc n)")
      case True
      then show ?thesis using f32_nat[OF n(1)] by simp
    next
      case False
      then have "?x < of_nat n + 1" using x(2) by simp
      with lt x(1) assms(2) n(2) show ?thesis by (intro f32_above[of n ?x b]) simp_all
    qed
    with up show ?thesis
      using ceil_unique[of n "f32 ?x"] 1 ba goal by (simp add: get_size_in_blocks_def add.commute)
  next
    case 2
    let ?x = "of_nat bytes / f32 (of_nat b) :: rat"
    have pos: "0 < f32 (of_nat b)" using f32_pos b0 by blast
    then have "0 < ?x" "?x \<le> of_nat 1" using 2(2) y0 by (simp_all add: field_simps)
    moreover from this have "f32 ?x \<le> of_nat 1" by (intro f32_le_nat) simp_all
    ultimately have "f32 ?x \<le> of_nat 1" "0 < f32 ?x" by (simp_all add: f32_pos)
    moreover have "n = 0" using 2(1) False by (simp add: n_def)
    ultimately show ?thesis using ceil_unique[of 0 "f32 ?x"] ba goal by (simp add: get_size_in_blocks_def)
  qed
qed

section \<open>The table as a set of blocks\<close>

definition used_set :: "ShMemState \<Rightarrow> nat set" where
  "used_set st = {i. i < blocks_count st \<and> used_blocks_table st ! i \<noteq> FREE_BLOCK}"

definition extent :: "ShMemState \<Rightarrow> nat \<Rightarrow> nat \<times> nat \<Rightarrow> nat set" where
  "extent st a request =
     (let offset = (a - first_block st) div block_size st
      in {offset ..< offset + get_size_in_blocks (fst request * snd request) (block_size st)})"

definition table_sized :: "ShMemState \<Rightarrow> bool" where
  "table_sized st \<longleftrightarrow> length (used_blocks_table st) = blocks_count st"

lemma memset_length: "pos + n \<le> length t \<Longrightarrow> length (memset t pos c n) = length t"
  by (simp add: memset_def)

lemma memset_nth:
  assumes "pos + n \<le> length t" "i < length t"
  shows "memset t pos c n ! i = (if pos \<le> i \<and> i < pos + n then c else t ! i)"
  using assms by (auto simp: memset_def nth_append)

lemma find_free_blocks_Some:
  assumes "find_free_blocks n t = Some pos"
  shows "pos + n \<le> length t" "\<And>i. pos \<le> i \<Longrightarrow> i < pos + n \<Longrightarrow> t ! i = FREE_BLOCK"
proof -
  show le: "pos + n \<le> length t"
    using find_str_bound[of "replicate n FREE_BLOCK" t pos] assms by (simp add: find_free_blocks_def)
  fix i
  assume i: "pos \<le> i" "i < pos + n"
  have "prefix (replicate n FREE_BLOCK) (drop pos t)"
    using assms by (auto simp: find_free_blocks_def find_str_Some_iff)
  then obtain r where "drop pos t = replicate n FREE_BLOCK @ r" by (auto elim: prefixE)
  moreover have "i - pos < n" using i by linarith
  ultimately have "drop pos t ! (i - pos) = FREE_BLOCK" by (simp add: nth_append)
  then show "t ! i = FREE_BLOCK" using i le by simp
qed

lemma find_free_blocks_None:
  assumes "find_free_blocks n t = None" "pos + n \<le> length t"
  shows "\<exists>i. pos \<le> i \<and> i < pos + n \<and> t ! i \<noteq> FREE_BLOCK"
proof (rule ccontr)
  assume "\<not> ?thesis"
  then have "take n (drop pos t) = replicate n FREE_BLOCK"
    using assms(2) by (intro nth_equalityI) auto
  then have "prefix (replicate n FREE_BLOCK) (drop pos t)" by (metis take_is_prefix)
  with assms show False by (auto simp: find_free_blocks_def find_str_None_iff)
qed

lemma allocate_law:
  assumes "table_sized st" "ShAlloc_allocate request st = Some (a, st')"
  shows "table_sized st' \<and> extent st a request \<inter> used_set st = {} \<and>
    used_set st' = used_set st \<union> extent st a request \<and> extent st' = extent st"
proof -
  define n where "n = get_size_in_blocks (fst request * snd request) (block_size st)"
  from assms(2) obtain pos where b: "0 < block_size st"
    and f: "find_free_blocks n (used_blocks_table st) = Some pos"
    and a: "a = first_block st + pos * block_size st"
    and st': "st' = st\<lparr>used_blocks_table := memset (used_blocks_table st) pos USED_BLOCK n\<rparr>"
    by (auto simp: ShAlloc_allocate_def n_def Let_def split: if_splits option.splits)
  note free = find_free_blocks_Some[OF f]
  have off: "(a - first_block st) div block_size st = pos" using a b by simp
  have blocks: "extent st a request = {pos ..< pos + n}" by (simp add: extent_def off n_def[symmetric])
  have len: "length (used_blocks_table st) = blocks_count st" using assms(1) by (simp add: table_sized_def)
  have "used_set st' = used_set st \<union> {pos ..< pos + n}"
    using free(1) by (auto simp: used_set_def st' memset_nth len USED_BLOCK_def FREE_BLOCK_def
        split: if_splits)
  moreover have "extent st' = extent st" by (intro ext) (simp add: extent_def st')
  moreover have "table_sized st'" using free(1) by (simp add: table_sized_def st' memset_length len)
  moreover have "{pos ..< pos + n} \<inter> used_set st = {}" using free(2) by (auto simp: used_set_def)
  ultimately show ?thesis by (simp add: blocks)
qed

lemma deallocate_law:
  assumes "table_sized st" "extent st a request \<subseteq> used_set st"
  shows "table_sized (ShAlloc_deallocate a request st) \<and>
    used_set (ShAlloc_deallocate a request st) = used_set st - extent st a request \<and>
    extent (ShAlloc_deallocate a request st) = extent st"
proof -
  define n where "n = get_size_in_blocks (fst request * snd request) (block_size st)"
  define pos where "pos = (a - first_block st) div block_size st"
  let ?t = "used_blocks_table st"
  have st': "ShAlloc_deallocate a request st = st\<lparr>used_blocks_table := memset ?t pos FREE_BLOCK n\<rparr>"
    by (simp add: ShAlloc_deallocate_def n_def pos_def Let_def)
  have blocks: "extent st a request = {pos ..< pos + n}" by (simp add: extent_def n_def pos_def Let_def)
  have len: "length ?t = blocks_count st" using assms(1) by (simp add: table_sized_def)
  show ?thesis
  proof (cases "n = 0")
    case True
    then have "memset ?t pos FREE_BLOCK n = ?t" by (simp add: memset_def)
    then have "ShAlloc_deallocate a request st = st" by (simp add: st')
    then show ?thesis using assms(1) blocks True by simp
  next
    case False
    then have "pos + n - 1 \<in> used_set st" using assms(2) blocks by auto
    then have le: "pos + n \<le> length ?t" using len False by (auto simp: used_set_def)
    have "used_set (ShAlloc_deallocate a request st) = used_set st - {pos ..< pos + n}"
      using le by (auto simp: used_set_def st' memset_nth len split: if_splits)
    moreover have "extent (ShAlloc_deallocate a request st) = extent st"
      by (intro ext) (simp add: extent_def st')
    ultimately show ?thesis using le by (simp add: blocks table_sized_def st' memset_length len)
  qed
qed

interpretation sh_heap: block_heap used_set extent ShAlloc_allocate ShAlloc_deallocate table_sized
  by unfold_locales (simp_all only: allocate_law deallocate_law)

section \<open>Runs\<close>

text \<open>
  The state right after the mapping is set up, and what any sequence of requests, of requests
  refused, and of requests given back makes of it, with the requests not yet given back.
\<close>

definition ShMemState_new :: "nat \<Rightarrow> nat \<Rightarrow> nat \<Rightarrow> ShMemState" where
  "ShMemState_new bsize bcount first =
     \<lparr>blocks_count = bcount, block_size = bsize,
      used_blocks_table = replicate bcount FREE_BLOCK, first_block = first\<rparr>"

inductive heap_run :: "ShMemState \<Rightarrow> (nat \<times> nat \<times> nat) list \<Rightarrow> bool" where
  run_start: "heap_run (ShMemState_new bsize bcount first) []"
| run_allocate: "heap_run st live \<Longrightarrow> ShAlloc_allocate r st = Some (a, st') \<Longrightarrow>
    heap_run st' ((a, r) # live)"
| run_deallocate: "heap_run st live \<Longrightarrow> (a, r) \<in> set live \<Longrightarrow>
    heap_run (ShAlloc_deallocate a r st) (remove1 (a, r) live)"

text \<open>Addresses are block boundaries, and the geometry does not change.\<close>

definition aligned :: "ShMemState \<Rightarrow> nat \<times> nat \<times> nat \<Rightarrow> bool" where
  "aligned st x \<longleftrightarrow>
     0 < block_size st \<and> (\<exists>pos. fst x = first_block st + pos * block_size st)"

lemma accounts_start: "sh_heap.accounts (ShMemState_new bsize bcount first) []"
  by (auto simp: sh_heap.accounts_def ShMemState_new_def table_sized_def used_set_def)

lemma heap_run_inv: "heap_run st live \<Longrightarrow> sh_heap.accounts st live \<and> (\<forall>x\<in>set live. aligned st x)"
proof (induction rule: heap_run.induct)
  case (run_start bsize bcount first)
  then show ?case by (simp add: accounts_start)
next
  case (run_allocate st live r a st')
  then have "block_size st' = block_size st" "first_block st' = first_block st"
      "aligned st (a, r)"
    by (auto simp: ShAlloc_allocate_def aligned_def Let_def split: if_splits option.splits)
  then show ?case
    using run_allocate sh_heap.accounts_alloc[of st live r a st'] by (auto simp: aligned_def)
next
  case (run_deallocate st live a r)
  have "set (remove1 (a, r) live) \<subseteq> set live" by (rule set_remove1_subset)
  moreover have "aligned (ShAlloc_deallocate a r st) x = aligned st x" for x
    by (simp add: aligned_def ShAlloc_deallocate_def Let_def)
  ultimately show ?case
    using run_deallocate sh_heap.accounts_dealloc[of st live a r] by auto
qed

definition bytes_of :: "nat \<times> nat \<times> nat \<Rightarrow> nat set" where
  "bytes_of x = {fst x ..< fst x + fst (snd x) * snd (snd x)}"

text \<open>Every byte of a request of at most \<^verbatim>\<open>2 ^ 24\<close> bytes lies in a block of its extent.\<close>

lemma bytes_in_extent:
  assumes "aligned st x" "fst (snd x) * snd (snd x) \<le> 2 ^ 24" "b \<in> bytes_of x"
  shows "first_block st \<le> b \<and> (b - first_block st) div block_size st \<in> extent st (fst x) (snd x)"
proof -
  obtain a sz n where x: "x = (a, sz, n)" by (cases x)
  let ?B = "block_size st" and ?F = "first_block st" and ?m = "sz * n"
  obtain pos where B: "0 < ?B" and a: "a = ?F + pos * ?B" using assms(1) by (auto simp: aligned_def x)
  have b: "a \<le> b" "b < a + ?m" using assms(3) by (auto simp: bytes_of_def x)
  have need: "get_size_in_blocks ?m ?B = (?m + ?B - 1) div ?B"
    using get_size_in_blocks_exact[of ?m ?B] assms(2) B by (simp add: x)
  have "b - ?F = (b - a) + pos * ?B" using a b by simp
  then have "(b - ?F) div ?B = pos + (b - a) div ?B" using B by simp
  moreover have "(b - a) div ?B < (?m + ?B - 1) div ?B"
  proof -
    have "b - a + ?B \<le> ?m + ?B - 1" using b B by simp
    then have "(b - a + ?B) div ?B \<le> (?m + ?B - 1) div ?B" by (rule div_le_mono)
    then show ?thesis using B by simp
  qed
  ultimately show ?thesis using a b B need by (simp add: extent_def x)
qed

section \<open>Properties\<close>

text \<open>
  One byte more and it is too small. For blocks of one byte a request of \<^verbatim>\<open>2 ^ 24 + 1\<close> bytes
  is given \<^verbatim>\<open>2 ^ 24\<close> blocks: the size is rounded to single precision before the division.
\<close>

lemma size_in_blocks_short: "get_size_in_blocks (2 ^ 24 + 1) 1 = 2 ^ 24"
proof -
  let ?x = "of_nat (2 ^ 24 + 1) :: rat"
  have e: "exponent ?x = 24" by (simp add: exponent_def log2.simps)
  have "?x / 2 = 8388608 + 1 / 2" by simp
  moreover have "\<lfloor>8388608 + 1 / 2 :: rat\<rfloor> = 8388608" by (simp add: floor_eq_iff)
  ultimately have "round_even (?x / 2) = 8388608" by (simp only: round_even_def Let_def) simp
  then have "f32 ?x = of_nat (2 ^ 24)" unfolding f32_def e by (simp add: Let_def)
  moreover have "f32 (of_nat (2 ^ 24)) = of_nat (2 ^ 24)" "f32 (of_nat 1) = of_nat 1"
    by (rule f32_nat, simp)+
  ultimately show ?thesis by (simp add: get_size_in_blocks_def)
qed

text \<open>
  C13: Live allocations never overlap. However requests are made, refused and given back,
  starting from a fresh table, any two live requests of at most 16 MiB occupy disjoint bytes,
  and every byte of a live request lies in a block of the heap that the table marks as used.
\<close>

theorem live_requests_apart:
  assumes "heap_run st live" "i < length live" "j < length live" "i \<noteq> j"
    and "fst (snd (live ! i)) * snd (snd (live ! i)) \<le> 2 ^ 24"
    and "fst (snd (live ! j)) * snd (snd (live ! j)) \<le> 2 ^ 24"
  shows "bytes_of (live ! i) \<inter> bytes_of (live ! j) = {} \<and>
    (\<forall>b\<in>bytes_of (live ! i). first_block st \<le> b \<and>
       b < first_block st + blocks_count st * block_size st \<and>
       used_blocks_table st ! ((b - first_block st) div block_size st) \<noteq> FREE_BLOCK)"
proof
  have acc: "sh_heap.accounts st live" and al: "aligned st (live ! i)" "aligned st (live ! j)"
    using heap_run_inv[OF assms(1)] assms(2,3) by auto
  have "extent st (fst (live ! i)) (snd (live ! i)) \<inter> extent st (fst (live ! j)) (snd (live ! j)) = {}"
    using acc assms(2-4) by (rule sh_heap.accounts_apart)
  then show "bytes_of (live ! i) \<inter> bytes_of (live ! j) = {}"
    using bytes_in_extent[OF al(1) assms(5)] bytes_in_extent[OF al(2) assms(6)] by blast
  show "\<forall>b\<in>bytes_of (live ! i). first_block st \<le> b \<and>
      b < first_block st + blocks_count st * block_size st \<and>
      used_blocks_table st ! ((b - first_block st) div block_size st) \<noteq> FREE_BLOCK"
  proof
    fix b
    assume "b \<in> bytes_of (live ! i)"
    from bytes_in_extent[OF al(1) assms(5) this]
    have le: "first_block st \<le> b" and u: "(b - first_block st) div block_size st \<in> used_set st"
      using sh_heap.accounts_used[OF acc, of "live ! i"] assms(2) by auto
    have "b - first_block st < blocks_count st * block_size st"
      using u al(1) by (simp add: used_set_def aligned_def div_less_iff_less_mult)
    with le u show "first_block st \<le> b \<and> b < first_block st + blocks_count st * block_size st \<and>
        used_blocks_table st ! ((b - first_block st) div block_size st) \<noteq> FREE_BLOCK"
      by (auto simp: used_set_def)
  qed
qed

definition sample_heap :: ShMemState where
  "sample_heap = ShMemState_new 48 4 1000\<lparr>used_blocks_table := ''1111''\<rparr>"

lemma sample_run: "heap_run sample_heap [(1048, 100, 1), (1000, 48, 1)]"
proof -
  let ?s0 = "ShMemState_new 48 4 1000"
  let ?s1 = "?s0\<lparr>used_blocks_table := ''1000''\<rparr>"
  have n: "get_size_in_blocks 48 48 = 1" "get_size_in_blocks 100 48 = 3"
    by (simp_all add: get_size_in_blocks_exact)
  have r4: "replicate 4 FREE_BLOCK = ''0000''" "replicate 3 c = [c, c, c]" for c :: char
    by (simp_all add: FREE_BLOCK_def numeral_eq_Suc)
  have "ShAlloc_allocate (48, 1) ?s0 = Some (1000, ?s1)"
    by (simp add: ShAlloc_allocate_def ShMemState_new_def find_free_blocks_def memset_def
        FREE_BLOCK_def USED_BLOCK_def n r4[unfolded FREE_BLOCK_def] Let_def)
  then have run1: "heap_run ?s1 [(1000, 48, 1)]" using run_allocate[OF run_start] by blast
  have "ShAlloc_allocate (100, 1) ?s1 = Some (1048, sample_heap)"
    by (simp add: ShAlloc_allocate_def ShMemState_new_def find_free_blocks_def memset_def n
        sample_heap_def FREE_BLOCK_def USED_BLOCK_def r4 Let_def)
  with run1 show ?thesis using run_allocate by blast
qed

theorem live_requests_apart_witness: "bytes_of (1048, 100, 1) \<inter> bytes_of (1000, 48, 1) = {}"
  using live_requests_apart[OF sample_run, of 0 1] by simp

end
