(* ===== verification/Shared_Map.thy ===== *)
theory Shared_Map
  imports Sh_Alloc Posix
begin

text \<open>
  \<^verbatim>\<open>4.shmem/include/shmap.h\<close>, \<^verbatim>\<open>lib/sem.cpp\<close>, \<^verbatim>\<open>lib/semlock.cpp\<close>: a map between processes, in a
  shared mapping that holds a semaphore, the allocator's state, its table, the map object and
  the blocks, in this order; \<^verbatim>\<open>lib/shmmap.cpp\<close>.

  The model is for keys and values that are not strings; \<^verbatim>\<open>Shared_Strings\<close> has those that
  are. The \<^verbatim>\<open>std::map\<close> is the list of its nodes: key, value and the address of the node, whose
  size is a parameter. \<^verbatim>\<open>None\<close> is a call that blocks in \<^verbatim>\<open>sem_wait\<close>.
\<close>

section \<open>The lock\<close>

datatype shmem_error = SemaphoreError errno | MMapError errno | BadAlloc | OutOfRange

text \<open>
  \<^verbatim>\<open>sem.cpp\<close>: a semaphore is its value. Whether a call of the system fails is a parameter;
  \<^verbatim>\<open>None\<close> of \<^verbatim>\<open>wait\<close> is a call that blocks.
\<close>

definition sem_handle_error :: "errno option \<Rightarrow> shmem_error + unit" where
  "sem_handle_error fault =
     (case fault of Some errno \<Rightarrow> Inl (SemaphoreError errno) | None \<Rightarrow> Inr ())"

definition Semaphore_new :: "errno option \<Rightarrow> shmem_error + nat" where
  "Semaphore_new fault = (case sem_handle_error fault of Inl e \<Rightarrow> Inl e | Inr _ \<Rightarrow> Inr 1)"

definition Semaphore_post :: "errno option \<Rightarrow> nat \<Rightarrow> nat \<times> (shmem_error + unit)" where
  "Semaphore_post fault s = ((if fault = None then s + 1 else s), sem_handle_error fault)"

definition Semaphore_wait :: "errno option \<Rightarrow> nat \<Rightarrow> (nat \<times> (shmem_error + unit)) option" where
  "Semaphore_wait fault s =
     (if fault = None
      then if s = 0 then None else Some (s - 1, Inr ())
      else Some (s, sem_handle_error fault))"

definition Semaphore_destroy :: "errno option \<Rightarrow> shmem_error + unit" where
  "Semaphore_destroy fault = sem_handle_error fault"

text \<open>The destructor swallows the exception: whether the system's semaphore is destroyed.\<close>

definition Semaphore_delete :: "errno option \<Rightarrow> bool" where
  "Semaphore_delete fault = (case Semaphore_destroy fault of Inl _ \<Rightarrow> False | Inr _ \<Rightarrow> True)"

text \<open>The destructor of \<^verbatim>\<open>SemLock\<close> posts and catches everything.\<close>

definition SemLock_delete :: "errno option \<Rightarrow> nat \<Rightarrow> nat" where
  "SemLock_delete fault s = fst (Semaphore_post fault s)"

record ('k, 'v) SharedMap =
  semaphore :: nat
  heap :: ShMemState
  nodes :: "('k \<times> 'v \<times> nat) list"

text \<open>
  \<^verbatim>\<open>SemLock\<close> around a body: the constructor waits (and throws when \<^verbatim>\<open>sem_wait\<close> fails, before
  anything is locked), the destructor posts whether the body returns or throws.
\<close>

definition sem_lock ::
  "errno option \<Rightarrow> (('k, 'v) SharedMap \<Rightarrow> ('k, 'v) SharedMap \<times> (shmem_error + 'a)) \<Rightarrow>
   ('k, 'v) SharedMap \<Rightarrow> (('k, 'v) SharedMap \<times> (shmem_error + 'a)) option" where
  "sem_lock fault body m =
     (case Semaphore_wait fault (semaphore m) of
        None \<Rightarrow> None
      | Some (s, Inl e) \<Rightarrow> Some (m\<lparr>semaphore := s\<rparr>, Inl e)
      | Some (s, Inr _) \<Rightarrow>
          let (m, r) = body (m\<lparr>semaphore := s\<rparr>)
          in Some (m\<lparr>semaphore := SemLock_delete None (semaphore m)\<rparr>, r))"

lemmas Semaphore_defs = Semaphore_wait_def Semaphore_post_def sem_handle_error_def SemLock_delete_def

section \<open>The map\<close>

text \<open>
  The constructor: sizes of the semaphore, of the allocator's state and of the map object, the
  base of the mapping.
\<close>

definition mmap_length :: "nat \<Rightarrow> nat \<Rightarrow> nat \<Rightarrow> nat \<Rightarrow> nat \<Rightarrow> nat" where
  "mmap_length sem_size state_size map_size bsize bcount =
     sem_size + state_size + bcount + map_size + bsize * bcount"

definition map_address :: "nat \<Rightarrow> nat \<Rightarrow> nat \<Rightarrow> nat \<Rightarrow> nat" where
  "map_address base sem_size state_size bcount = base + sem_size + state_size + bcount"

definition SharedMap_new ::
  "nat \<Rightarrow> nat \<Rightarrow> nat \<Rightarrow> nat \<Rightarrow> nat \<Rightarrow> nat \<Rightarrow> ('k, 'v) SharedMap" where
  "SharedMap_new base sem_size state_size map_size bsize bcount =
     (let table = base + sem_size + state_size
      in \<lparr>semaphore = 1, heap = ShMemState_new bsize bcount (table + bcount + map_size),
          nodes = []\<rparr>)"

text \<open>
  \<^verbatim>\<open>ShMMap\<close>, for the result of \<^verbatim>\<open>mmap\<close>; its destructor unmaps. The initialisers of the map: a
  semaphore that cannot be initialised throws when the mapping exists, which is unmapped then.
  The list holds the mappings that are undone.
\<close>

record ShMMap =
  sh_addr :: nat
  sh_length :: nat

definition ShMMap_new :: "errno + nat \<Rightarrow> nat \<Rightarrow> shmem_error + ShMMap" where
  "ShMMap_new os_mmap len =
     (case os_mmap of
        Inl errno \<Rightarrow> Inl (MMapError errno)
      | Inr addr \<Rightarrow> Inr \<lparr>sh_addr = addr, sh_length = len\<rparr>)"

definition ShMMap_delete :: "ShMMap \<Rightarrow> (nat \<times> nat) list" where
  "ShMMap_delete mm = [(sh_addr mm, sh_length mm)]"

definition SharedMap_construct ::
  "(nat \<Rightarrow> errno + nat) \<Rightarrow> errno option \<Rightarrow> nat \<Rightarrow> nat \<Rightarrow> nat \<Rightarrow> nat \<Rightarrow> nat \<Rightarrow>
   (nat \<times> nat) list \<times> (shmem_error + ShMMap \<times> ('k, 'v) SharedMap)" where
  "SharedMap_construct os_mmap sem_init sem_size state_size map_size bsize bcount =
     (let len = mmap_length sem_size state_size map_size bsize bcount
      in case ShMMap_new (os_mmap len) len of
           Inl e \<Rightarrow> ([], Inl e)
         | Inr mm \<Rightarrow>
             (case Semaphore_new sem_init of
                Inl e \<Rightarrow> (ShMMap_delete mm, Inl e)
              | Inr s \<Rightarrow>
                  ([], Inr (mm, (SharedMap_new (sh_addr mm) sem_size state_size map_size bsize bcount)
                    \<lparr>semaphore := s\<rparr>))))"

definition find_node :: "'k \<Rightarrow> ('k \<times> 'v \<times> nat) list \<Rightarrow> ('v \<times> nat) option" where
  "find_node k ns = map_of ns k"

definition SharedMap_count ::
  "errno option \<Rightarrow> 'k \<Rightarrow> ('k, 'v) SharedMap \<Rightarrow> (('k, 'v) SharedMap \<times> (shmem_error + nat)) option"
where
  "SharedMap_count fault k =
     sem_lock fault (\<lambda>m. (m, Inr (case find_node k (nodes m) of None \<Rightarrow> 0 | Some _ \<Rightarrow> 1)))"

definition set_value :: "'k \<Rightarrow> 'v \<Rightarrow> ('k \<times> 'v \<times> nat) list \<Rightarrow> ('k \<times> 'v \<times> nat) list" where
  "set_value key val ns = map (\<lambda>(k, v, a). if k = key then (k, val, a) else (k, v, a)) ns"

definition SharedMap_update ::
  "errno option \<Rightarrow> 'k \<Rightarrow> 'v \<Rightarrow> ('k, 'v) SharedMap \<Rightarrow>
   (('k, 'v) SharedMap \<times> (shmem_error + unit)) option" where
  "SharedMap_update fault key val =
     sem_lock fault (\<lambda>m. case find_node key (nodes m) of
         None \<Rightarrow> (m, Inl OutOfRange)
       | Some _ \<Rightarrow>
           (m\<lparr>nodes := set_value key val (nodes m)\<rparr>, Inr ()))"

text \<open>\<^verbatim>\<open>std::map::insert\<close> looks the key up first and allocates one node when it is absent.\<close>

definition SharedMap_insert ::
  "nat \<Rightarrow> errno option \<Rightarrow> 'k \<times> 'v \<Rightarrow> ('k, 'v) SharedMap \<Rightarrow>
   (('k, 'v) SharedMap \<times> (shmem_error + bool)) option" where
  "SharedMap_insert node_size fault kv =
     sem_lock fault (\<lambda>m. case find_node (fst kv) (nodes m) of
         Some _ \<Rightarrow> (m, Inr False)
       | None \<Rightarrow>
           (case ShAlloc_allocate (node_size, 1) (heap m) of
              None \<Rightarrow> (m, Inl BadAlloc)
            | Some (a, h) \<Rightarrow>
                (m\<lparr>heap := h, nodes := (fst kv, snd kv, a) # nodes m\<rparr>, Inr True)))"

definition SharedMap_at ::
  "errno option \<Rightarrow> 'k \<Rightarrow> ('k, 'v) SharedMap \<Rightarrow> (('k, 'v) SharedMap \<times> (shmem_error + 'v)) option"
where
  "SharedMap_at fault k =
     sem_lock fault (\<lambda>m. case find_node k (nodes m) of
         None \<Rightarrow> (m, Inl OutOfRange) | Some (v, _) \<Rightarrow> (m, Inr v))"

definition SharedMap_erase ::
  "nat \<Rightarrow> errno option \<Rightarrow> 'k \<Rightarrow> ('k, 'v) SharedMap \<Rightarrow>
   (('k, 'v) SharedMap \<times> (shmem_error + nat)) option" where
  "SharedMap_erase node_size fault k =
     sem_lock fault (\<lambda>m. case find_node k (nodes m) of
         None \<Rightarrow> (m, Inr 0)
       | Some (v, a) \<Rightarrow>
           (m\<lparr>heap := ShAlloc_deallocate a (node_size, 1) (heap m),
              nodes := removeAll (k, v, a) (nodes m)\<rparr>, Inr 1))"

definition SharedMap_size ::
  "errno option \<Rightarrow> ('k, 'v) SharedMap \<Rightarrow> (('k, 'v) SharedMap \<times> (shmem_error + nat)) option" where
  "SharedMap_size fault = sem_lock fault (\<lambda>m. (m, Inr (length (nodes m))))"

text \<open>The allocator is the address of its state.\<close>

definition SharedMap_get_allocator ::
  "nat \<Rightarrow> errno option \<Rightarrow> ('k, 'v) SharedMap \<Rightarrow> (('k, 'v) SharedMap \<times> (shmem_error + nat)) option" where
  "SharedMap_get_allocator sh_state fault = sem_lock fault (\<lambda>m. (m, Inr sh_state))"

text \<open>The destructor of the map gives every node back; the semaphore is destroyed after it.\<close>

definition SharedMap_destroy ::
  "nat \<Rightarrow> errno option \<Rightarrow> ('k, 'v) SharedMap \<Rightarrow> ('k, 'v) SharedMap \<times> bool" where
  "SharedMap_destroy node_size fault m =
     (m\<lparr>heap := fold (\<lambda>(k, v, a). ShAlloc_deallocate a (node_size, 1)) (nodes m) (heap m),
        nodes := []\<rparr>,
      Semaphore_delete fault)"

section \<open>The invariant\<close>

definition node_requests :: "nat \<Rightarrow> ('k \<times> 'v \<times> nat) list \<Rightarrow> (nat \<times> nat \<times> nat) list" where
  "node_requests node_size ns = map (\<lambda>(k, v, a). (a, node_size, 1)) ns"

text \<open>The blocks of one node, and the number of nodes the heap has room for.\<close>

definition node_blocks :: "nat \<Rightarrow> ShMemState \<Rightarrow> nat" where
  "node_blocks node_size h = get_size_in_blocks node_size (block_size h)"

definition capacity :: "nat \<Rightarrow> ShMemState \<Rightarrow> nat" where
  "capacity node_size h = blocks_count h div node_blocks node_size h"

text \<open>An address is that of a slot: a multiple of the blocks of one node.\<close>

definition slot_address :: "nat \<Rightarrow> ShMemState \<Rightarrow> nat \<Rightarrow> nat" where
  "slot_address node_size h q = first_block h + q * node_blocks node_size h * block_size h"

definition map_inv :: "nat \<Rightarrow> ('k, 'v) SharedMap \<Rightarrow> bool" where
  "map_inv node_size m \<longleftrightarrow>
     semaphore m = 1 \<and> distinct (map fst (nodes m)) \<and>
     sh_heap.accounts (heap m) (node_requests node_size (nodes m)) \<and>
     (\<forall>(k, v, a)\<in>set (nodes m).
        \<exists>q<capacity node_size (heap m). a = slot_address node_size (heap m) q)"

definition contents :: "('k, 'v) SharedMap \<Rightarrow> 'k \<rightharpoonup> 'v" where
  "contents m = map_option fst \<circ> map_of (nodes m)"

section \<open>First fit with requests of one size\<close>

lemma slot_extent:
  assumes "0 < block_size h"
  shows "extent h (slot_address n h q) (n, 1) = {q * node_blocks n h ..< q * node_blocks n h + node_blocks n h}"
proof -
  have "(q * node_blocks n h * block_size h) div block_size h = q * node_blocks n h" using assms by simp
  then show ?thesis using assms by (simp add: extent_def slot_address_def node_blocks_def Let_def)
qed

text \<open>
  When the used blocks are whole slots, the first run of free blocks long enough for a node is
  a slot.
\<close>

lemma first_fit_slot:
  assumes "0 < b" "find_free_blocks b t = Some pos"
    and whole: "\<And>i j. i < length t \<Longrightarrow> j < length t \<Longrightarrow> i div b = j div b \<Longrightarrow>
      t ! i = FREE_BLOCK \<Longrightarrow> t ! j = FREE_BLOCK"
  shows "b dvd pos"
proof (rule ccontr)
  assume nd: "\<not> b dvd pos"
  let ?p = "pos div b * b"
  note free = find_free_blocks_Some[OF assms(2)]
  have "0 < pos mod b" "pos mod b < b" using nd assms(1) by (auto simp: dvd_eq_mod_eq_0)
  then have p: "?p < pos" "pos < ?p + b" using div_mult_mod_eq[of pos b] by linarith+
  have "t ! j = FREE_BLOCK" if "?p \<le> j" "j < ?p + b" for j
  proof (rule whole[of pos])
    show "pos < length t" "j < length t" using free(1) p that assms(1) by linarith+
    show "pos div b = j div b"
      by (rule sym, rule div_nat_eqI) (use that in \<open>simp_all add: mult.commute add.commute\<close>)
    show "t ! pos = FREE_BLOCK" using free(2)[of pos] assms(1) by simp
  qed
  then have "take b (drop ?p t) = replicate b FREE_BLOCK"
    using free(1) p(1) by (intro nth_equalityI) auto
  then have "prefix (replicate b FREE_BLOCK) (drop ?p t)" by (metis take_is_prefix)
  with p(1) assms(2) show False by (auto simp: find_free_blocks_def find_str_Some_iff)
qed

section \<open>Slots\<close>

definition geometry :: "nat \<Rightarrow> ShMemState \<Rightarrow> bool" where
  "geometry n h \<longleftrightarrow> 0 < n \<and> n \<le> 2 ^ 24 \<and> 0 < block_size h"

definition node_addr :: "'k \<times> 'v \<times> nat \<Rightarrow> nat" where
  "node_addr x = snd (snd x)"

definition slots :: "nat \<Rightarrow> ('k, 'v) SharedMap \<Rightarrow> nat set" where
  "slots n m = {q. slot_address n (heap m) q \<in> node_addr ` set (nodes m)}"

lemma node_blocks_pos: "geometry n h \<Longrightarrow> 0 < node_blocks n h"
  by (auto simp: geometry_def node_blocks_def get_size_in_blocks_exact div_greater_zero_iff)

lemma slot_address_inj: "geometry n h \<Longrightarrow> slot_address n h p = slot_address n h q \<longleftrightarrow> p = q"
  using node_blocks_pos[of n h] by (simp add: slot_address_def geometry_def)

lemma node_slot:
  assumes "map_inv n m" "x \<in> set (nodes m)"
  shows "\<exists>q<capacity n (heap m). node_addr x = slot_address n (heap m) q"
  using assms by (cases x) (auto simp: map_inv_def node_addr_def)

lemma map_inv_iff:
  "map_inv n m \<longleftrightarrow> semaphore m = 1 \<and> distinct (map fst (nodes m)) \<and>
     sh_heap.accounts (heap m) (node_requests n (nodes m)) \<and>
     (\<forall>a\<in>node_addr ` set (nodes m). \<exists>q<capacity n (heap m). a = slot_address n (heap m) q)"
  by (simp add: map_inv_def node_addr_def case_prod_unfold)

lemma slots_bound:
  assumes "map_inv n m" "geometry n (heap m)"
  shows "slots n m \<subseteq> {..<capacity n (heap m)}"
proof
  fix q
  assume "q \<in> slots n m"
  then obtain x where x: "x \<in> set (nodes m)" "node_addr x = slot_address n (heap m) q"
    unfolding slots_def by fastforce
  then show "q \<in> {..<capacity n (heap m)}"
    using node_slot[OF assms(1) x(1)] slot_address_inj[OF assms(2)] by auto
qed

lemma used_slots:
  assumes "map_inv n m" "geometry n (heap m)"
  shows "i \<in> used_set (heap m) \<longleftrightarrow> i div node_blocks n (heap m) \<in> slots n m"
proof -
  let ?h = "heap m" and ?b = "node_blocks n (heap m)"
  have b: "0 < ?b" "0 < block_size ?h" using node_blocks_pos assms(2) by (auto simp: geometry_def)
  have div: "i \<in> {q * ?b ..< q * ?b + ?b} \<longleftrightarrow> i div ?b = q" for q
    using b(1) dividend_less_div_times[of ?b i] div_times_less_eq_dividend[of i ?b]
    by (auto intro: div_nat_eqI simp: mult.commute add.commute)
  have "used_set ?h = (\<Union>(a, r)\<in>set (node_requests n (nodes m)). extent ?h a r)"
    using assms(1) by (simp add: map_inv_def sh_heap.accounts_def)
  then have "i \<in> used_set ?h \<longleftrightarrow> (\<exists>x\<in>set (nodes m). i \<in> extent ?h (node_addr x) (n, 1))"
    by (simp add: node_requests_def case_prod_beta node_addr_def)
  also have "\<dots> \<longleftrightarrow> (\<exists>x\<in>set (nodes m). node_addr x = slot_address n ?h (i div ?b))"
  proof (intro bex_cong refl)
    fix x
    assume "x \<in> set (nodes m)"
    then obtain q where q: "node_addr x = slot_address n ?h q" using node_slot[OF assms(1)] by blast
    show "i \<in> extent ?h (node_addr x) (n, 1) \<longleftrightarrow> node_addr x = slot_address n ?h (i div ?b)"
      unfolding q slot_extent[OF b(2)] div slot_address_inj[OF assms(2)] by auto
  qed
  also have "\<dots> \<longleftrightarrow> i div ?b \<in> slots n m" unfolding slots_def by (auto simp: image_iff Bex_def eq_commute)
  finally show ?thesis .
qed

lemma distinct_addrs:
  assumes "map_inv n m" "geometry n (heap m)"
  shows "distinct (map node_addr (nodes m))"
proof -
  let ?h = "heap m"
  have b: "0 < node_blocks n ?h" "0 < block_size ?h"
    using node_blocks_pos assms(2) by (auto simp: geometry_def)
  have "apart (map (\<lambda>x. extent ?h (node_addr x) (n, 1)) (nodes m))"
    using assms(1) by (simp add: map_inv_def sh_heap.accounts_def node_requests_def comp_def
        case_prod_beta node_addr_def)
  moreover have "extent ?h (node_addr x) (n, 1) \<noteq> {}" if "x \<in> set (nodes m)" for x
    using node_slot[OF assms(1) that] slot_extent[OF b(2), of n] b(1) by fastforce
  ultimately have "distinct (map (\<lambda>x. extent ?h (node_addr x) (n, 1)) (nodes m))"
    by (intro apart_distinct) auto
  then show ?thesis
    by (auto simp: distinct_map inj_on_def)
qed

lemma card_slots:
  assumes "map_inv n m" "geometry n (heap m)"
  shows "card (slots n m) = length (nodes m)"
proof -
  let ?h = "heap m"
  have "length (nodes m) = card (node_addr ` set (nodes m))"
    using distinct_addrs[OF assms] by (metis distinct_card length_map set_map)
  also have "node_addr ` set (nodes m) = slot_address n ?h ` slots n m"
  proof (intro equalityI subsetI)
    fix a
    assume "a \<in> node_addr ` set (nodes m)"
    then obtain x where x: "x \<in> set (nodes m)" "a = node_addr x" by blast
    then obtain q where "a = slot_address n ?h q" using node_slot[OF assms(1)] by blast
    with x show "a \<in> slot_address n ?h ` slots n m" by (auto simp: slots_def image_iff)
  qed (auto simp: slots_def)
  also have "card \<dots> = card (slots n m)"
    using slot_address_inj[OF assms(2)] by (intro card_image) (simp add: inj_on_def)
  finally show ?thesis by simp
qed

text \<open>An allocation of a node yields a slot; it fails exactly when all slots are taken.\<close>

lemma allocate_slot:
  assumes "map_inv n m" "geometry n (heap m)" "ShAlloc_allocate (n, 1) (heap m) = Some (a, h)"
  shows "\<exists>q<capacity n (heap m). a = slot_address n (heap m) q \<and> q \<notin> slots n m"
proof -
  let ?h = "heap m" and ?b = "node_blocks n (heap m)" and ?t = "used_blocks_table (heap m)"
  have b: "0 < ?b" "0 < block_size ?h" using node_blocks_pos assms(2) by (auto simp: geometry_def)
  obtain pos where f: "find_free_blocks ?b ?t = Some pos" and a: "a = first_block ?h + pos * block_size ?h"
    using assms(3) by (auto simp: ShAlloc_allocate_def node_blocks_def Let_def split: if_splits option.splits)
  note free = find_free_blocks_Some[OF f]
  have len: "length ?t = blocks_count ?h"
    using assms(1) by (simp add: map_inv_def sh_heap.accounts_def table_sized_def)
  have used: "i \<in> used_set ?h \<longleftrightarrow> ?t ! i \<noteq> FREE_BLOCK" if "i < length ?t" for i
    using that len by (simp add: used_set_def)
  have "?b dvd pos"
  proof (rule first_fit_slot[OF b(1) f])
    fix i j
    assume "i < length ?t" "j < length ?t" "i div ?b = j div ?b" "?t ! i = FREE_BLOCK"
    then show "?t ! j = FREE_BLOCK"
      using used[of i] used[of j] used_slots[OF assms(1,2), of i] used_slots[OF assms(1,2), of j] by simp
  qed
  then obtain q where q: "pos = q * ?b" by (metis dvdE mult.commute)
  have "Suc q * ?b \<le> blocks_count ?h" using free(1) len q by (simp add: add.commute)
  then have "Suc q \<le> blocks_count ?h div ?b" using b(1) by (simp add: less_eq_div_iff_mult_less_eq)
  moreover have "q \<notin> slots n m"
    using used_slots[OF assms(1,2), of pos] used[of pos] free(1) free(2)[of pos] b(1) q by simp
  ultimately show ?thesis using a q by (intro exI[of _ q]) (simp add: capacity_def slot_address_def)
qed

lemma allocate_fails:
  assumes "map_inv n m" "geometry n (heap m)"
  shows "ShAlloc_allocate (n, 1) (heap m) = None \<longleftrightarrow> length (nodes m) = capacity n (heap m)"
proof
  let ?h = "heap m" and ?b = "node_blocks n (heap m)" and ?t = "used_blocks_table (heap m)"
  have b: "0 < ?b" "0 < block_size ?h" using node_blocks_pos assms(2) by (auto simp: geometry_def)
  have len: "length ?t = blocks_count ?h"
    using assms(1) by (simp add: map_inv_def sh_heap.accounts_def table_sized_def)
  assume none: "ShAlloc_allocate (n, 1) ?h = None"
  have f: "find_free_blocks ?b ?t = None"
    using none b(2) by (auto simp: ShAlloc_allocate_def node_blocks_def Let_def split: option.splits)
  have "q \<in> slots n m" if "q < capacity n ?h" for q
  proof -
    have "Suc q * ?b \<le> blocks_count ?h"
      using that b(1) by (simp only: capacity_def Suc_le_eq[symmetric] less_eq_div_iff_mult_less_eq)
    then have "q * ?b + ?b \<le> length ?t" by (simp add: len add.commute)
    then obtain i where i: "q * ?b \<le> i" "i < q * ?b + ?b" "?t ! i \<noteq> FREE_BLOCK" "i < length ?t"
      using find_free_blocks_None[OF f] by (metis order_less_le_trans)
    have "i \<in> used_set ?h" using i(3,4) len by (simp add: used_set_def)
    moreover have "i div ?b = q"
      by (rule div_nat_eqI) (use i(1,2) in \<open>simp_all add: mult.commute add.commute\<close>)
    ultimately show ?thesis using used_slots[OF assms, of i] by simp
  qed
  then have "slots n m = {..<capacity n ?h}" using slots_bound[OF assms] by auto
  then show "length (nodes m) = capacity n ?h" using card_slots[OF assms] by simp
next
  let ?h = "heap m"
  assume full: "length (nodes m) = capacity n ?h"
  have "slots n m = {..<capacity n ?h}"
    using slots_bound[OF assms] card_slots[OF assms] full by (intro card_subset_eq) auto
  then show "ShAlloc_allocate (n, 1) ?h = None"
    using allocate_slot[OF assms] by (cases "ShAlloc_allocate (n, 1) ?h") auto
qed

section \<open>The abstract map\<close>

text \<open>The calls of a program on the map, and what they return.\<close>

datatype ('k, 'v) map_op =
    Count 'k | Update 'k 'v | Insert 'k 'v | At 'k | Erase 'k | Size

datatype 'v result = Unit | Bool bool | Nat nat | Val 'v

text \<open>The contract: a partial function with room for a fixed number of keys.\<close>

fun map_spec ::
  "nat \<Rightarrow> ('k, 'v) map_op \<Rightarrow> ('k \<rightharpoonup> 'v) \<Rightarrow> ('k \<rightharpoonup> 'v) \<times> (shmem_error + 'v result)" where
  "map_spec room (Count k) c = (c, Inr (Nat (if k \<in> dom c then 1 else 0)))"
| "map_spec room (Update k v) c = (if k \<in> dom c then (c(k \<mapsto> v), Inr Unit) else (c, Inl OutOfRange))"
| "map_spec room (Insert k v) c =
     (if k \<in> dom c then (c, Inr (Bool False))
      else if card (dom c) = room then (c, Inl BadAlloc)
      else (c(k \<mapsto> v), Inr (Bool True)))"
| "map_spec room (At k) c = (c, case c k of Some v \<Rightarrow> Inr (Val v) | None \<Rightarrow> Inl OutOfRange)"
| "map_spec room (Erase k) c = (c(k := None), Inr (Nat (if k \<in> dom c then 1 else 0)))"
| "map_spec room Size c = (c, Inr (Nat (card (dom c))))"

definition answer :: "('a \<Rightarrow> 'v result) \<Rightarrow> (('k, 'v) SharedMap \<times> (shmem_error + 'a)) option \<Rightarrow>
  (('k, 'v) SharedMap \<times> (shmem_error + 'v result)) option" where
  "answer f = map_option (map_prod id (map_sum id f))"

fun SharedMap_op ::
  "nat \<Rightarrow> errno option \<Rightarrow> ('k, 'v) map_op \<Rightarrow> ('k, 'v) SharedMap \<Rightarrow>
   (('k, 'v) SharedMap \<times> (shmem_error + 'v result)) option" where
  "SharedMap_op n fault (Count k) m = answer Nat (SharedMap_count fault k m)"
| "SharedMap_op n fault (Update k v) m = answer (\<lambda>_. Unit) (SharedMap_update fault k v m)"
| "SharedMap_op n fault (Insert k v) m = answer Bool (SharedMap_insert n fault (k, v) m)"
| "SharedMap_op n fault (At k) m = answer Val (SharedMap_at fault k m)"
| "SharedMap_op n fault (Erase k) m = answer Nat (SharedMap_erase n fault k m)"
| "SharedMap_op n fault Size m = answer Nat (SharedMap_size fault m)"

lemmas SharedMap_defs = SharedMap_count_def SharedMap_update_def SharedMap_insert_def
  SharedMap_at_def SharedMap_erase_def SharedMap_size_def

text \<open>Under a free lock a call is its body.\<close>

lemma sem_lock_free:
  "semaphore m = 1 \<Longrightarrow> sem_lock None body m =
    (let (m', r) = body (m\<lparr>semaphore := 0\<rparr>) in Some (m'\<lparr>semaphore := semaphore m' + 1\<rparr>, r))"
  by (simp add: sem_lock_def Semaphore_defs split: prod.split)

lemma sem_eta:
  assumes "semaphore m = 1"
  shows "m\<lparr>semaphore := Suc 0\<rparr> = m"
    "m\<lparr>nodes := ns, semaphore := Suc 0\<rparr> = m\<lparr>nodes := ns\<rparr>"
    "m\<lparr>heap := h, nodes := ns, semaphore := Suc 0\<rparr> = m\<lparr>heap := h, nodes := ns\<rparr>"
  using assms by (cases m; simp)+

lemma contents_simps:
  "contents m k = map_option fst (find_node k (nodes m))"
  by (simp add: contents_def find_node_def)

lemma dom_contents: "dom (contents m) = fst ` set (nodes m)"
  by (auto simp: contents_def dom_map_of_conv_image_fst[symmetric])

lemma card_contents: "map_inv n m \<Longrightarrow> card (dom (contents m)) = length (nodes m)"
  by (simp add: dom_contents map_inv_def distinct_card flip: set_map)

subsection \<open>Insert\<close>

lemma insert_inv:
  assumes "map_inv n m" "geometry n (heap m)" "find_node k (nodes m) = None"
    and "ShAlloc_allocate (n, 1) (heap m) = Some (a, h)"
  shows "map_inv n (m\<lparr>heap := h, nodes := (k, v, a) # nodes m\<rparr>)"
proof -
  have same: "block_size h = block_size (heap m)" "blocks_count h = blocks_count (heap m)"
      "first_block h = first_block (heap m)"
    using assms(4) by (auto simp: ShAlloc_allocate_def Let_def split: if_splits option.splits)
  then have cap: "capacity n h = capacity n (heap m)" "slot_address n h = slot_address n (heap m)"
    by (auto simp: capacity_def slot_address_def node_blocks_def)
  have "sh_heap.accounts h ((a, n, 1) # node_requests n (nodes m))"
    using sh_heap.accounts_alloc[of "heap m" _ "(n, 1)" a h] assms(1,4) by (simp add: map_inv_def)
  moreover have "\<exists>q<capacity n (heap m). a = slot_address n (heap m) q"
    using allocate_slot[OF assms(1,2,4)] by blast
  moreover have "k \<notin> fst ` set (nodes m)" using assms(3) by (simp add: find_node_def map_of_eq_None_iff)
  ultimately show ?thesis using assms(1) by (auto simp: map_inv_def node_requests_def cap)
qed

subsection \<open>Erase\<close>

lemma erase_inv:
  assumes "map_inv n m" "geometry n (heap m)" "find_node k (nodes m) = Some (v, a)"
  shows "map_inv n (m\<lparr>heap := ShAlloc_deallocate a (n, 1) (heap m),
    nodes := removeAll (k, v, a) (nodes m)\<rparr>)"
proof -
  let ?h = "ShAlloc_deallocate a (n, 1) (heap m)" and ?f = "\<lambda>x :: 'a \<times> 'b \<times> nat. (node_addr x, n, 1 :: nat)"
  let ?x = "(k, v, a)"
  have mem: "?x \<in> set (nodes m)" using assms(3) by (simp add: find_node_def map_of_SomeD)
  have cap: "capacity n ?h = capacity n (heap m)" "slot_address n ?h = slot_address n (heap m)"
    by (auto simp: capacity_def slot_address_def node_blocks_def ShAlloc_deallocate_def Let_def)
  have inj: "inj_on ?f (set (nodes m))" "distinct (map ?f (nodes m))"
    using distinct_addrs[OF assms(1,2)] by (simp_all add: distinct_map inj_on_def)
  have "insert ?x (set (nodes m)) = set (nodes m)" using mem by blast
  then have "map ?f (removeAll ?x (nodes m)) = removeAll (?f ?x) (map ?f (nodes m))"
    using inj(1) by (intro map_removeAll_inj_on) simp
  also have "\<dots> = remove1 (?f ?x) (map ?f (nodes m))" using inj(2) by (simp add: distinct_remove1_removeAll)
  finally have live: "node_requests n (removeAll ?x (nodes m)) = remove1 (a, n, 1) (node_requests n (nodes m))"
    by (simp add: node_requests_def case_prod_unfold node_addr_def)
  have "(a, n, 1) \<in> set (node_requests n (nodes m))" using mem by (force simp: node_requests_def)
  then have "sh_heap.accounts ?h (node_requests n (removeAll ?x (nodes m)))"
    unfolding live using assms(1) by (intro sh_heap.accounts_dealloc) (simp_all add: map_inv_def)
  moreover have "distinct (map fst (removeAll ?x (nodes m)))"
    using assms(1) by (simp add: map_inv_def removeAll_filter_not_eq distinct_map_filter)
  ultimately show ?thesis
    using assms(1) by (auto simp: map_inv_def cap[unfolded One_nat_def])
qed

lemma map_of_filter_keys: "map_of (filter (\<lambda>(k, _). k \<in> A) ns) = map_of ns |` A"
  by (induction ns) (auto simp: restrict_map_def)

lemma erase_contents:
  assumes "map_inv n m" "find_node k (nodes m) = Some (v, a)"
  shows "map_of (removeAll (k, v, a) (nodes m)) = (map_of (nodes m))(k := None)"
proof -
  have mem: "(k, v, a) \<in> set (nodes m)" using assms(2) by (simp add: find_node_def map_of_SomeD)
  have dist: "distinct (map fst (nodes m))" using assms(1) by (simp add: map_inv_def)
  have "removeAll (k, v, a) (nodes m) = filter (\<lambda>(k', _). k' \<in> - {k}) (nodes m)"
    unfolding removeAll_filter_not_eq
  proof (rule filter_cong[OF refl])
    fix x
    assume "x \<in> set (nodes m)"
    then have "fst x = k \<Longrightarrow> snd x = (v, a)"
      using eq_key_imp_eq_value[OF dist _ mem, of "snd x"] by (metis prod.collapse)
    then show "((k, v, a) \<noteq> x) = (case x of (k', _) \<Rightarrow> k' \<in> - {k})"
      by (cases x) auto
  qed
  then have "map_of (removeAll (k, v, a) (nodes m)) = map_of (nodes m) |` (- {k})"
    by (simp only: map_of_filter_keys)
  then show ?thesis by (simp add: restrict_complement_singleton_eq)
qed

subsection \<open>Update\<close>

lemma set_value_facts:
  "map fst (set_value k v ns) = map fst ns"
  "node_requests n (set_value k v ns) = node_requests n ns"
  "map node_addr (set_value k v ns) = map node_addr ns"
  "map_of (set_value key val ns) k = (if k = key then map_option (\<lambda>(v, a). (val, a)) (map_of ns k)
     else map_of ns k)"
  by (induction ns) (auto simp: set_value_def node_requests_def node_addr_def)

lemma update_inv:
  assumes "map_inv n m"
  shows "map_inv n (m\<lparr>nodes := set_value k v (nodes m)\<rparr>)"
proof -
  have "node_addr ` set (set_value k v (nodes m)) = node_addr ` set (nodes m)"
    by (metis set_map set_value_facts(3))
  then show ?thesis using assms by (simp add: map_inv_iff set_value_facts(1,2))
qed

section \<open>The calls against the contract\<close>

lemma find_dom: "k \<in> dom (contents m) \<longleftrightarrow> find_node k (nodes m) \<noteq> None"
  by (auto simp: contents_simps dom_def)

lemma same_geometry:
  assumes "geometry n h" "block_size h' = block_size h" "blocks_count h' = blocks_count h"
  shows "geometry n h' \<and> capacity n h' = capacity n h"
  using assms by (simp add: geometry_def capacity_def node_blocks_def)

lemma insert_refines:
  assumes "map_inv n m" "geometry n (heap m)"
  shows "\<exists>m'. SharedMap_insert n None (k, v) m = Some (m',
      if k \<in> dom (contents m) then Inr False
      else if card (dom (contents m)) = capacity n (heap m) then Inl BadAlloc else Inr True) \<and>
    contents m' = (if k \<in> dom (contents m) \<or> card (dom (contents m)) = capacity n (heap m)
      then contents m else (contents m)(k \<mapsto> v)) \<and>
    map_inv n m' \<and> geometry n (heap m') \<and> capacity n (heap m') = capacity n (heap m)"
proof -
  have sem: "semaphore m = 1" using assms(1) by (simp add: map_inv_def)
  note call = SharedMap_insert_def sem_lock_free[OF sem] sem_eta[OF sem] find_dom
  note full = allocate_fails[OF assms] card_contents[OF assms(1)]
  show ?thesis
  proof (cases "find_node k (nodes m)")
    case (Some x)
    then show ?thesis using assms by (simp add: call)
  next
    case None
    show ?thesis
    proof (cases "ShAlloc_allocate (n, 1) (heap m)")
      case none: None
      then show ?thesis using None full assms by (simp add: call)
    next
      case (Some ah)
      obtain a h where ah: "ah = (a, h)" by (cases ah)
      have "contents (m\<lparr>heap := h, nodes := (k, v, a) # nodes m\<rparr>) = (contents m)(k \<mapsto> v)"
        by (auto simp: contents_def)
      moreover have "geometry n h \<and> capacity n h = capacity n (heap m)"
        using Some ah by (intro same_geometry[OF assms(2)])
          (auto simp: ShAlloc_allocate_def Let_def split: if_splits option.splits)
      moreover have "length (nodes m) \<noteq> capacity n (heap m)" using full Some by simp
      ultimately show ?thesis
        using None Some ah insert_inv[OF assms None, of a h v] full by (simp add: call)
    qed
  qed
qed

lemma erase_refines:
  assumes "map_inv n m" "geometry n (heap m)"
  shows "\<exists>m'. SharedMap_erase n None k m = Some (m', Inr (if k \<in> dom (contents m) then 1 else 0)) \<and>
    contents m' = (contents m)(k := None) \<and> map_inv n m' \<and>
    geometry n (heap m') \<and> capacity n (heap m') = capacity n (heap m)"
proof -
  have sem: "semaphore m = 1" using assms(1) by (simp add: map_inv_def)
  note call = SharedMap_erase_def sem_lock_free[OF sem] sem_eta[OF sem] find_dom
  show ?thesis
  proof (cases "find_node k (nodes m)")
    case None
    then have "(contents m)(k := None) = contents m" by (auto simp: contents_simps)
    with None show ?thesis using assms by (simp add: call)
  next
    case (Some x)
    obtain v a where x: "x = (v, a)" by (cases x)
    have "contents (m\<lparr>heap := h, nodes := removeAll (k, v, a) (nodes m)\<rparr>) = (contents m)(k := None)" for h
      using erase_contents[OF assms(1), of k v a] Some x by (auto simp: contents_def)
    moreover have "geometry n (ShAlloc_deallocate a (n, 1) (heap m)) \<and>
        capacity n (ShAlloc_deallocate a (n, 1) (heap m)) = capacity n (heap m)"
      by (intro same_geometry[OF assms(2)]) (simp_all add: ShAlloc_deallocate_def Let_def)
    ultimately show ?thesis using Some x erase_inv[OF assms, of k v a] by (simp add: call)
  qed
qed

lemma update_refines:
  assumes "map_inv n m"
  shows "\<exists>m'. SharedMap_update None k v m = Some (m', if k \<in> dom (contents m) then Inr () else Inl OutOfRange) \<and>
    contents m' = (if k \<in> dom (contents m) then (contents m)(k \<mapsto> v) else contents m) \<and>
    map_inv n m' \<and> heap m' = heap m"
proof -
  have sem: "semaphore m = 1" using assms by (simp add: map_inv_def)
  note call = SharedMap_update_def sem_lock_free[OF sem] sem_eta[OF sem] find_dom
  show ?thesis
  proof (cases "find_node k (nodes m)")
    case None
    then show ?thesis using assms by (simp add: call)
  next
    case (Some x)
    then have "contents (m\<lparr>nodes := set_value k v (nodes m)\<rparr>) = (contents m)(k \<mapsto> v)"
      by (intro ext) (auto simp: contents_def find_node_def set_value_facts(4) split: prod.split)
    with Some show ?thesis using update_inv[OF assms, of k v] by (simp add: call)
  qed
qed

lemma SharedMap_op_refines:
  assumes "map_inv n m" "geometry n (heap m)"
  shows "\<exists>m'. SharedMap_op n None op m = Some (m', snd (map_spec (capacity n (heap m)) op (contents m))) \<and>
    contents m' = fst (map_spec (capacity n (heap m)) op (contents m)) \<and>
    map_inv n m' \<and> geometry n (heap m') \<and> capacity n (heap m') = capacity n (heap m)"
proof -
  have sem: "semaphore m = 1" using assms(1) by (simp add: map_inv_def)
  note call = sem_lock_free[OF sem] sem_eta[OF sem] find_dom answer_def
  show ?thesis
  proof (cases op)
    case (Count k)
    then show ?thesis using assms by (auto simp: call SharedMap_count_def split: option.split)
  next
    case (Update k v)
    then show ?thesis using update_refines[OF assms(1), of k v] assms(2) by (auto simp: answer_def)
  next
    case (Insert k v)
    then show ?thesis using insert_refines[OF assms, of k v] by (auto simp: answer_def)
  next
    case (At k)
    then show ?thesis
      using assms by (auto simp: call SharedMap_at_def contents_simps split: option.split)
  next
    case (Erase k)
    then show ?thesis
      using erase_refines[OF assms, of k]
      by (cases "k \<in> dom (contents m)") (auto simp: answer_def dom_def)
  next
    case Size
    then show ?thesis using assms card_contents[OF assms(1)] by (simp add: call SharedMap_size_def)
  qed
qed

section \<open>Properties\<close>

text \<open>
  C14: The shared map is a map with a fixed number of places. From a state that satisfies the
  invariant, every call of \<^verbatim>\<open>count\<close>, \<^verbatim>\<open>update\<close>, \<^verbatim>\<open>insert\<close>, \<^verbatim>\<open>at\<close>, \<^verbatim>\<open>erase\<close> and \<^verbatim>\<open>size\<close>
  returns or throws what the abstract map answers, leaves the abstract contents it leaves,
  releases the lock also when it throws, and keeps the invariant: distinct keys, the nodes in
  disjoint blocks, and no block used that is not a node's. In particular \<^verbatim>\<open>insert\<close> throws
  \<^verbatim>\<open>bad_alloc\<close> exactly when the heap holds as many nodes as fit, and first fit never
  fragments it.
\<close>

theorem shared_map_refines:
  assumes "map_inv n m" "geometry n (heap m)"
  shows "\<exists>m'. SharedMap_op n None op m = Some (m', snd (map_spec (capacity n (heap m)) op (contents m))) \<and>
    contents m' = fst (map_spec (capacity n (heap m)) op (contents m)) \<and>
    map_inv n m' \<and> geometry n (heap m') \<and> capacity n (heap m') = capacity n (heap m)"
  using SharedMap_op_refines[OF assms] .

lemma map_inv_new: "map_inv n (SharedMap_new base sem_size state_size map_size bsize bcount)"
  using accounts_start by (simp add: map_inv_def SharedMap_new_def node_requests_def Let_def)

theorem shared_map_refines_witness:
  "\<exists>m'. SharedMap_op 48 None (Insert (7 :: nat) (8 :: nat)) (SharedMap_new 0 32 32 48 48 1) =
     Some (m', Inr (Bool True)) \<and> contents m' = [7 \<mapsto> 8]"
proof -
  let ?m = "SharedMap_new 0 32 32 48 48 1 :: (nat, nat) SharedMap"
  have "geometry 48 (heap ?m)" "capacity 48 (heap ?m) = 1"
    by (simp_all add: geometry_def capacity_def node_blocks_def SharedMap_new_def Let_def
        ShMemState_new_def get_size_in_blocks_exact)
  moreover have "contents ?m = Map.empty" by (simp add: contents_def SharedMap_new_def Let_def)
  ultimately show ?thesis
    using shared_map_refines[OF map_inv_new, of 48 0 32 32 48 48 1
        "Insert (7 :: nat) (8 :: nat)"] by auto
qed

text \<open>
  A new map is empty and inside its mapping. The constructor's state satisfies the
  invariant whatever the sizes, with empty contents; the map object starts after the table and
  ends where the first block starts, and the last block ends where the mapping of
  \<^verbatim>\<open>mmap_length\<close> bytes ends.
\<close>

lemma shared_map_new:
  "map_inv n (SharedMap_new base sem_size state_size map_size bsize bcount) \<and>
   contents (SharedMap_new base sem_size state_size map_size bsize bcount) = Map.empty \<and>
   first_block (heap (SharedMap_new base sem_size state_size map_size bsize bcount)) =
     map_address base sem_size state_size bcount + map_size \<and>
   first_block (heap (SharedMap_new base sem_size state_size map_size bsize bcount)) + bcount * bsize =
     base + mmap_length sem_size state_size map_size bsize bcount"
  using map_inv_new
  by (simp add: SharedMap_new_def contents_def Let_def ShMemState_new_def map_address_def
      mmap_length_def)

end
