(* ===== verification/Shared_Procs.thy ===== *)
theory Shared_Procs
  imports Shared_Map
begin

text \<open>
  The processes that share a map of \<^verbatim>\<open>4.shmem\<close>, after \<^verbatim>\<open>fork\<close>: every method of \<^verbatim>\<open>shmap.h\<close>
  is cut into the steps other processes can come between, as a transition relation. A body is
  not atomic here: it works on what it read when it began and writes the heap and the nodes
  back one after the other. That its effect is that of an atomic call is a theorem about the
  semaphore.
\<close>

section \<open>The processes\<close>

text \<open>What a call does between the constructor and the destructor of its \<^verbatim>\<open>SemLock\<close>.\<close>

definition map_body ::
  "nat \<Rightarrow> ('k, 'v) map_op \<Rightarrow> ('k, 'v) SharedMap \<Rightarrow> ('k, 'v) SharedMap \<times> (shmem_error + 'v result)" where
  "map_body n op m = the (SharedMap_op n None op (m\<lparr>semaphore := 1\<rparr>))"

text \<open>Where a process is: outside, in the body (before and after it reads, between its writes, behind them).\<close>

datatype ('k, 'v) place_in_call =
    Outside
  | Locked "('k, 'v) map_op"
  | Loaded "('k, 'v) map_op" "('k, 'v) SharedMap"
  | HeapWritten "('k, 'v) map_op" "('k, 'v) SharedMap"
  | Unlocking

record ('k, 'v) processes =
  shared :: "('k, 'v) SharedMap"
  at_place :: "nat \<Rightarrow> ('k, 'v) place_in_call"
  history :: "(nat \<times> ('k, 'v) map_op \<times> (shmem_error + 'v result)) list"

abbreviation set_sem :: "nat \<Rightarrow> ('k, 'v) SharedMap \<Rightarrow> ('k, 'v) SharedMap" where
  "set_sem s \<equiv> semaphore_update (\<lambda>_. s)"

abbreviation moves :: "nat \<Rightarrow> ('k, 'v) place_in_call \<Rightarrow> ('k, 'v) processes \<Rightarrow> ('k, 'v) processes" where
  "moves p x st \<equiv> st\<lparr>at_place := (at_place st)(p := x)\<rparr>"

text \<open>
  A step of one process. \<^verbatim>\<open>sem_wait\<close> may be interrupted: the call throws and has not locked. The
  answer of a call joins the history with its last write.
\<close>

inductive process_step ::
  "nat \<Rightarrow> nat \<Rightarrow> ('k, 'v) processes \<Rightarrow> ('k, 'v) processes \<Rightarrow> bool" for n p where
  locks: "at_place st p = Outside \<Longrightarrow> Semaphore_wait None (semaphore (shared st)) = Some (s, Inr ()) \<Longrightarrow>
    process_step n p st (moves p (Locked op) (st\<lparr>shared := set_sem s (shared st)\<rparr>))"
| interrupted: "at_place st p = Outside \<Longrightarrow> Semaphore_wait (Some e) (semaphore (shared st)) = Some (s, Inl r) \<Longrightarrow>
    process_step n p st (st\<lparr>shared := set_sem s (shared st), history := history st @ [(p, op, Inl r)]\<rparr>)"
| loads: "at_place st p = Locked op \<Longrightarrow>
    process_step n p st (moves p (Loaded op (shared st)) st)"
| writes_heap: "at_place st p = Loaded op m \<Longrightarrow>
    process_step n p st (moves p (HeapWritten op m)
      (st\<lparr>shared := (shared st)\<lparr>heap := heap (fst (map_body n op m))\<rparr>\<rparr>))"
| writes_nodes: "at_place st p = HeapWritten op m \<Longrightarrow>
    process_step n p st (moves p Unlocking
      (st\<lparr>shared := (shared st)\<lparr>nodes := nodes (fst (map_body n op m))\<rparr>,
          history := history st @ [(p, op, snd (map_body n op m))]\<rparr>))"
| unlocks: "at_place st p = Unlocking \<Longrightarrow>
    process_step n p st (moves p Outside
      (st\<lparr>shared := set_sem (SemLock_delete None (semaphore (shared st))) (shared st)\<rparr>))"

inductive_cases process_stepE: "process_step n p st st'"

definition processes_new :: "('k, 'v) SharedMap \<Rightarrow> ('k, 'v) processes" where
  "processes_new m = \<lparr>shared = m, at_place = (\<lambda>_. Outside), history = []\<rparr>"

inductive processes_reach ::
  "nat \<Rightarrow> ('k, 'v) processes \<Rightarrow> (nat \<times> ('k, 'v) processes) list \<Rightarrow> ('k, 'v) processes \<Rightarrow> bool" for n where
  stop: "processes_reach n st [] st"
| go: "process_step n p st st' \<Longrightarrow> processes_reach n st' run st'' \<Longrightarrow> processes_reach n st ((p, st') # run) st''"

text \<open>A process is in its critical section.\<close>

definition holds_lock :: "('k, 'v) processes \<Rightarrow> nat \<Rightarrow> bool" where
  "holds_lock st p \<longleftrightarrow> at_place st p \<noteq> Outside"

section \<open>Sequential histories\<close>

text \<open>
  The calls one after the other on the abstract map: each has the answer the contract gives; an
  interrupted one has no effect.
\<close>

fun sequential ::
  "nat \<Rightarrow> ('k \<rightharpoonup> 'v) \<Rightarrow> (nat \<times> ('k, 'v) map_op \<times> (shmem_error + 'v result)) list \<Rightarrow> ('k \<rightharpoonup> 'v) \<Rightarrow> bool" where
  "sequential room c [] c' = (c' = c)"
| "sequential room c ((p, op, r) # calls) c' =
     ((\<exists>e. r = Inl (SemaphoreError e)) \<and> sequential room c calls c' \<or>
      r = snd (map_spec room op c) \<and> sequential room (fst (map_spec room op c)) calls c')"

lemma sequential_append:
  "sequential room c (xs @ ys) c' \<longleftrightarrow> (\<exists>c1. sequential room c xs c1 \<and> sequential room c1 ys c')"
  by (induction room c xs c' arbitrary: rule: sequential.induct) auto

section \<open>The invariant\<close>

lemma map_body_refines:
  assumes "map_inv n (set_sem 1 m)" "geometry n (heap m)"
  shows "contents (fst (map_body n op m)) = fst (map_spec (capacity n (heap m)) op (contents m)) \<and>
    snd (map_body n op m) = snd (map_spec (capacity n (heap m)) op (contents m)) \<and>
    map_inv n (fst (map_body n op m)) \<and> geometry n (heap (fst (map_body n op m))) \<and>
    capacity n (heap (fst (map_body n op m))) = capacity n (heap m)"
  using SharedMap_op_refines[of n "set_sem 1 m" op] assms
  by (auto simp: map_body_def contents_def)

text \<open>What the shared map is like while a process is at a place of its call.\<close>

fun at_place_ok ::
  "nat \<Rightarrow> ('k \<rightharpoonup> 'v) \<Rightarrow> ('k, 'v) SharedMap \<Rightarrow> ('k, 'v) place_in_call \<Rightarrow> bool" where
  "at_place_ok n c m Outside \<longleftrightarrow> False"
| "at_place_ok n c m (Locked op) \<longleftrightarrow> map_inv n (set_sem 1 m) \<and> geometry n (heap m) \<and> contents m = c"
| "at_place_ok n c m (Loaded op m0) \<longleftrightarrow>
     m = m0 \<and> map_inv n (set_sem 1 m0) \<and> geometry n (heap m0) \<and> contents m0 = c"
| "at_place_ok n c m (HeapWritten op m0) \<longleftrightarrow>
     m = m0\<lparr>heap := heap (fst (map_body n op m0))\<rparr> \<and>
     map_inv n (set_sem 1 m0) \<and> geometry n (heap m0) \<and> contents m0 = c"
| "at_place_ok n c m Unlocking \<longleftrightarrow> map_inv n (set_sem 1 m) \<and> geometry n (heap m) \<and> contents m = c"

definition processes_inv :: "nat \<Rightarrow> nat \<Rightarrow> ('k \<rightharpoonup> 'v) \<Rightarrow> ('k, 'v) processes \<Rightarrow> bool" where
  "processes_inv n room c0 st \<longleftrightarrow> capacity n (heap (shared st)) = room \<and>
     (\<exists>c. sequential room c0 (history st) c \<and>
       (if semaphore (shared st) = 0
        then \<exists>p. (\<forall>q. holds_lock st q \<longleftrightarrow> q = p) \<and> at_place_ok n c (shared st) (at_place st p)
        else semaphore (shared st) = 1 \<and> (\<forall>q. \<not> holds_lock st q) \<and>
          map_inv n (shared st) \<and> geometry n (heap (shared st)) \<and> contents (shared st) = c))"

lemma processes_inv_free:
  assumes "processes_inv n room c0 st" "semaphore (shared st) \<noteq> 0"
  obtains c where "sequential room c0 (history st) c" "\<forall>q. at_place st q = Outside"
    "semaphore (shared st) = 1" "map_inv n (shared st)" "geometry n (heap (shared st))"
    "contents (shared st) = c" "capacity n (heap (shared st)) = room"
  using assms by (auto simp: processes_inv_def holds_lock_def)

lemma processes_inv_held:
  assumes "processes_inv n room c0 st" "at_place st p \<noteq> Outside"
  obtains c where "sequential room c0 (history st) c" "\<forall>q. q \<noteq> p \<longrightarrow> at_place st q = Outside"
    "semaphore (shared st) = 0" "at_place_ok n c (shared st) (at_place st p)"
    "capacity n (heap (shared st)) = room"
proof -
  have "semaphore (shared st) = 0"
    using processes_inv_free[OF assms(1)] assms(2) by metis
  with assms obtain c r where "sequential room c0 (history st) c" "\<forall>q. holds_lock st q \<longleftrightarrow> q = r"
      "at_place_ok n c (shared st) (at_place st r)" "capacity n (heap (shared st)) = room"
    by (auto simp: processes_inv_def)
  moreover from this(2) have "r = p" using assms(2) by (auto simp: holds_lock_def)
  ultimately show thesis using \<open>semaphore (shared st) = 0\<close> by (intro that[of c]) (auto simp: holds_lock_def)
qed

lemma processes_inv_heldI:
  assumes "sequential room c0 (history st) c" "\<forall>q. q \<noteq> p \<longrightarrow> at_place st q = Outside"
    and "semaphore (shared st) = 0" "at_place st p \<noteq> Outside"
    and "at_place_ok n c (shared st) (at_place st p)" "capacity n (heap (shared st)) = room"
  shows "processes_inv n room c0 st"
  using assms by (auto simp: processes_inv_def holds_lock_def)

lemma processes_inv_freeI:
  assumes "sequential room c0 (history st) (contents (shared st))" "\<forall>q. at_place st q = Outside"
    and "map_inv n (shared st)" "geometry n (heap (shared st))" "capacity n (heap (shared st)) = room"
  shows "processes_inv n room c0 st"
proof -
  have "semaphore (shared st) = 1" using assms(3) by (simp add: map_inv_def)
  then show ?thesis using assms by (simp add: processes_inv_def holds_lock_def)
qed

lemma set_sem_same: "semaphore m = s \<Longrightarrow> set_sem s m = m"
  by (cases m) simp

lemma contents_other [simp]:
  "contents (set_sem s m) = contents m" "contents (m\<lparr>heap := h\<rparr>) = contents m"
  by (simp_all add: contents_def)

lemma process_step_inv:
  assumes "process_step n p st st'" "processes_inv n room c0 st"
  shows "processes_inv n room c0 st'"
  using assms(1)
proof cases
  case (locks s op)
  then have "semaphore (shared st) \<noteq> 0" "s = semaphore (shared st) - 1"
    by (auto simp: Semaphore_wait_def split: if_splits)
  moreover obtain c where "sequential room c0 (history st) c" "\<forall>q. at_place st q = Outside"
    "semaphore (shared st) = 1" "map_inv n (shared st)" "geometry n (heap (shared st))"
    "contents (shared st) = c" "capacity n (heap (shared st)) = room"
    by (rule processes_inv_free[OF assms(2) calculation(1)])
  ultimately show ?thesis
    unfolding locks(1) by (intro processes_inv_heldI[where p = p and c = c]) (simp_all add: set_sem_same)
next
  case (interrupted e s r op)
  then have "set_sem s (shared st) = shared st" "r = SemaphoreError e"
    by (auto simp: Semaphore_defs set_sem_same)
  then have "processes_inv n room c0 (st\<lparr>history := history st @ [(p, op, Inl (SemaphoreError e))]\<rparr>)"
    using assms(2) by (auto simp: processes_inv_def holds_lock_def sequential_append)
  then show ?thesis unfolding interrupted(1) using \<open>set_sem s (shared st) = shared st\<close> \<open>r = SemaphoreError e\<close>
    by simp
next
  case (loads op)
  then have "at_place st p \<noteq> Outside" by simp
  then obtain c where "sequential room c0 (history st) c" "\<forall>q. q \<noteq> p \<longrightarrow> at_place st q = Outside"
    "semaphore (shared st) = 0" "at_place_ok n c (shared st) (at_place st p)"
    "capacity n (heap (shared st)) = room"
    by (rule processes_inv_held[OF assms(2)])
  then show ?thesis unfolding loads(1) using loads(2)
    by (intro processes_inv_heldI[where p = p and c = c]) simp_all
next
  case (writes_heap op m)
  then have "at_place st p \<noteq> Outside" by simp
  then obtain c where "sequential room c0 (history st) c" "\<forall>q. q \<noteq> p \<longrightarrow> at_place st q = Outside"
    "semaphore (shared st) = 0" "at_place_ok n c (shared st) (at_place st p)"
    "capacity n (heap (shared st)) = room"
    by (rule processes_inv_held[OF assms(2)])
  then show ?thesis unfolding writes_heap(1) using writes_heap(2) map_body_refines[of n m op]
    by (intro processes_inv_heldI[where p = p and c = c]) simp_all
next
  case (writes_nodes op m)
  let ?m' = "fst (map_body n op m)"
  have "at_place st p \<noteq> Outside" using writes_nodes by simp
  then obtain c where inv: "sequential room c0 (history st) c" "\<forall>q. q \<noteq> p \<longrightarrow> at_place st q = Outside"
    "semaphore (shared st) = 0" "at_place_ok n c (shared st) (at_place st p)"
    "capacity n (heap (shared st)) = room"
    by (rule processes_inv_held[OF assms(2)])
  have body: "contents ?m' = fst (map_spec (capacity n (heap m)) op (contents m))"
    "snd (map_body n op m) = snd (map_spec (capacity n (heap m)) op (contents m))"
    "map_inv n ?m'" "geometry n (heap ?m')" "capacity n (heap ?m') = capacity n (heap m)"
    using map_body_refines[of n m op] inv(4) writes_nodes(2) by simp_all
  have m: "contents m = c" "shared st = m\<lparr>heap := heap ?m'\<rparr>" using inv(4) writes_nodes(2) by simp_all
  have room: "capacity n (heap m) = room" using inv(5) m body(5) by simp
  have "semaphore ?m' = 1" using body(3) by (simp add: map_inv_def)
  then have whole: "set_sem 1 ((shared st)\<lparr>nodes := nodes ?m'\<rparr>) = ?m'" using m(2)
    by (intro SharedMap.equality) simp_all
  have "sequential room c0 (history st @ [(p, op, snd (map_body n op m))]) (contents ?m')"
    using inv(1) body(1,2) m(1) room by (auto simp: sequential_append)
  moreover have "contents ((shared st)\<lparr>nodes := nodes ?m'\<rparr>) = contents ?m'" by (simp add: contents_def)
  ultimately show ?thesis unfolding writes_nodes(1)
    using inv(2,3) whole body(3,4,5) m(2) room
    by (intro processes_inv_heldI[where p = p and c = "contents ?m'"]) simp_all
next
  case unlocks
  then have "at_place st p \<noteq> Outside" by simp
  then obtain c where "sequential room c0 (history st) c" "\<forall>q. q \<noteq> p \<longrightarrow> at_place st q = Outside"
    "semaphore (shared st) = 0" "at_place_ok n c (shared st) (at_place st p)"
    "capacity n (heap (shared st)) = room"
    by (rule processes_inv_held[OF assms(2)])
  then show ?thesis unfolding unlocks(1) using unlocks(2)
    by (intro processes_inv_freeI) (simp_all add: Semaphore_defs)
qed

lemma processes_reach_inv:
  assumes "processes_reach n st run st'" "processes_inv n room c0 st"
  shows "processes_inv n room c0 st'"
  using assms by induction (auto dest: process_step_inv)

section \<open>Progress\<close>

lemma processes_reach_append:
  assumes "processes_reach n st xs st1" "processes_reach n st1 ys st2"
  shows "processes_reach n st (xs @ ys) st2"
  using assms by induction (auto intro: processes_reach.intros)

lemma processes_reach_step: "process_step n p st st' \<Longrightarrow> processes_reach n st [(p, st')] st'"
  by (auto intro: processes_reach.intros)

text \<open>Inside its call a process needs no other: at most four steps of its own end it.\<close>

lemma unlocking_ends:
  assumes "at_place st p = Unlocking"
  shows "\<exists>st'. processes_reach n st [(p, st')] st' \<and> at_place st' p = Outside"
  using processes_reach_step[OF unlocks[OF assms, of n]] by force

lemma call_ends:
  assumes "at_place st p \<noteq> Outside"
  shows "\<exists>run st'. processes_reach n st run st' \<and> at_place st' p = Outside \<and>
    length run \<le> 4 \<and> (\<forall>x\<in>set run. fst x = p)"
proof -
  define ends where "ends k st \<longleftrightarrow> (\<exists>run st'. processes_reach n st run st' \<and> at_place st' p = Outside \<and>
    length run \<le> k \<and> (\<forall>x\<in>set run. fst x = p))" for k :: nat and st :: "('a, 'b) processes"
  have later: "ends (Suc k) st" if step: "process_step n p st st'" and "ends k st'" for k st st'
  proof -
    obtain run st2 where "processes_reach n st' run st2" "at_place st2 p = Outside" "length run \<le> k"
      "\<forall>x\<in>set run. fst x = p" using \<open>ends k st'\<close> unfolding ends_def by blast
    then show ?thesis unfolding ends_def using go[OF step]
      by (intro exI[of _ "(p, st') # run"] exI[of _ st2]) simp
  qed
  have more: "ends k st" if "ends j st" "j \<le> k" for j k st
    using that unfolding ends_def by (meson order_trans)
  have 1: "ends 1 st" if "at_place st p = Unlocking" for st
    using unlocking_ends[OF that, of n] unfolding ends_def by fastforce
  have 2: "ends 2 st" if "at_place st p = HeapWritten op m" for st op m
    using later[OF writes_nodes[OF that] 1] by (simp add: numeral_2_eq_2)
  have 3: "ends 3 st" if "at_place st p = Loaded op m" for st op m
    using later[OF writes_heap[OF that] 2] by (simp add: numeral_3_eq_3 numeral_2_eq_2)
  have 4: "ends 4 st" if "at_place st p = Locked op" for st op
    using later[OF loads[OF that] 3] by (simp add: numeral_eq_Suc)
  have "ends 4 st"
    using assms more[OF 1] more[OF 2] more[OF 3] 4 by (cases "at_place st p") auto
  then show ?thesis unfolding ends_def .
qed

text \<open>Any other process can only be interrupted while it waits.\<close>

definition refused :: "nat \<times> ('k, 'v) map_op \<times> (shmem_error + 'v result) \<Rightarrow> bool" where
  "refused call \<longleftrightarrow> (\<exists>e. snd (snd call) = Inl (SemaphoreError e))"

lemma waiting_step:
  assumes "process_step n q st st'" "processes_inv n room c0 st" "holds_lock st p" "q \<noteq> p"
  shows "shared st' = shared st \<and> at_place st' = at_place st \<and>
    (\<exists>call. refused call \<and> history st' = history st @ [call])"
proof -
  have "at_place st p \<noteq> Outside" using assms(3) by (simp add: holds_lock_def)
  then obtain c where "\<forall>q. q \<noteq> p \<longrightarrow> at_place st q = Outside" "semaphore (shared st) = 0"
    by (rule processes_inv_held[OF assms(2)])
  with assms(1,4) show ?thesis
    by (auto elim!: process_stepE simp: Semaphore_defs set_sem_same refused_def)
qed

lemma waiting_run:
  assumes "processes_reach n st run st'" "processes_inv n room c0 st" "holds_lock st p"
    and "p \<notin> fst ` set run"
  shows "shared st' = shared st \<and> at_place st' = at_place st \<and>
    (\<exists>calls. list_all refused calls \<and> history st' = history st @ calls)"
  using assms
proof induction
  case (stop st)
  then show ?case by (intro conjI exI[of _ "[]"]) auto
next
  case (go q st st1 run st2)
  then have first: "shared st1 = shared st" "at_place st1 = at_place st"
    and "\<exists>call. refused call \<and> history st1 = history st @ [call]"
    using waiting_step[OF go(1) go.prems(1,2)] by auto
  then obtain call where call: "refused call" "history st1 = history st @ [call]" by blast
  have "processes_inv n room c0 st1" using process_step_inv[OF go(1) go.prems(1)] .
  moreover have "holds_lock st1 p" using go.prems(2) first by (simp add: holds_lock_def)
  ultimately obtain calls where "shared st2 = shared st1" "at_place st2 = at_place st1"
      "list_all refused calls" "history st2 = history st1 @ calls"
    using go.IH go.prems(3) by auto
  then show ?case using first call by (intro conjI exI[of _ "call # calls"]) auto
qed

text \<open>A free lock can be taken, and the call then runs to its end.\<close>

lemma processes_new_inv:
  "map_inv n m \<Longrightarrow> geometry n (heap m) \<Longrightarrow>
   processes_inv n (capacity n (heap m)) (contents m) (processes_new m)"
  by (intro processes_inv_freeI) (simp_all add: processes_new_def)

lemma whole_call:
  assumes "at_place st p = Outside" "semaphore (shared st) = 1"
  shows "\<exists>run st'. processes_reach n st run st' \<and> at_place st' = at_place st \<and>
    history st' = history st @ [(p, op, snd (map_body n op (set_sem 0 (shared st))))]"
proof -
  let ?m = "set_sem 0 (shared st)"
  let ?m' = "fst (map_body n op ?m)"
  let ?s1 = "moves p (Locked op) (st\<lparr>shared := ?m\<rparr>)"
  let ?s2 = "moves p (Loaded op ?m) ?s1"
  let ?s3 = "moves p (HeapWritten op ?m) (?s2\<lparr>shared := ?m\<lparr>heap := heap ?m'\<rparr>\<rparr>)"
  let ?s4 = "moves p Unlocking (?s3\<lparr>shared := (shared ?s3)\<lparr>nodes := nodes ?m'\<rparr>,
    history := history st @ [(p, op, snd (map_body n op ?m))]\<rparr>)"
  let ?s5 = "moves p Outside (?s4\<lparr>shared := set_sem (SemLock_delete None (semaphore (shared ?s4))) (shared ?s4)\<rparr>)"
  have "process_step n p st ?s1" using locks[OF assms(1), of 0 n op] assms(2) by (simp add: Semaphore_wait_def)
  moreover have "process_step n p ?s1 ?s2" using loads[of ?s1 p op n] by simp
  moreover have "process_step n p ?s2 ?s3" using writes_heap[of ?s2 p op ?m n] by simp
  moreover have "process_step n p ?s3 ?s4" using writes_nodes[of ?s3 p op ?m n] by simp
  moreover have "process_step n p ?s4 ?s5" using unlocks[of ?s4 p n] by simp
  ultimately have "processes_reach n st [(p, ?s1), (p, ?s2), (p, ?s3), (p, ?s4), (p, ?s5)] ?s5"
    by (intro processes_reach.intros)
  moreover have "at_place ?s5 = at_place st" using assms(1) by auto
  moreover have "history ?s5 = history st @ [(p, op, snd (map_body n op ?m))]" by simp
  ultimately show ?thesis by blast
qed

section \<open>Properties\<close>

text \<open>
  C18: Calls of several processes are calls one after the other. However the steps of any number
  of processes interleave, at most one is between its lock and its unlock; the answers they have
  got are those the abstract map gives when it makes the calls of the history in this order,
  calls whose wait was interrupted left out; and whenever no process is inside, the shared map
  satisfies its invariant and holds the contents of that order.
\<close>

theorem calls_linearize:
  assumes "map_inv n m" "geometry n (heap m)" "processes_reach n (processes_new m) run st"
  shows "(\<forall>p q. holds_lock st p \<longrightarrow> holds_lock st q \<longrightarrow> p = q) \<and>
    (\<exists>c. sequential (capacity n (heap m)) (contents m) (history st) c \<and>
       ((\<forall>p. \<not> holds_lock st p) \<longrightarrow> map_inv n (shared st) \<and> contents (shared st) = c))"
proof -
  have inv: "processes_inv n (capacity n (heap m)) (contents m) st"
    using processes_reach_inv[OF assms(3) processes_new_inv[OF assms(1,2)]] .
  then have "semaphore (shared st) = 0 \<or> semaphore (shared st) = 1"
    by (auto simp: processes_inv_def split: if_splits)
  then show ?thesis using inv by (auto simp: processes_inv_def)
qed

text \<open>The first process inserts into a map with one place.\<close>

definition small_map :: "(nat, nat) SharedMap" where
  "small_map = SharedMap_new 0 32 32 48 48 1"

lemma small_map_ok:
  "map_inv 48 small_map" "geometry 48 (heap small_map)" "capacity 48 (heap small_map) = 1"
  "contents small_map = Map.empty" "semaphore small_map = 1"
  unfolding small_map_def
  by (rule map_inv_new) (simp_all add: geometry_def capacity_def node_blocks_def SharedMap_new_def Let_def
      ShMemState_new_def get_size_in_blocks_exact contents_def)

lemma small_map_insert:
  "snd (map_body 48 (Insert 7 8) (set_sem 0 small_map)) = Inr (Bool True)"
  using map_body_refines[of 48 "set_sem 0 small_map" "Insert 7 8"] small_map_ok by (simp add: set_sem_same)

theorem calls_linearize_witness:
  "\<exists>run st. processes_reach 48 (processes_new small_map) run st \<and>
    history st = [(0, Insert 7 8, Inr (Bool True))] \<and> contents (shared st) = [7 \<mapsto> 8]"
proof -
  obtain run st where st: "processes_reach 48 (processes_new small_map) run st"
      "at_place st = (\<lambda>_. Outside)" "history st = [(0, Insert 7 8, Inr (Bool True))]"
    using whole_call[of "processes_new small_map" 0 48 "Insert 7 8"] small_map_ok(5) small_map_insert
    by (auto simp: processes_new_def)
  show ?thesis
    using calls_linearize[OF small_map_ok(1,2) st(1)] st small_map_ok(3,4)
    by (auto simp: holds_lock_def)
qed

text \<open>
  The lock depends on the process that holds it, and on no other. From every reachable state
  in which a process is inside its call, at most four of its own steps bring it out, whatever
  the other processes have done; but in a run without a step of this process, for instance when
  it has been killed, the shared map stays as it was left, in the middle of a call, and every
  call of another process waits or throws.
\<close>

lemma lock_rests_on_holder:
  assumes "map_inv n m" "geometry n (heap m)" "processes_reach n (processes_new m) run0 st"
    and "holds_lock st p"
  shows "(\<exists>run st'. processes_reach n st run st' \<and> \<not> holds_lock st' p \<and> length run \<le> 4 \<and>
      (\<forall>x\<in>set run. fst x = p)) \<and>
    (\<forall>run st'. processes_reach n st run st' \<longrightarrow> p \<notin> fst ` set run \<longrightarrow>
      shared st' = shared st \<and> at_place st' = at_place st \<and>
      (\<exists>calls. list_all refused calls \<and> history st' = history st @ calls))"
proof
  have inv: "processes_inv n (capacity n (heap m)) (contents m) st"
    using processes_reach_inv[OF assms(3) processes_new_inv[OF assms(1,2)]] .
  show "\<exists>run st'. processes_reach n st run st' \<and> \<not> holds_lock st' p \<and> length run \<le> 4 \<and>
      (\<forall>x\<in>set run. fst x = p)"
    using call_ends[of st p n] assms(4) by (simp add: holds_lock_def)
  show "\<forall>run st'. processes_reach n st run st' \<longrightarrow> p \<notin> fst ` set run \<longrightarrow>
      shared st' = shared st \<and> at_place st' = at_place st \<and>
      (\<exists>calls. list_all refused calls \<and> history st' = history st @ calls)"
    using waiting_run[OF _ inv assms(4)] by blast
qed

end
