(* ===== verification/Shared_Strings.thy ===== *)
theory Shared_Strings
  imports Shared_Map "HOL-Library.Multiset"
begin

text \<open>
  The shared map of \<^verbatim>\<open>4.shmem/include/shmap.h\<close> for keys and values that are strings. \<^verbatim>\<open>convert\<close>
  copies the caller's string into a string over the shared allocator: every call makes such
  temporaries in the same blocks as the nodes live in, and \<^verbatim>\<open>at\<close> hands a copy to its caller.

  A key or a value is generic here. What makes it a string is the number of characters its copy
  asks the allocator for, a parameter of the model: \<^verbatim>\<open>0\<close> for a type that is no string, and for a
  string that the object holds in itself. \<^verbatim>\<open>string_chars\<close> is this number for a library that keeps
  up to \<^verbatim>\<open>sso\<close> characters in the object.
\<close>

section \<open>Objects over the shared allocator\<close>

text \<open>
  \<^verbatim>\<open>key_type\<close> and \<^verbatim>\<open>mapped_type\<close>: the value, and the address and number of the characters the
  object owns, if any.
\<close>

record 'a ShObject =
  obj_value :: 'a
  obj_chars :: "(nat \<times> nat) option"

definition string_chars :: "nat \<Rightarrow> string \<Rightarrow> nat" where
  "string_chars sso s = (if length s \<le> sso then 0 else length s + 1)"

definition convert ::
  "('a \<Rightarrow> nat) \<Rightarrow> 'a \<Rightarrow> ShMemState \<Rightarrow> (shmem_error + 'a ShObject) \<times> ShMemState" where
  "convert chars obj h =
     (if chars obj = 0 then (Inr \<lparr>obj_value = obj, obj_chars = None\<rparr>, h)
      else case ShAlloc_allocate (1, chars obj) h of
             None \<Rightarrow> (Inl BadAlloc, h)
           | Some (a, h) \<Rightarrow> (Inr \<lparr>obj_value = obj, obj_chars = Some (a, chars obj)\<rparr>, h))"

text \<open>The copy constructor, the destructor, and the object a move leaves behind.\<close>

definition ShObject_copy ::
  "('a \<Rightarrow> nat) \<Rightarrow> 'a ShObject \<Rightarrow> ShMemState \<Rightarrow> (shmem_error + 'a ShObject) \<times> ShMemState" where
  "ShObject_copy chars t = convert chars (obj_value t)"

definition ShObject_delete :: "'a ShObject \<Rightarrow> ShMemState \<Rightarrow> ShMemState" where
  "ShObject_delete t h =
     (case obj_chars t of None \<Rightarrow> h | Some (a, c) \<Rightarrow> ShAlloc_deallocate a (1, c) h)"

definition ShObject_moved :: "'a ShObject \<Rightarrow> 'a ShObject" where
  "ShObject_moved t = t\<lparr>obj_chars := None\<rparr>"

text \<open>
  The move assignment between objects of one allocator: characters of its own the source gives
  away for those of the target; a value held in the source itself is copied over the target's
  characters, which the target keeps.
\<close>

definition ShObject_move_assign :: "'a ShObject \<Rightarrow> 'a ShObject \<Rightarrow> 'a ShObject \<times> 'a ShObject" where
  "ShObject_move_assign dst src =
     (case obj_chars src of
        None \<Rightarrow> (dst\<lparr>obj_value := obj_value src\<rparr>, src)
      | Some s \<Rightarrow> (src, src\<lparr>obj_chars := obj_chars dst\<rparr>))"

section \<open>The calls\<close>

type_synonym ('k, 'v) StringMap = "('k ShObject, 'v ShObject) SharedMap"

type_synonym ('k, 'v) node = "'k ShObject \<times> 'v ShObject \<times> nat"

text \<open>
  A temporary around the rest of a statement: it is destroyed when the rest is done, also when
  it throws. The rest returns what it made of the temporary.
\<close>

definition with_temporary ::
  "('a \<Rightarrow> nat) \<Rightarrow> 'a \<Rightarrow>
   ('a ShObject \<Rightarrow> ('k, 'v) StringMap \<Rightarrow> ('k, 'v) StringMap \<times> 'a ShObject \<times> (shmem_error + 'r)) \<Rightarrow>
   ('k, 'v) StringMap \<Rightarrow> ('k, 'v) StringMap \<times> (shmem_error + 'r)" where
  "with_temporary chars obj rest m =
     (case convert chars obj (heap m) of
        (Inl e, h) \<Rightarrow> (m\<lparr>heap := h\<rparr>, Inl e)
      | (Inr t, h) \<Rightarrow>
          let (m, t, r) = rest t (m\<lparr>heap := h\<rparr>)
          in (m\<lparr>heap := ShObject_delete t (heap m)\<rparr>, r))"

fun find_object :: "'k \<Rightarrow> ('k, 'v) node list \<Rightarrow> ('k, 'v) node option" where
  "find_object k [] = None"
| "find_object k (x # xs) = (if obj_value (fst x) = k then Some x else find_object k xs)"

definition StringMap_count ::
  "('k \<Rightarrow> nat) \<Rightarrow> errno option \<Rightarrow> 'k \<Rightarrow> ('k, 'v) StringMap \<Rightarrow>
   (('k, 'v) StringMap \<times> (shmem_error + nat)) option" where
  "StringMap_count kc fault k =
     sem_lock fault (with_temporary kc k (\<lambda>t m.
       (m, t, Inr (case find_object (obj_value t) (nodes m) of None \<Rightarrow> 0 | Some _ \<Rightarrow> 1))))"

definition set_object ::
  "'k \<Rightarrow> 'v ShObject \<Rightarrow> ('k, 'v) node list \<Rightarrow> ('k, 'v) node list" where
  "set_object k v ns = map (\<lambda>(k', v', a). if obj_value k' = k then (k', v, a) else (k', v', a)) ns"

text \<open>The right operand of the assignment is evaluated first, the temporaries die in reverse.\<close>

definition assign_object ::
  "'v ShObject \<Rightarrow> 'k ShObject \<Rightarrow> ('k, 'v) StringMap \<Rightarrow>
   ('k, 'v) StringMap \<times> 'k ShObject \<times> (shmem_error + 'v ShObject)" where
  "assign_object tv tk m =
     (case find_object (obj_value tk) (nodes m) of
        None \<Rightarrow> (m, tk, Inl OutOfRange)
      | Some (k, v, a) \<Rightarrow>
          let (v', tv') = ShObject_move_assign v tv
          in (m\<lparr>nodes := set_object (obj_value tk) v' (nodes m)\<rparr>, tk, Inr tv'))"

definition StringMap_update ::
  "('k \<Rightarrow> nat) \<Rightarrow> ('v \<Rightarrow> nat) \<Rightarrow> errno option \<Rightarrow> 'k \<Rightarrow> 'v \<Rightarrow> ('k, 'v) StringMap \<Rightarrow>
   (('k, 'v) StringMap \<times> (shmem_error + unit)) option" where
  "StringMap_update kc vc fault key val =
     sem_lock fault (with_temporary vc val (\<lambda>tv m.
       let (m, r) = with_temporary kc key (assign_object tv) m
       in case r of Inl e \<Rightarrow> (m, tv, Inl e) | Inr tv' \<Rightarrow> (m, tv', Inr ())))"

text \<open>
  The pair that is inserted takes the two temporaries. Its key is constant, so the node copies
  the key and moves the value; when the copy of the key fails, the node is given back.
\<close>

definition insert_node ::
  "('k \<Rightarrow> nat) \<Rightarrow> nat \<Rightarrow> 'k ShObject \<Rightarrow> 'v ShObject \<Rightarrow> ('k, 'v) StringMap \<Rightarrow>
   ('k, 'v) StringMap \<times> 'v ShObject \<times> (shmem_error + bool)" where
  "insert_node kc node_size tk tv m =
     (case find_object (obj_value tk) (nodes m) of
        Some _ \<Rightarrow> (m, tv, Inr False)
      | None \<Rightarrow>
          (case ShAlloc_allocate (node_size, 1) (heap m) of
             None \<Rightarrow> (m, tv, Inl BadAlloc)
           | Some (a, h) \<Rightarrow>
               (case ShObject_copy kc tk h of
                  (Inl e, h) \<Rightarrow> (m\<lparr>heap := ShAlloc_deallocate a (node_size, 1) h\<rparr>, tv, Inl e)
                | (Inr k, h) \<Rightarrow>
                    (m\<lparr>heap := h, nodes := (k, tv, a) # nodes m\<rparr>, ShObject_moved tv, Inr True))))"

definition StringMap_insert ::
  "('k \<Rightarrow> nat) \<Rightarrow> ('v \<Rightarrow> nat) \<Rightarrow> nat \<Rightarrow> errno option \<Rightarrow> 'k \<times> 'v \<Rightarrow> ('k, 'v) StringMap \<Rightarrow>
   (('k, 'v) StringMap \<times> (shmem_error + bool)) option" where
  "StringMap_insert kc vc node_size fault v =
     sem_lock fault (with_temporary kc (fst v) (\<lambda>tk m.
       let (m, r) = with_temporary vc (snd v) (insert_node kc node_size tk) m in (m, tk, r)))"

definition StringMap_at ::
  "('k \<Rightarrow> nat) \<Rightarrow> ('v \<Rightarrow> nat) \<Rightarrow> errno option \<Rightarrow> 'k \<Rightarrow> ('k, 'v) StringMap \<Rightarrow>
   (('k, 'v) StringMap \<times> (shmem_error + 'v ShObject)) option" where
  "StringMap_at kc vc fault k =
     sem_lock fault (with_temporary kc k (\<lambda>t m.
       case find_object (obj_value t) (nodes m) of
         None \<Rightarrow> (m, t, Inl OutOfRange)
       | Some (k', v, a) \<Rightarrow>
           let (r, h) = ShObject_copy vc v (heap m) in (m\<lparr>heap := h\<rparr>, t, r)))"

text \<open>The caller's object dies outside of the lock.\<close>

definition StringMap_drop :: "'v ShObject \<Rightarrow> ('k, 'v) StringMap \<Rightarrow> ('k, 'v) StringMap" where
  "StringMap_drop t m = m\<lparr>heap := ShObject_delete t (heap m)\<rparr>"

fun node_delete :: "nat \<Rightarrow> ('k, 'v) node \<Rightarrow> ShMemState \<Rightarrow> ShMemState" where
  "node_delete node_size (k, v, a) h =
     ShAlloc_deallocate a (node_size, 1) (ShObject_delete k (ShObject_delete v h))"

definition StringMap_erase ::
  "('k \<Rightarrow> nat) \<Rightarrow> nat \<Rightarrow> errno option \<Rightarrow> 'k \<Rightarrow> ('k, 'v) StringMap \<Rightarrow>
   (('k, 'v) StringMap \<times> (shmem_error + nat)) option" where
  "StringMap_erase kc node_size fault k =
     sem_lock fault (with_temporary kc k (\<lambda>t m.
       case find_object (obj_value t) (nodes m) of
         None \<Rightarrow> (m, t, Inr 0)
       | Some x \<Rightarrow>
           (m\<lparr>heap := node_delete node_size x (heap m), nodes := remove1 x (nodes m)\<rparr>, t, Inr 1)))"

definition StringMap_destroy :: "nat \<Rightarrow> ('k, 'v) StringMap \<Rightarrow> ('k, 'v) StringMap" where
  "StringMap_destroy node_size m =
     m\<lparr>heap := fold (node_delete node_size) (nodes m) (heap m), nodes := []\<rparr>"

fun StringMap_op ::
  "('k \<Rightarrow> nat) \<Rightarrow> ('v \<Rightarrow> nat) \<Rightarrow> nat \<Rightarrow> errno option \<Rightarrow> ('k, 'v) map_op \<Rightarrow> ('k, 'v) StringMap \<Rightarrow>
   (('k, 'v) StringMap \<times> (shmem_error + 'v ShObject result)) option" where
  "StringMap_op kc vc n fault (Count k) m = answer Nat (StringMap_count kc fault k m)"
| "StringMap_op kc vc n fault (Update k v) m = answer (\<lambda>_. Unit) (StringMap_update kc vc fault k v m)"
| "StringMap_op kc vc n fault (Insert k v) m = answer Bool (StringMap_insert kc vc n fault (k, v) m)"
| "StringMap_op kc vc n fault (At k) m = answer Val (StringMap_at kc vc fault k m)"
| "StringMap_op kc vc n fault (Erase k) m = answer Nat (StringMap_erase kc n fault k m)"
| "StringMap_op kc vc n fault Size m = answer Nat (SharedMap_size fault m)"

section \<open>Claims on the heap\<close>

text \<open>The live requests of a heap, in no order.\<close>

definition heap_for :: "ShMemState \<Rightarrow> (nat \<times> nat \<times> nat) multiset \<Rightarrow> bool" where
  "heap_for h M \<longleftrightarrow> (\<exists>live. heap_run h live \<and> mset live = M)"

definition claims :: "'a ShObject \<Rightarrow> (nat \<times> nat \<times> nat) multiset" where
  "claims t = (case obj_chars t of None \<Rightarrow> {#} | Some (a, c) \<Rightarrow> {#(a, 1, c)#})"

fun node_claims :: "nat \<Rightarrow> ('k, 'v) node \<Rightarrow> (nat \<times> nat \<times> nat) multiset" where
  "node_claims n (k, v, a) = add_mset (a, n, 1) (claims k + claims v)"

definition map_claims :: "nat \<Rightarrow> ('k, 'v) node list \<Rightarrow> (nat \<times> nat \<times> nat) multiset" where
  "map_claims n ns = \<Sum>\<^sub># (image_mset (node_claims n) (mset ns))"

fun result_claims :: "shmem_error + 'v ShObject result \<Rightarrow> (nat \<times> nat \<times> nat) multiset" where
  "result_claims (Inr (Val t)) = claims t"
| "result_claims r = {#}"

text \<open>An object whose value needs characters owns at least as many.\<close>

definition obj_ok :: "('a \<Rightarrow> nat) \<Rightarrow> 'a ShObject \<Rightarrow> bool" where
  "obj_ok chars t \<longleftrightarrow> chars (obj_value t) \<le> (case obj_chars t of None \<Rightarrow> 0 | Some (a, c) \<Rightarrow> c)"

definition nodes_ok :: "('k \<Rightarrow> nat) \<Rightarrow> ('v \<Rightarrow> nat) \<Rightarrow> ('k, 'v) node list \<Rightarrow> bool" where
  "nodes_ok kc vc ns \<longleftrightarrow> distinct (map (obj_value \<circ> fst) ns) \<and>
     (\<forall>(k, v, a)\<in>set ns. obj_ok kc k \<and> obj_ok vc v)"

definition node_contents :: "('k, 'v) node list \<Rightarrow> 'k \<rightharpoonup> 'v" where
  "node_contents ns k = map_option (\<lambda>(k, v, a). obj_value v) (find_object k ns)"

text \<open>
  The invariant of a map and of the objects its callers hold: the lock is free, and the live
  requests are those of the nodes, of their keys and values, and of the callers' objects.
\<close>

definition strings_inv ::
  "('k \<Rightarrow> nat) \<Rightarrow> ('v \<Rightarrow> nat) \<Rightarrow> nat \<Rightarrow> (nat \<times> nat \<times> nat) multiset \<Rightarrow> ('k, 'v) StringMap \<Rightarrow> bool" where
  "strings_inv kc vc n held m \<longleftrightarrow> semaphore m = 1 \<and> nodes_ok kc vc (nodes m) \<and>
     heap_for (heap m) (map_claims n (nodes m) + held)"

text \<open>
  What a call may do: what the map without a bound does, or refuse for want of room and change
  nothing.
\<close>

definition string_call ::
  "('k, 'v) map_op \<Rightarrow> ('k \<rightharpoonup> 'v) \<Rightarrow> ('k \<rightharpoonup> 'v) \<Rightarrow> shmem_error + 'v ShObject result \<Rightarrow> bool" where
  "string_call op c c' r \<longleftrightarrow>
     c' = c \<and> r = Inl BadAlloc \<or>
     (c', map_sum id (map_result obj_value) r) = map_spec (Suc (card (dom c))) op c"

section \<open>The heap under the operations on objects\<close>

lemma heap_for_alloc:
  assumes "heap_for h M" "ShAlloc_allocate r h = Some (a, h')"
  shows "heap_for h' (add_mset (a, r) M)"
proof -
  from assms(1) obtain live where "heap_run h live" "mset live = M" by (auto simp: heap_for_def)
  then have "heap_run h' ((a, r) # live)" "mset ((a, r) # live) = add_mset (a, r) M"
    using run_allocate[OF _ assms(2)] by auto
  then show ?thesis unfolding heap_for_def by blast
qed

lemma heap_for_dealloc:
  assumes "heap_for h (add_mset (a, r) M)"
  shows "heap_for (ShAlloc_deallocate a r h) M"
proof -
  from assms obtain live where live: "heap_run h live" "mset live = add_mset (a, r) M"
    by (auto simp: heap_for_def)
  then have "(a, r) \<in> set live" by (metis set_mset_mset union_single_eq_member)
  then have "heap_run (ShAlloc_deallocate a r h) (remove1 (a, r) live)"
    by (rule run_deallocate[OF live(1)])
  moreover have "mset (remove1 (a, r) live) = M" by (simp add: live(2))
  ultimately show ?thesis unfolding heap_for_def by blast
qed

lemma convert_law:
  assumes "heap_for h M" "convert chars x h = (Inr t, h')"
  shows "obj_value t = x \<and> obj_ok chars t \<and> heap_for h' (claims t + M)"
  using assms heap_for_alloc[OF assms(1), of "(1, chars x)"]
  by (auto simp: convert_def obj_ok_def claims_def split: if_splits option.splits)

lemma convert_fails: "convert chars x h = (Inl e, h') \<Longrightarrow> e = BadAlloc \<and> h' = h"
  by (auto simp: convert_def split: if_splits option.splits)

lemma delete_law: "heap_for h (claims t + M) \<Longrightarrow> heap_for (ShObject_delete t h) M"
  by (auto simp: claims_def ShObject_delete_def intro: heap_for_dealloc split: option.splits)

lemma node_delete_law:
  assumes "heap_for h (node_claims n x + M)"
  shows "heap_for (node_delete n x h) M"
proof -
  obtain k v a where x: "x = (k, v, a)" by (cases x)
  have "heap_for h (claims v + (claims k + add_mset (a, n, 1) M))"
    using assms by (simp add: x ac_simps)
  then show ?thesis unfolding x node_delete.simps by (intro heap_for_dealloc delete_law)
qed

lemma moved_claims: "claims (ShObject_moved t) = {#}"
  by (simp add: claims_def ShObject_moved_def)

lemma move_assign_law:
  assumes "ShObject_move_assign dst src = (dst', src')" "obj_ok chars dst" "obj_ok chars src"
  shows "obj_value dst' = obj_value src \<and> obj_ok chars dst' \<and>
    claims dst' + claims src' = claims dst + claims src"
  using assms
  by (auto simp: ShObject_move_assign_def obj_ok_def claims_def split: option.splits)

section \<open>The nodes\<close>

lemma map_claims_simps [simp]:
  "map_claims n [] = {#}"
  "map_claims n (x # ns) = node_claims n x + map_claims n ns"
  by (simp_all add: map_claims_def)

lemma map_claims_remove1: "x \<in> set ns \<Longrightarrow> map_claims n ns = node_claims n x + map_claims n (remove1 x ns)"
  by (induction ns) (auto simp: ac_simps)

lemma find_object_Some: "find_object k ns = Some x \<Longrightarrow> x \<in> set ns \<and> obj_value (fst x) = k"
  by (induction ns) (auto split: if_splits)

lemma find_object_None: "find_object k ns = None \<longleftrightarrow> k \<notin> (obj_value \<circ> fst) ` set ns"
  by (induction ns) auto

lemma dom_node_contents: "dom (node_contents ns) = (obj_value \<circ> fst) ` set ns"
  using find_object_None[of _ ns] by (auto simp: node_contents_def dom_def)

lemma card_node_contents: "nodes_ok kc vc ns \<Longrightarrow> card (dom (node_contents ns)) = length ns"
  by (simp only: dom_node_contents nodes_ok_def set_map[symmetric] distinct_card length_map)

lemma nodes_okD:
  "nodes_ok kc vc ns \<Longrightarrow> (k, v, a) \<in> set ns \<Longrightarrow> obj_ok kc k \<and> obj_ok vc v"
  by (auto simp: nodes_ok_def)

lemma nodes_ok_remove1: "nodes_ok kc vc ns \<Longrightarrow> nodes_ok kc vc (remove1 x ns)"
  by (induction ns) (auto simp: nodes_ok_def dest!: subsetD[OF set_remove1_subset])

lemma find_remove1:
  assumes "nodes_ok kc vc ns" "find_object k ns = Some x"
  shows "find_object j (remove1 x ns) = (if j = k then None else find_object j ns)"
  using assms
proof (induction ns)
  case (Cons y ns)
  show ?case
  proof (cases "obj_value (fst y) = k")
    case True
    then have "k \<notin> (obj_value \<circ> fst) ` set ns" using Cons.prems(1) by (auto simp: nodes_ok_def)
    then show ?thesis using True Cons.prems(2) find_object_None[of k ns] by auto
  next
    case False
    then have "find_object k ns = Some x" using Cons.prems(2) by simp
    moreover from this have "y \<noteq> x" using False find_object_Some by fastforce
    moreover have "nodes_ok kc vc ns" using Cons.prems(1) by (auto simp: nodes_ok_def)
    ultimately show ?thesis using Cons.IH False by auto
  qed
qed simp

lemma find_set_object:
  "find_object j (set_object k v ns) =
     (if j = k then map_option (\<lambda>(k, _, a). (k, v, a)) (find_object j ns) else find_object j ns)"
  by (induction ns) (auto simp: set_object_def)

lemma set_object_absent: "find_object k ns = None \<Longrightarrow> set_object k v ns = ns"
  by (induction ns) (auto simp: set_object_def split: if_splits)

lemma map_claims_set_object:
  assumes "nodes_ok kc vc ns" "find_object k ns = Some (k', v, a)"
  shows "map_claims n (set_object k v' ns) + claims v = map_claims n ns + claims v'"
  using assms
proof (induction ns)
  case (Cons y ns)
  have ok: "nodes_ok kc vc ns" using Cons.prems(1) by (auto simp: nodes_ok_def)
  obtain yk yv ya where y: "y = (yk, yv, ya)" by (cases y)
  show ?case
  proof (cases "obj_value yk = k")
    case True
    then have "find_object k ns = None"
      using Cons.prems(1) by (auto simp: nodes_ok_def find_object_None y)
    then have "set_object k v' (y # ns) = (yk, v', ya) # ns"
      using True set_object_absent[of k ns v'] by (simp add: set_object_def y)
    then show ?thesis using True Cons.prems(2) by (simp add: y ac_simps)
  next
    case False
    then have "set_object k v' (y # ns) = y # set_object k v' ns" by (simp add: set_object_def y)
    moreover have "find_object k ns = Some (k', v, a)" using False Cons.prems(2) by (simp add: y)
    ultimately show ?thesis using Cons.IH[OF ok] by (simp add: ac_simps)
  qed
qed simp

lemma nodes_ok_set_object:
  assumes "nodes_ok kc vc ns" "obj_ok vc v"
  shows "nodes_ok kc vc (set_object k v ns)"
proof -
  have "map (obj_value \<circ> fst) (set_object k v ns) = map (obj_value \<circ> fst) ns"
    by (auto simp: set_object_def)
  moreover have "\<forall>(k', v', a)\<in>set (set_object k v ns). obj_ok kc k' \<and> obj_ok vc v'"
    using assms by (fastforce simp: nodes_ok_def set_object_def split: if_splits)
  ultimately show ?thesis using assms(1) by (simp only: nodes_ok_def)
qed

section \<open>What a call leaves behind\<close>

text \<open>
  The end of a piece of code: the value of the semaphore, and what holds of the nodes, of the
  result and of the live requests.
\<close>

definition leaves ::
  "nat \<Rightarrow> (('k, 'v) node list \<Rightarrow> 'r \<Rightarrow> (nat \<times> nat \<times> nat) multiset \<Rightarrow> bool) \<Rightarrow>
   ('k, 'v) StringMap \<Rightarrow> 'r \<Rightarrow> bool" where
  "leaves s Q m r \<longleftrightarrow> semaphore m = s \<and> (\<exists>N. heap_for (heap m) N \<and> Q (nodes m) r N)"

text \<open>The same with a temporary still alive.\<close>

definition leaves_temporary ::
  "nat \<Rightarrow> (('k, 'v) node list \<Rightarrow> 'r \<Rightarrow> (nat \<times> nat \<times> nat) multiset \<Rightarrow> bool) \<Rightarrow>
   ('k, 'v) StringMap \<times> 'a ShObject \<times> 'r \<Rightarrow> bool" where
  "leaves_temporary s Q = (\<lambda>(m, t, r). leaves s (\<lambda>ns r N. \<exists>N'. N = claims t + N' \<and> Q ns r N') m r)"

lemma leaves_temporaryI:
  "semaphore m = s \<Longrightarrow> heap_for (heap m) (claims t + N) \<Longrightarrow> Q (nodes m) r N \<Longrightarrow>
   leaves_temporary s Q (m, t, r)"
  by (auto simp: leaves_temporary_def leaves_def)

lemma with_temporary_law:
  assumes "heap_for (heap m) M" "Q (nodes m) (Inl BadAlloc) M"
    and "\<And>t h. obj_value t = x \<Longrightarrow> obj_ok chars t \<Longrightarrow> heap_for h (claims t + M) \<Longrightarrow>
      leaves_temporary (semaphore m) Q (rest t (m\<lparr>heap := h\<rparr>))"
  shows "case with_temporary chars x rest m of (m', r) \<Rightarrow> leaves (semaphore m) Q m' r"
proof (cases "convert chars x (heap m)")
  case (Pair c h)
  show ?thesis
  proof (cases c)
    case (Inl e)
    then show ?thesis
      using assms(1,2) convert_fails[of chars x "heap m" e h] Pair
      by (auto simp: with_temporary_def leaves_def)
  next
    case (Inr t)
    then have "leaves_temporary (semaphore m) Q (rest t (m\<lparr>heap := h\<rparr>))"
      using convert_law[OF assms(1), of chars x t h] Pair by (intro assms(3)) auto
    then obtain m' t' r N where rest: "rest t (m\<lparr>heap := h\<rparr>) = (m', t', r)" "semaphore m' = semaphore m"
        "heap_for (heap m') (claims t' + N)" "Q (nodes m') r N"
      by (auto simp: leaves_temporary_def leaves_def split: prod.splits)
    then have "heap_for (ShObject_delete t' (heap m')) N" by (intro delete_law)
    with rest show ?thesis using Pair Inr by (auto simp: with_temporary_def leaves_def)
  qed
qed

lemma locked_law:
  assumes "semaphore m = 1"
    and "case body (m\<lparr>semaphore := 0\<rparr>) of (m', r) \<Rightarrow> leaves 0 (\<lambda>ns r. Q ns (map_sum id f r)) m' r"
  shows "\<exists>m' r. answer f (sem_lock None body m) = Some (m', r) \<and> leaves 1 Q m' r"
  using assms(2)
  by (auto simp: sem_lock_free[OF assms(1)] answer_def leaves_def split: prod.splits)

definition call_post ::
  "('k \<Rightarrow> nat) \<Rightarrow> ('v \<Rightarrow> nat) \<Rightarrow> nat \<Rightarrow> (nat \<times> nat \<times> nat) multiset \<Rightarrow> ('k, 'v) map_op \<Rightarrow>
   ('k \<rightharpoonup> 'v) \<Rightarrow> ('k, 'v) node list \<Rightarrow> shmem_error + 'v ShObject result \<Rightarrow>
   (nat \<times> nat \<times> nat) multiset \<Rightarrow> bool" where
  "call_post kc vc n held op c ns r N \<longleftrightarrow> nodes_ok kc vc ns \<and>
     string_call op c (node_contents ns) r \<and> N = map_claims n ns + (result_claims r + held)"

text \<open>A call that changes nothing, with what it may answer.\<close>

lemma call_post_same:
  assumes "nodes_ok kc vc ns" "result_claims r = {#}"
    and "r = Inl BadAlloc \<or>
      map_sum id (map_result obj_value) r = snd (map_spec (Suc (card (dom (node_contents ns)))) op (node_contents ns)) \<and>
      fst (map_spec (Suc (card (dom (node_contents ns)))) op (node_contents ns)) = node_contents ns"
  shows "call_post kc vc n held op (node_contents ns) ns r (map_claims n ns + held)"
  using assms by (auto simp: call_post_def string_call_def prod_eq_iff)

lemma call_post_refused:
  "nodes_ok kc vc ns \<Longrightarrow>
   call_post kc vc n held op (node_contents ns) ns (Inl BadAlloc) (map_claims n ns + held)"
  by (rule call_post_same) simp_all

lemma find_dom_contents: "k \<in> dom (node_contents ns) \<longleftrightarrow> find_object k ns \<noteq> None"
  by (auto simp: node_contents_def dom_def)

subsection \<open>Call by call\<close>

text \<open>A call that is one statement with a temporary of its key.\<close>

lemma call_with_temporary:
  assumes "strings_inv kc vc n held m"
    and "\<And>t h. obj_value t = x \<Longrightarrow> obj_ok chars t \<Longrightarrow>
      heap_for h (claims t + (map_claims n (nodes m) + held)) \<Longrightarrow>
      leaves_temporary 0 (\<lambda>ns r. call_post kc vc n held op (node_contents (nodes m)) ns (map_sum id f r))
        (rest t (m\<lparr>semaphore := 0, heap := h\<rparr>))"
  shows "\<exists>m' r. answer f (sem_lock None (with_temporary chars x rest) m) = Some (m', r) \<and>
    leaves 1 (call_post kc vc n held op (node_contents (nodes m))) m' r"
proof -
  have inv: "semaphore m = 1" "nodes_ok kc vc (nodes m)" "heap_for (heap m) (map_claims n (nodes m) + held)"
    using assms(1) by (simp_all add: strings_inv_def)
  let ?Q = "\<lambda>ns r. call_post kc vc n held op (node_contents (nodes m)) ns (map_sum id f r)"
  show ?thesis
    using with_temporary_law[of "m\<lparr>semaphore := 0\<rparr>" _ ?Q x chars rest] inv
      call_post_refused[OF inv(2)] assms(2)
    by (intro locked_law) simp_all
qed

lemma count_leaves:
  assumes "strings_inv kc vc n held m"
  shows "\<exists>m' r. StringMap_op kc vc n None (Count k) m = Some (m', r) \<and>
    leaves 1 (call_post kc vc n held (Count k) (node_contents (nodes m))) m' r"
  unfolding StringMap_op.simps StringMap_count_def
  using assms
  by (intro call_with_temporary leaves_temporaryI[where N = "map_claims n (nodes m) + held"])
    (auto simp: find_dom_contents strings_inv_def split: option.split intro!: call_post_same)

lemma at_leaves:
  assumes "strings_inv kc vc n held m"
  shows "\<exists>m' r. StringMap_op kc vc n None (At k) m = Some (m', r) \<and>
    leaves 1 (call_post kc vc n held (At k) (node_contents (nodes m))) m' r"
  unfolding StringMap_op.simps StringMap_at_def
proof (intro call_with_temporary[OF assms])
  have ok: "nodes_ok kc vc (nodes m)" using assms by (simp add: strings_inv_def)
  let ?c = "node_contents (nodes m)" and ?M = "map_claims n (nodes m) + held"
  let ?Q = "\<lambda>ns r. call_post kc vc n held (At k) ?c ns (map_sum id Val r)"
  fix t :: "'a ShObject" and h
  assume t: "obj_value t = k" and h: "heap_for h (claims t + ?M)"
  note refused = call_post_refused[OF ok, of n held "At k"]
  show "leaves_temporary 0 ?Q (case find_object (obj_value t) (nodes (m\<lparr>semaphore := 0, heap := h\<rparr>)) of
      None \<Rightarrow> (m\<lparr>semaphore := 0, heap := h\<rparr>, t, Inl OutOfRange)
    | Some (k', v, a) \<Rightarrow>
        let (r, h') = ShObject_copy vc v (heap (m\<lparr>semaphore := 0, heap := h\<rparr>))
        in (m\<lparr>semaphore := 0, heap := h, heap := h'\<rparr>, t, r))"
  proof (cases "find_object k (nodes m)")
    case None
    then have "?c k = None" by (simp add: node_contents_def)
    then show ?thesis
      using None t h ok by (auto intro!: leaves_temporaryI[where N = ?M] call_post_same)
  next
    case (Some x)
    obtain k' v a where x: "x = (k', v, a)" by (cases x)
    have c: "?c k = Some (obj_value v)" using Some by (simp add: node_contents_def x)
    obtain r h' where copy: "ShObject_copy vc v h = (r, h')" by (cases "ShObject_copy vc v h")
    show ?thesis
    proof (cases r)
      case (Inl e)
      then have "e = BadAlloc \<and> h' = h" using copy convert_fails[of vc "obj_value v" h e h']
        by (simp add: ShObject_copy_def)
      then show ?thesis
        using Some x t h Inl copy refused by (auto intro!: leaves_temporaryI[where N = ?M])
    next
      case (Inr u)
      then have u: "obj_value u = obj_value v" "heap_for h' (claims u + (claims t + ?M))"
        using convert_law[OF h, of vc "obj_value v" u h'] copy by (auto simp: ShObject_copy_def)
      have "?Q (nodes m) (Inr u) (map_claims n (nodes m) + (claims u + held))"
        using ok c u(1) by (simp add: call_post_def string_call_def)
      then show ?thesis
        using Some x t copy Inr u(2)
        by (auto intro!: leaves_temporaryI[where N = "map_claims n (nodes m) + (claims u + held)"]
            simp: ac_simps)
    qed
  qed
qed

lemma erase_leaves:
  assumes "strings_inv kc vc n held m"
  shows "\<exists>m' r. StringMap_op kc vc n None (Erase k) m = Some (m', r) \<and>
    leaves 1 (call_post kc vc n held (Erase k) (node_contents (nodes m))) m' r"
  unfolding StringMap_op.simps StringMap_erase_def
proof (intro call_with_temporary[OF assms])
  have ok: "nodes_ok kc vc (nodes m)" using assms by (simp add: strings_inv_def)
  let ?c = "node_contents (nodes m)" and ?M = "map_claims n (nodes m) + held"
  let ?Q = "\<lambda>ns r. call_post kc vc n held (Erase k) ?c ns (map_sum id Nat r)"
  fix t :: "'a ShObject" and h
  assume t: "obj_value t = k" and h: "heap_for h (claims t + ?M)"
  show "leaves_temporary 0 ?Q (case find_object (obj_value t) (nodes (m\<lparr>semaphore := 0, heap := h\<rparr>)) of
      None \<Rightarrow> (m\<lparr>semaphore := 0, heap := h\<rparr>, t, Inr 0)
    | Some x \<Rightarrow> (m\<lparr>semaphore := 0, heap := h, heap := node_delete n x (heap (m\<lparr>semaphore := 0, heap := h\<rparr>)),
        nodes := remove1 x (nodes (m\<lparr>semaphore := 0, heap := h\<rparr>))\<rparr>, t, Inr 1))"
  proof (cases "find_object k (nodes m)")
    case None
    then have "?c k = None" by (simp add: node_contents_def)
    then have "?c(k := None) = ?c" "k \<notin> dom ?c" by auto
    then have "?Q (nodes m) (Inr 0) ?M" by (intro call_post_same[OF ok]) simp_all
    then show ?thesis using None t h by (auto intro!: leaves_temporaryI[where N = ?M])
  next
    case (Some x)
    let ?ns = "remove1 x (nodes m)"
    have mem: "x \<in> set (nodes m)" using find_object_Some[OF Some] by simp
    have "node_contents ?ns = ?c(k := None)"
      using find_remove1[OF ok Some] by (auto simp: node_contents_def)
    moreover have "k \<in> dom ?c" using Some by (simp add: find_dom_contents)
    ultimately have "?Q ?ns (Inr 1) (map_claims n ?ns + held)"
      using nodes_ok_remove1[OF ok] by (simp add: call_post_def string_call_def)
    moreover have "heap_for (node_delete n x h) (claims t + (map_claims n ?ns + held))"
      using h by (intro node_delete_law) (simp add: map_claims_remove1[OF mem] ac_simps)
    ultimately show ?thesis
      using Some t by (auto intro!: leaves_temporaryI[where N = "map_claims n ?ns + held"])
  qed
qed

subsection \<open>Two temporaries\<close>

lemma nested_temporary:
  assumes "heap_for (heap m) (claims t + M)" "Q (nodes m) (Inl BadAlloc) M"
    and "\<And>u h. obj_value u = y \<Longrightarrow> obj_ok chars u \<Longrightarrow> heap_for h (claims u + (claims t + M)) \<Longrightarrow>
      leaves_temporary (semaphore m) (\<lambda>ns r N. \<exists>N'. N = claims t + N' \<and> Q ns r N') (rest u (m\<lparr>heap := h\<rparr>))"
  shows "leaves_temporary (semaphore m) Q (let (m, r) = with_temporary chars y rest m in (m, t, r))"
proof -
  have "case with_temporary chars y rest m of (m', r) \<Rightarrow>
      leaves (semaphore m) (\<lambda>ns r N. \<exists>N'. N = claims t + N' \<and> Q ns r N') m' r"
    using assms by (intro with_temporary_law[where M = "claims t + M"]) auto
  then show ?thesis by (auto simp: leaves_temporary_def)
qed

lemma insert_node_leaves:
  assumes ok: "nodes_ok kc vc (nodes m)" "obj_ok vc tv" and k: "obj_value tk = k" and v: "obj_value tv = v"
    and h: "heap_for (heap m) (claims tv + (claims tk + (map_claims n (nodes m) + held)))"
  shows "leaves_temporary (semaphore m) (\<lambda>ns r N. \<exists>N'. N = claims tk + N' \<and>
      call_post kc vc n held (Insert k v) (node_contents (nodes m)) ns (map_sum id Bool r) N')
    (insert_node kc n tk tv m)"
proof -
  let ?c = "node_contents (nodes m)" and ?M = "map_claims n (nodes m) + held"
  let ?Q = "\<lambda>ns r N. \<exists>N'. N = claims tk + N' \<and>
      call_post kc vc n held (Insert k v) ?c ns (map_sum id Bool r) N'"
  have refused: "?Q (nodes m) (Inl BadAlloc) (claims tk + ?M)"
    using call_post_refused[OF ok(1)] by fastforce
  show ?thesis
  proof (cases "find_object k (nodes m)")
    case (Some x)
    then have "k \<in> dom ?c" by (simp add: find_dom_contents)
    then have "call_post kc vc n held (Insert k v) ?c (nodes m) (Inr (Bool False)) ?M"
      by (intro call_post_same[OF ok(1)]) simp_all
    then show ?thesis
      using Some k h by (auto simp: insert_node_def intro!: leaves_temporaryI[where N = "claims tk + ?M"])
  next
    case none: None
    show ?thesis
    proof (cases "ShAlloc_allocate (n, 1) (heap m)")
      case None
      then show ?thesis
        using none k h refused
        by (auto simp: insert_node_def intro!: leaves_temporaryI[where N = "claims tk + ?M"])
    next
      case (Some ah)
      obtain a h1 where ah: "ah = (a, h1)" by (cases ah)
      have h1: "heap_for h1 (add_mset (a, n, 1) (claims tv + (claims tk + ?M)))"
        using heap_for_alloc[OF h] Some ah by simp
      obtain r h2 where copy: "ShObject_copy kc tk h1 = (r, h2)" by (cases "ShObject_copy kc tk h1")
      show ?thesis
      proof (cases r)
        case (Inl e)
        then have "e = BadAlloc \<and> h2 = h1"
          using copy convert_fails[of kc "obj_value tk" h1 e h2] by (simp add: ShObject_copy_def)
        then show ?thesis
          using none k Some ah copy Inl refused heap_for_dealloc[OF h1]
          by (auto simp: insert_node_def intro!: leaves_temporaryI[where N = "claims tk + ?M"])
      next
        case (Inr t)
        then have t: "obj_value t = k" "obj_ok kc t"
            "heap_for h2 (claims t + add_mset (a, n, 1) (claims tv + (claims tk + ?M)))"
          using convert_law[OF h1, of kc "obj_value tk" t h2] copy k by (auto simp: ShObject_copy_def)
        let ?ns = "(t, tv, a) # nodes m"
        have "nodes_ok kc vc ?ns"
          using ok t(1,2) none by (auto simp: nodes_ok_def find_object_None)
        moreover have "node_contents ?ns = ?c(k \<mapsto> v)"
          using t(1) v by (auto simp: node_contents_def)
        moreover have "k \<notin> dom ?c" using none by (simp add: find_dom_contents)
        ultimately have "call_post kc vc n held (Insert k v) ?c ?ns (Inr (Bool True)) (map_claims n ?ns + held)"
          by (simp add: call_post_def string_call_def)
        moreover have "heap_for h2 (claims (ShObject_moved tv) + (claims tk + (map_claims n ?ns + held)))"
          using t(3) by (simp add: moved_claims ac_simps)
        ultimately show ?thesis
          using none k Some ah copy Inr
          by (auto simp: insert_node_def
              intro!: leaves_temporaryI[where N = "claims tk + (map_claims n ?ns + held)"])
      qed
    qed
  qed
qed

lemma insert_leaves:
  assumes "strings_inv kc vc n held m"
  shows "\<exists>m' r. StringMap_op kc vc n None (Insert k v) m = Some (m', r) \<and>
    leaves 1 (call_post kc vc n held (Insert k v) (node_contents (nodes m))) m' r"
  unfolding StringMap_op.simps StringMap_insert_def fst_conv snd_conv
proof (intro call_with_temporary[OF assms])
  have ok: "nodes_ok kc vc (nodes m)" using assms by (simp add: strings_inv_def)
  fix t :: "'a ShObject" and h
  assume t: "obj_value t = k" and h: "heap_for h (claims t + (map_claims n (nodes m) + held))"
  let ?m = "m\<lparr>semaphore := 0, heap := h\<rparr>"
  let ?Q = "\<lambda>ns r. call_post kc vc n held (Insert k v) (node_contents (nodes m)) ns (map_sum id Bool r)"
  have "leaves_temporary (semaphore ?m) ?Q
      (let (m, r) = with_temporary vc v (insert_node kc n t) ?m in (m, t, r))"
    using call_post_refused[OF ok] h insert_node_leaves[of kc vc "?m\<lparr>heap := _\<rparr>" _ t k v n held] ok t
    by (intro nested_temporary[where M = "map_claims n (nodes m) + held"]) auto
  then show "leaves_temporary 0 ?Q
      (let (m, r) = with_temporary vc v (insert_node kc n t) ?m in (m, t, r))" by simp
qed

lemma assign_object_leaves:
  fixes tk :: "'k ShObject"
  assumes ok: "nodes_ok kc vc (nodes m)" "obj_ok vc tv" and k: "obj_value tk = k" and v: "obj_value tv = v"
    and h: "heap_for (heap m) (claims tk + (claims tv + (map_claims n (nodes m) + held)))"
  shows "leaves_temporary (semaphore m) (\<lambda>ns r N. \<exists>N'. N = claims (case r of Inl _ \<Rightarrow> tv | Inr tv' \<Rightarrow> tv') + N' \<and>
      call_post kc vc n held (Update k v) (node_contents (nodes m)) ns (map_sum id (\<lambda>_. Unit) r) N')
    (assign_object tv tk m)"
proof -
  let ?c = "node_contents (nodes m)" and ?M = "map_claims n (nodes m) + held"
  show ?thesis
  proof (cases "find_object k (nodes m)")
    case None
    then have "k \<notin> dom ?c" by (simp add: find_dom_contents)
    then have "call_post kc vc n held (Update k v) ?c (nodes m) (Inl OutOfRange) ?M"
      by (intro call_post_same[OF ok(1)]) simp_all
    then show ?thesis
      using None k h by (auto simp: assign_object_def intro!: leaves_temporaryI[where N = "claims tv + ?M"])
  next
    case (Some x)
    obtain k' w a where x: "x = (k', w, a)" by (cases x)
    obtain w' tv' where assign: "ShObject_move_assign w tv = (w', tv')"
      by (cases "ShObject_move_assign w tv")
    have mem: "(k', w, a) \<in> set (nodes m)" using find_object_Some[OF Some] x by simp
    note w = move_assign_law[OF assign conjunct2[OF nodes_okD[OF ok(1) mem]] ok(2)]
    let ?ns = "set_object k w' (nodes m)"
    have "node_contents ?ns = ?c(k \<mapsto> v)"
      using Some x w v by (auto simp: node_contents_def find_set_object)
    moreover have "k \<in> dom ?c" using Some by (simp add: find_dom_contents)
    ultimately have post: "call_post kc vc n held (Update k v) ?c ?ns (Inr Unit) (map_claims n ?ns + held)"
      using nodes_ok_set_object[OF ok(1), of w' k] w by (simp add: call_post_def string_call_def)
    have "map_claims n ?ns + claims w = map_claims n (nodes m) + claims w'"
      using map_claims_set_object[OF ok(1)] Some x by simp
    with w have "claims tv' + map_claims n ?ns + claims w + claims w' =
        claims tv + map_claims n (nodes m) + claims w + claims w'"
      by (metis (no_types, lifting) add.assoc add.commute)
    then have "claims tv' + map_claims n ?ns = claims tv + map_claims n (nodes m)" by simp
    then have "heap_for (heap m) (claims tk + (claims tv' + (map_claims n ?ns + held)))"
      using h by (simp add: add.assoc[symmetric])
    with post show ?thesis
      using Some x k assign
      by (auto simp: assign_object_def
          intro!: leaves_temporaryI[where N = "claims tv' + (map_claims n ?ns + held)"])
  qed
qed

lemma update_leaves:
  assumes "strings_inv kc vc n held m"
  shows "\<exists>m' r. StringMap_op kc vc n None (Update k v) m = Some (m', r) \<and>
    leaves 1 (call_post kc vc n held (Update k v) (node_contents (nodes m))) m' r"
  unfolding StringMap_op.simps StringMap_update_def
proof (intro call_with_temporary[OF assms])
  have ok: "nodes_ok kc vc (nodes m)" using assms by (simp add: strings_inv_def)
  fix t :: "'b ShObject" and h
  assume t: "obj_value t = v" "obj_ok vc t" and h: "heap_for h (claims t + (map_claims n (nodes m) + held))"
  let ?m = "m\<lparr>semaphore := 0, heap := h\<rparr>" and ?op = "Update k v"
  let ?Q = "\<lambda>ns r N. \<exists>N'. N = claims (case r of Inl _ \<Rightarrow> t | Inr t' \<Rightarrow> t') + N' \<and>
      call_post kc vc n held ?op (node_contents (nodes m)) ns (map_sum id (\<lambda>_. Unit) r) N'"
  have "case with_temporary kc k (assign_object t) ?m of (m', r) \<Rightarrow> leaves (semaphore ?m) ?Q m' r"
    using call_post_refused[OF ok] h assign_object_leaves[of kc vc "?m\<lparr>heap := _\<rparr>" t _ k v n held] ok t
    by (intro with_temporary_law[where M = "claims t + (map_claims n (nodes m) + held)"]) auto
  then show "leaves_temporary 0
      (\<lambda>ns r. call_post kc vc n held ?op (node_contents (nodes m)) ns (map_sum id (\<lambda>_. Unit) r))
      (let (m, r) = with_temporary kc k (assign_object t) ?m
       in case r of Inl e \<Rightarrow> (m, t, Inl e) | Inr t' \<Rightarrow> (m, t', Inr ()))"
    by (auto simp: leaves_temporary_def leaves_def split: prod.splits sum.splits)
qed

lemma size_leaves:
  assumes "strings_inv kc vc n held m"
  shows "\<exists>m' r. StringMap_op kc vc n None Size m = Some (m', r) \<and>
    leaves 1 (call_post kc vc n held Size (node_contents (nodes m))) m' r"
  using assms card_node_contents[of kc vc "nodes m"]
  by (auto simp: SharedMap_size_def strings_inv_def sem_lock_free answer_def leaves_def
      intro!: exI[of _ "map_claims n (nodes m) + held"] call_post_same)

lemma string_op_leaves:
  assumes "strings_inv kc vc n held m"
  shows "\<exists>m' r. StringMap_op kc vc n None op m = Some (m', r) \<and>
    string_call op (node_contents (nodes m)) (node_contents (nodes m')) r \<and>
    strings_inv kc vc n (result_claims r + held) m'"
proof -
  have "\<exists>m' r. StringMap_op kc vc n None op m = Some (m', r) \<and>
      leaves 1 (call_post kc vc n held op (node_contents (nodes m))) m' r"
    using count_leaves[OF assms] update_leaves[OF assms] insert_leaves[OF assms] at_leaves[OF assms]
      erase_leaves[OF assms] size_leaves[OF assms]
    by (cases op) blast+
  then show ?thesis by (auto simp: leaves_def call_post_def strings_inv_def)
qed

section \<open>Objects of the callers, and the end of the map\<close>

lemma drop_law:
  assumes "strings_inv kc vc n (claims t + held) m"
  shows "strings_inv kc vc n held (StringMap_drop t m)"
proof -
  have "heap_for (heap m) (claims t + (map_claims n (nodes m) + held))"
    using assms by (simp add: strings_inv_def ac_simps)
  then have "heap_for (ShObject_delete t (heap m)) (map_claims n (nodes m) + held)" by (rule delete_law)
  then show ?thesis using assms by (simp add: strings_inv_def StringMap_drop_def)
qed

lemma destroy_law:
  assumes "heap_for h (map_claims n ns + held)"
  shows "heap_for (fold (node_delete n) ns h) held"
  using assms
proof (induction ns arbitrary: h)
  case (Cons x ns)
  then have "heap_for (node_delete n x h) (map_claims n ns + held)"
    by (intro node_delete_law) (simp add: ac_simps)
  then show ?case using Cons.IH by simp
qed simp

lemma heap_for_used: "heap_for h M \<Longrightarrow> used_set h = (\<Union>(a, r)\<in>set_mset M. extent h a r)"
  using heap_run_inv by (force simp: heap_for_def sh_heap.accounts_def)

section \<open>A full heap\<close>

lemma memset_undo:
  assumes "pos + n \<le> length t" "\<And>i. pos \<le> i \<Longrightarrow> i < pos + n \<Longrightarrow> t ! i = c"
  shows "memset (memset t pos d n) pos c n = t"
  using assms by (intro nth_equalityI) (auto simp: memset_length memset_nth)

text \<open>Giving a request back at once restores the heap.\<close>

lemma allocate_undo:
  assumes "ShAlloc_allocate r h = Some (a, h')"
  shows "ShAlloc_deallocate a r h' = h"
proof -
  let ?n = "get_size_in_blocks (fst r * snd r) (block_size h)"
  from assms obtain pos where b: "block_size h \<noteq> 0"
    and find: "find_free_blocks ?n (used_blocks_table h) = Some pos"
    and a: "a = first_block h + pos * block_size h"
    and h': "h' = h\<lparr>used_blocks_table := memset (used_blocks_table h) pos USED_BLOCK ?n\<rparr>"
    by (auto simp: ShAlloc_allocate_def Let_def split: if_splits option.splits)
  have "memset (memset (used_blocks_table h) pos USED_BLOCK ?n) pos FREE_BLOCK ?n = used_blocks_table h"
    using find_free_blocks_Some[OF find] by (intro memset_undo)
  then show ?thesis using a b by (simp add: ShAlloc_deallocate_def h' Let_def)
qed

text \<open>What does not fit does not fit behind another allocation.\<close>

lemma allocate_still_fails:
  assumes "ShAlloc_allocate r h = None" "ShAlloc_allocate q h = Some (a, h')"
  shows "ShAlloc_allocate r h' = None"
proof (rule ccontr)
  let ?n = "get_size_in_blocks (fst r * snd r) (block_size h)"
    and ?k = "get_size_in_blocks (fst q * snd q) (block_size h)" and ?t = "used_blocks_table h"
  from assms(2) obtain pos where b: "block_size h \<noteq> 0"
    and find: "find_free_blocks ?k ?t = Some pos"
    and h': "h' = h\<lparr>used_blocks_table := memset ?t pos USED_BLOCK ?k\<rparr>"
    by (auto simp: ShAlloc_allocate_def Let_def split: if_splits option.splits)
  assume "ShAlloc_allocate r h' \<noteq> None"
  then obtain p where p: "find_free_blocks ?n (memset ?t pos USED_BLOCK ?k) = Some p"
    using b by (auto simp: ShAlloc_allocate_def h' Let_def split: option.splits)
  note le = find_free_blocks_Some(1)[OF find]
  have "p + ?n \<le> length ?t" using find_free_blocks_Some(1)[OF p] le by (simp add: memset_length)
  moreover have "find_free_blocks ?n ?t = None"
    using assms(1) b by (auto simp: ShAlloc_allocate_def Let_def split: option.splits)
  ultimately obtain i where i: "p \<le> i" "i < p + ?n" "?t ! i \<noteq> FREE_BLOCK" "i < length ?t"
    using find_free_blocks_None[of ?n ?t p] by force
  then have "memset ?t pos USED_BLOCK ?k ! i \<noteq> FREE_BLOCK"
    using le by (simp add: memset_nth USED_BLOCK_def FREE_BLOCK_def)
  then show False using find_free_blocks_Some(2)[OF p i(1,2)] by simp
qed

text \<open>The key a call converts.\<close>

fun op_key :: "('k, 'v) map_op \<Rightarrow> 'k option" where
  "op_key (Count k) = Some k"
| "op_key (Update k v) = Some k"
| "op_key (Insert k v) = Some k"
| "op_key (At k) = Some k"
| "op_key (Erase k) = Some k"
| "op_key Size = None"

definition no_room :: "('a \<Rightarrow> nat) \<Rightarrow> 'a \<Rightarrow> ShMemState \<Rightarrow> bool" where
  "no_room chars x h \<longleftrightarrow> 0 < chars x \<and> ShAlloc_allocate (1, chars x) h = None"

lemma temporary_refused:
  "no_room chars x (heap m) \<Longrightarrow> with_temporary chars x rest m = (m, Inl BadAlloc)"
  by (simp add: with_temporary_def convert_def no_room_def)

lemma locked_refused:
  "semaphore m = 1 \<Longrightarrow> body (m\<lparr>semaphore := 0\<rparr>) = (m\<lparr>semaphore := 0\<rparr>, Inl e) \<Longrightarrow>
   answer f (sem_lock None body m) = Some (m, Inl e)"
  by (simp add: sem_lock_free answer_def sem_eta)

lemma value_then_key_refused:
  fixes rest :: "'v ShObject \<Rightarrow> 'k ShObject \<Rightarrow> ('k, 'v) StringMap \<Rightarrow>
    ('k, 'v) StringMap \<times> 'k ShObject \<times> (shmem_error + 'v ShObject)"
  assumes "no_room kc k (heap m)"
  shows "with_temporary vc v (\<lambda>tv m. let (m, r) = with_temporary kc k (rest tv) m
      in case r of Inl e \<Rightarrow> (m, tv, Inl e) | Inr tv' \<Rightarrow> (m, tv', Inr ())) m = (m, Inl BadAlloc)"
proof (cases "convert vc v (heap m)")
  case (Pair c h)
  show ?thesis
  proof (cases c)
    case (Inl e)
    then show ?thesis using Pair convert_fails[of vc v "heap m" e h] by (simp add: with_temporary_def)
  next
    case (Inr t)
    have "no_room kc k h \<and> ShObject_delete t h = heap m"
      using Pair Inr assms allocate_still_fails[of "(1, kc k)" "heap m" "(1, vc v)"]
        allocate_undo[of "(1, vc v)" "heap m"]
      by (auto simp: convert_def no_room_def ShObject_delete_def split: if_splits option.splits)
    then show ?thesis
      using Pair Inr temporary_refused[of kc k "m\<lparr>heap := h\<rparr>" "rest t"] by (simp add: with_temporary_def)
  qed
qed

lemma call_refused:
  assumes "semaphore m = 1" "op_key op = Some k" "no_room kc k (heap m)"
  shows "StringMap_op kc vc n None op m = Some (m, Inl BadAlloc)"
proof -
  let ?m = "m\<lparr>semaphore := 0\<rparr>"
  have room: "no_room kc k (heap ?m)" using assms(3) by simp
  note refused = locked_refused[OF assms(1)] temporary_refused[OF room] value_then_key_refused[OF room]
  show ?thesis
  proof (cases op)
    case (Count j)
    then have j: "j = k" using assms(2) by simp
    show ?thesis unfolding Count j StringMap_op.simps StringMap_count_def by (intro refused)
  next
    case (Update j v)
    then have j: "j = k" using assms(2) by simp
    show ?thesis unfolding Update j StringMap_op.simps StringMap_update_def by (intro refused)
  next
    case (Insert j v)
    then have j: "j = k" using assms(2) by simp
    show ?thesis unfolding Insert j StringMap_op.simps StringMap_insert_def fst_conv by (intro refused)
  next
    case (At j)
    then have j: "j = k" using assms(2) by simp
    show ?thesis unfolding At j StringMap_op.simps StringMap_at_def by (intro refused)
  next
    case (Erase j)
    then have j: "j = k" using assms(2) by simp
    show ?thesis unfolding Erase j StringMap_op.simps StringMap_erase_def by (intro refused)
  next
    case Size
    then show ?thesis using assms(2) by simp
  qed
qed

section \<open>Maps without strings\<close>

text \<open>
  When neither keys nor values ask for characters, this is the map of \<^verbatim>\<open>Shared_Map\<close>: the same
  answers, the same heap, the same nodes.
\<close>

fun plain_node :: "('k, 'v) node \<Rightarrow> 'k \<times> 'v \<times> nat" where
  "plain_node (k, v, a) = (obj_value k, obj_value v, a)"

definition plain :: "('k, 'v) StringMap \<Rightarrow> ('k, 'v) SharedMap" where
  "plain m = \<lparr>semaphore = semaphore m, heap = heap m, nodes = map plain_node (nodes m)\<rparr>"

definition owns_nothing :: "('k, 'v) node list \<Rightarrow> bool" where
  "owns_nothing ns \<longleftrightarrow> (\<forall>(k, v, a)\<in>set ns. obj_chars k = None \<and> obj_chars v = None)"

lemma plain_simps [simp]:
  "semaphore (plain m) = semaphore m" "heap (plain m) = heap m"
  "nodes (plain m) = map plain_node (nodes m)"
  "plain (m\<lparr>semaphore := s\<rparr>) = plain m\<lparr>semaphore := s\<rparr>"
  "plain (m\<lparr>heap := h\<rparr>) = plain m\<lparr>heap := h\<rparr>"
  "plain (m\<lparr>nodes := ns\<rparr>) = plain m\<lparr>nodes := map plain_node ns\<rparr>"
  by (simp_all add: plain_def)

lemma temporary_inline:
  "with_temporary (\<lambda>_. 0) x rest m =
     (case rest \<lparr>obj_value = x, obj_chars = None\<rparr> m of
        (m', t, r) \<Rightarrow> (m'\<lparr>heap := ShObject_delete t (heap m')\<rparr>, r))"
  by (simp add: with_temporary_def convert_def)

lemma copy_inline: "ShObject_copy (\<lambda>_. 0) t h = (Inr \<lparr>obj_value = obj_value t, obj_chars = None\<rparr>, h)"
  by (simp add: ShObject_copy_def convert_def)

lemma delete_inline: "obj_chars t = None \<Longrightarrow> ShObject_delete t h = h"
  by (simp add: ShObject_delete_def)

lemma find_plain:
  "find_node k (map plain_node ns) = map_option (\<lambda>x. snd (plain_node x)) (find_object k ns)"
proof (induction ns)
  case (Cons x ns)
  then show ?case by (cases x) (auto simp: find_node_def)
qed (simp add: find_node_def)

lemma owns_nothing_found:
  "owns_nothing ns \<Longrightarrow> find_object k ns = Some (k', v, a) \<Longrightarrow>
   obj_chars k' = None \<and> obj_chars v = None \<and> obj_value k' = k"
  using find_object_Some[of k ns "(k', v, a)"] by (auto simp: owns_nothing_def)

lemma remove_plain:
  assumes "distinct (map (obj_value \<circ> fst) ns)" "find_object k ns = Some x"
  shows "map plain_node (remove1 x ns) = removeAll (plain_node x) (map plain_node ns)"
  using assms
proof (induction ns)
  case (Cons y ns)
  have key: "fst (plain_node z) = obj_value (fst z)" for z :: "('a, 'b) node" by (cases z) simp
  have x: "x \<in> set (y # ns)" "obj_value (fst x) = k"
    using find_object_Some[OF Cons.prems(2)] by simp_all
  show ?case
  proof (cases "obj_value (fst y) = k")
    case True
    then have eq: "x = y" and new: "obj_value (fst x) \<notin> (obj_value \<circ> fst) ` set ns" using Cons.prems by auto
    have "plain_node x \<notin> plain_node ` set ns"
    proof
      assume "plain_node x \<in> plain_node ` set ns"
      then obtain z where "z \<in> set ns" "plain_node x = plain_node z" by blast
      then have "z \<in> set ns" "obj_value (fst x) = obj_value (fst z)" using key[of x] key[of z] by simp_all
      then show False using new by simp
    qed
    then show ?thesis by (simp add: removeAll_id eq)
  next
    case False
    then have "y \<noteq> x" "plain_node y \<noteq> plain_node x" using x(2) key[of x] key[of y] by auto
    then show ?thesis using Cons False by auto
  qed
qed simp

lemma set_plain: "map plain_node (set_object k v ns) = set_value k (obj_value v) (map plain_node ns)"
  by (induction ns) (auto simp: set_object_def set_value_def)

lemma locked_plain:
  assumes "\<And>s. (case body (m\<lparr>semaphore := s\<rparr>) of (m', r) \<Rightarrow> (plain m', map_sum id (map_result obj_value \<circ> f) r)) =
      (case body' (plain m\<lparr>semaphore := s\<rparr>) of (m', r) \<Rightarrow> (m', map_sum id f' r))"
  shows "map_option (map_prod plain (map_sum id (map_result obj_value))) (answer f (sem_lock fault body m)) =
    answer f' (sem_lock fault body' (plain m))"
  using assms[of "semaphore m - 1"]
  by (cases fault)
    (auto simp: sem_lock_def Semaphore_defs answer_def sum.map_comp split: prod.splits)

lemma plain_map_equal:
  assumes "owns_nothing (nodes m)" "distinct (map (obj_value \<circ> fst) (nodes m))"
  shows "map_option (map_prod plain (map_sum id (map_result obj_value)))
      (StringMap_op (\<lambda>_. 0) (\<lambda>_. 0) n fault op m) = SharedMap_op n fault op (plain m)"
proof -
  note inline = temporary_inline copy_inline delete_inline find_plain ShObject_moved_def
  note found = owns_nothing_found[OF assms(1)]
  show ?thesis
  proof (cases op)
    case (Count k)
    show ?thesis
      unfolding Count StringMap_op.simps SharedMap_op.simps StringMap_count_def SharedMap_count_def
      by (rule locked_plain) (auto simp: inline split: option.split)
  next
    case (Update k v)
    show ?thesis
      unfolding Update StringMap_op.simps SharedMap_op.simps StringMap_update_def SharedMap_update_def
      by (rule locked_plain)
        (auto simp: inline assign_object_def ShObject_move_assign_def set_plain split: option.split dest: found)
  next
    case (Insert k v)
    show ?thesis
      unfolding Insert StringMap_op.simps SharedMap_op.simps StringMap_insert_def SharedMap_insert_def
      by (rule locked_plain) (auto simp: inline insert_node_def split: option.split)
  next
    case (At k)
    show ?thesis
      unfolding At StringMap_op.simps SharedMap_op.simps StringMap_at_def SharedMap_at_def
      by (rule locked_plain) (auto simp: inline split: option.split)
  next
    case (Erase k)
    show ?thesis
      unfolding Erase StringMap_op.simps SharedMap_op.simps StringMap_erase_def SharedMap_erase_def
      by (rule locked_plain)
        (auto simp: inline remove_plain[OF assms(2)] split: option.split dest: found)
  next
    case Size
    show ?thesis
      unfolding Size StringMap_op.simps SharedMap_op.simps SharedMap_size_def
      by (rule locked_plain) simp
  qed
qed

section \<open>Properties\<close>

lemma strings_inv_new: "strings_inv kc vc n {#} (SharedMap_new base sem_size state_size map_size bsize bcount)"
  using run_start[of bsize bcount "base + sem_size + state_size + bcount + map_size"]
  by (simp add: strings_inv_def SharedMap_new_def nodes_ok_def heap_for_def Let_def)

text \<open>
  C15: The shared map keeps its promises for strings, and leaks nothing. From a state that
  satisfies the invariant, every call answers and leaves the contents as an unbounded map does,
  or it throws \<^verbatim>\<open>bad_alloc\<close> and the contents are as before (the strong guarantee); the lock is
  free again, and the live requests of the heap are those of the nodes, of their keys and
  values, and of the objects the callers hold, to which the copy that \<^verbatim>\<open>at\<close> returns is added.
  Dropping such an object gives its characters back, and \<^verbatim>\<open>destroy\<close> leaves no block used but
  those of the objects still held.
\<close>

theorem string_map_refines:
  assumes "strings_inv kc vc n held m"
  shows "(\<exists>m' r. StringMap_op kc vc n None op m = Some (m', r) \<and>
      string_call op (node_contents (nodes m)) (node_contents (nodes m')) r \<and>
      strings_inv kc vc n (result_claims r + held) m') \<and>
    (\<forall>t others. held = claims t + others \<longrightarrow> strings_inv kc vc n others (StringMap_drop t m)) \<and>
    used_set (heap (StringMap_destroy n m)) =
      (\<Union>(a, r)\<in>set_mset held. extent (heap (StringMap_destroy n m)) a r)"
proof (intro conjI allI impI)
  show "used_set (heap (StringMap_destroy n m)) =
      (\<Union>(a, r)\<in>set_mset held. extent (heap (StringMap_destroy n m)) a r)"
    using assms by (intro heap_for_used) (simp add: StringMap_destroy_def strings_inv_def destroy_law)
qed (use assms in \<open>simp_all add: string_op_leaves drop_law\<close>)

definition long_key :: string where
  "long_key = replicate 20 CHR ''a''"

theorem string_map_refines_witness:
  "\<exists>m' r. StringMap_op (string_chars 15) (\<lambda>_ :: nat. 0) 72 None (Insert long_key 1)
      (SharedMap_new 0 32 32 48 96 3) = Some (m', r) \<and>
    (r = Inl BadAlloc \<or> r = Inr (Bool True) \<and> node_contents (nodes m') = [long_key \<mapsto> 1])"
proof -
  let ?m = "SharedMap_new 0 32 32 48 96 3 :: (string, nat) StringMap"
  have "node_contents (nodes ?m) = Map.empty"
    by (auto simp: node_contents_def SharedMap_new_def Let_def)
  moreover have "r = Inr (Bool True)"
    if "map_sum id (map_result obj_value) r = Inr (Bool True)" for r :: "shmem_error + nat ShObject result"
    using that by (cases r; cases "projr r") auto
  ultimately show ?thesis
    using string_map_refines[OF strings_inv_new[of "string_chars 15" "\<lambda>_ :: nat. 0" 72 0 32 32 48 96 3],
        of "Insert long_key 1"]
    by (auto simp: string_call_def)
qed

text \<open>
  C16: On a heap without room for one more copy of a key, no call with this key does anything.
  Every call converts its key into a temporary over the heap of the map, so \<^verbatim>\<open>count\<close>, \<^verbatim>\<open>at\<close>,
  \<^verbatim>\<open>update\<close>, \<^verbatim>\<open>insert\<close> and \<^verbatim>\<open>erase\<close> throw \<^verbatim>\<open>bad_alloc\<close> and leave the map as it was, table
  included, whether the map holds the key or not: such a key can neither be found nor erased.
\<close>

theorem long_key_refused:
  assumes "semaphore m = 1" "op_key op = Some k" "no_room kc k (heap m)"
  shows "StringMap_op kc vc n None op m = Some (m, Inl BadAlloc)"
  using assms by (rule call_refused)

text \<open>A map of three blocks after the insertion of a long key, and of a short one behind it.\<close>

definition half_map :: "(string, nat) StringMap" where
  "half_map =
     \<lparr>semaphore = 1, heap = (ShMemState_new 96 3 115)\<lparr>used_blocks_table := ''011''\<rparr>,
      nodes = [(\<lparr>obj_value = long_key, obj_chars = Some (307, 21)\<rparr>, \<lparr>obj_value = 1, obj_chars = None\<rparr>, 211)]\<rparr>"

definition filled_map :: "(string, nat) StringMap" where
  "filled_map =
     \<lparr>semaphore = 1, heap = (ShMemState_new 96 3 115)\<lparr>used_blocks_table := ''111''\<rparr>,
      nodes = (\<lparr>obj_value = ''b'', obj_chars = None\<rparr>, \<lparr>obj_value = 2, obj_chars = None\<rparr>, 115) # nodes half_map\<rparr>"

lemma one_block: "0 < x \<Longrightarrow> x \<le> 96 \<Longrightarrow> get_size_in_blocks x 96 = 1"
  by (simp add: get_size_in_blocks_exact div_nat_eqI)

lemma long_chars: "string_chars 15 long_key = 21" "string_chars 15 ''b'' = 0" "long_key \<noteq> ''b''" "''b'' \<noteq> long_key"
  by (simp_all add: string_chars_def long_key_def numeral_eq_Suc)

lemmas run_sample = StringMap_insert_def with_temporary_def convert_def long_chars insert_node_def
  ShObject_copy_def ShObject_delete_def ShObject_moved_def ShAlloc_allocate_def ShAlloc_deallocate_def
  one_block find_free_blocks_def memset_def FREE_BLOCK_def USED_BLOCK_def ShMemState_new_def
  SharedMap_new_def sem_lock_free answer_def Let_def half_map_def filled_map_def

lemma filled_map_reached:
  "StringMap_op (string_chars 15) (\<lambda>_ :: nat. 0) 72 None (Insert long_key 1) (SharedMap_new 0 32 32 48 96 3) =
     Some (half_map, Inr (Bool True))"
  "StringMap_op (string_chars 15) (\<lambda>_ :: nat. 0) 72 None (Insert ''b'' 2) half_map =
     Some (filled_map, Inr (Bool True))"
  by (simp_all add: run_sample numeral_3_eq_3)

theorem long_key_refused_witness:
  "StringMap_op (string_chars 15) (\<lambda>_ :: nat. 0) 72 None (Erase long_key) filled_map =
     Some (filled_map, Inl BadAlloc) \<and> node_contents (nodes filled_map) long_key = Some 1"
proof
  show "StringMap_op (string_chars 15) (\<lambda>_ :: nat. 0) 72 None (Erase long_key) filled_map =
      Some (filled_map, Inl BadAlloc)"
    by (rule long_key_refused[of _ _ long_key]) (simp_all add: no_room_def run_sample)
  show "node_contents (nodes filled_map) long_key = Some 1"
    by (simp add: node_contents_def run_sample)
qed

end
