(* ===== verification/Shared_Drops.thy ===== *)
theory Shared_Drops
  imports Shared_Strings
begin

text \<open>
  \<^verbatim>\<open>SharedMap::at\<close> returns a string over the shared allocator, whose destructor gives its blocks
  back when the semaphore of \<^verbatim>\<open>4.shmem/include/shmap.h\<close> is released already. Here the block
  table of \<^verbatim>\<open>shalloc.h\<close> is read and written one character at a time, by processes that
  allocate and deallocate under the semaphore and by others that drop such strings at any
  moment. Accesses to one character are taken as atomic, which C++ does not promise.
\<close>

section \<open>Processes at the table\<close>

text \<open>
  Outside of the lock; inside, between two calls of the allocator; the search for free blocks
  that has seen some of them from a position on; the marking of the blocks found; the giving
  back of blocks, inside of the lock or outside.
\<close>

datatype control =
    Unlocked
  | Locked_idle
  | Searching nat nat nat
  | Marking nat nat nat
  | Freeing bool nat nat nat

text \<open>
  Requests are positions and numbers of blocks: those that belong to the map (nodes, and the
  characters of their keys and values), and those of the objects of a process (temporaries,
  and what \<^verbatim>\<open>at\<close> returned).
\<close>

record table_state =
  sem_value :: nat
  block_table :: string
  control_of :: "nat \<Rightarrow> control"
  of_map :: "(nat \<times> nat) set"
  of_process :: "nat \<Rightarrow> (nat \<times> nat) set"

abbreviation goes :: "nat \<Rightarrow> control \<Rightarrow> table_state \<Rightarrow> table_state" where
  "goes p x st \<equiv> st\<lparr>control_of := (control_of st)(p := x)\<rparr>"

abbreviation sets_block :: "nat \<Rightarrow> char \<Rightarrow> table_state \<Rightarrow> table_state" where
  "sets_block i c st \<equiv> st\<lparr>block_table := (block_table st)[i := c]\<rparr>"

inductive table_step :: "nat \<Rightarrow> table_state \<Rightarrow> table_state \<Rightarrow> bool" for p where
  enters: "control_of st p = Unlocked \<Longrightarrow> Semaphore_wait None (sem_value st) = Some (s, Inr ()) \<Longrightarrow>
    table_step p st (goes p Locked_idle (st\<lparr>sem_value := s\<rparr>))"
| leaves_lock: "control_of st p = Locked_idle \<Longrightarrow>
    table_step p st (goes p Unlocked (st\<lparr>sem_value := SemLock_delete None (sem_value st)\<rparr>))"
| searches: "control_of st p = Locked_idle \<Longrightarrow> 0 < n \<Longrightarrow> table_step p st (goes p (Searching n 0 0) st)"
| sees_free: "control_of st p = Searching n pos k \<Longrightarrow> k < n \<Longrightarrow> pos + n \<le> length (block_table st) \<Longrightarrow>
    block_table st ! (pos + k) = FREE_BLOCK \<Longrightarrow> table_step p st (goes p (Searching n pos (Suc k)) st)"
| sees_used: "control_of st p = Searching n pos k \<Longrightarrow> k < n \<Longrightarrow> pos + n \<le> length (block_table st) \<Longrightarrow>
    block_table st ! (pos + k) \<noteq> FREE_BLOCK \<Longrightarrow> table_step p st (goes p (Searching n (Suc pos) 0) st)"
| throws: "control_of st p = Searching n pos k \<Longrightarrow> length (block_table st) < pos + n \<Longrightarrow>
    table_step p st (goes p Locked_idle st)"
| finds: "control_of st p = Searching n pos n \<Longrightarrow> pos + n \<le> length (block_table st) \<Longrightarrow>
    table_step p st (goes p (Marking n pos 0) st)"
| marks: "control_of st p = Marking n pos k \<Longrightarrow> k < n \<Longrightarrow>
    table_step p st (goes p (Marking n pos (Suc k)) (sets_block (pos + k) USED_BLOCK st))"
| allocates: "control_of st p = Marking n pos n \<Longrightarrow>
    table_step p st (goes p Locked_idle
      (st\<lparr>of_process := (of_process st)(p := insert (pos, n) (of_process st p))\<rparr>))"
| moves_in: "control_of st p = Locked_idle \<Longrightarrow> (pos, n) \<in> of_process st p \<Longrightarrow>
    table_step p st (st\<lparr>of_map := insert (pos, n) (of_map st),
      of_process := (of_process st)(p := of_process st p - {(pos, n)})\<rparr>)"
| moves_out: "control_of st p = Locked_idle \<Longrightarrow> (pos, n) \<in> of_map st \<Longrightarrow>
    table_step p st (st\<lparr>of_map := of_map st - {(pos, n)},
      of_process := (of_process st)(p := insert (pos, n) (of_process st p))\<rparr>)"
| deallocates: "control_of st p = (if l then Locked_idle else Unlocked) \<Longrightarrow> (pos, n) \<in> of_process st p \<Longrightarrow>
    table_step p st (goes p (Freeing l n pos 0)
      (st\<lparr>of_process := (of_process st)(p := of_process st p - {(pos, n)})\<rparr>))"
| unmarks: "control_of st p = Freeing l n pos k \<Longrightarrow> k < n \<Longrightarrow>
    table_step p st (goes p (Freeing l n pos (Suc k)) (sets_block (pos + k) FREE_BLOCK st))"
| deallocated: "control_of st p = Freeing l n pos n \<Longrightarrow>
    table_step p st (goes p (if l then Locked_idle else Unlocked) st)"

inductive table_reach :: "table_state \<Rightarrow> table_state \<Rightarrow> bool" where
  stay: "table_reach st st"
| further: "table_reach st st' \<Longrightarrow> table_step p st' st'' \<Longrightarrow> table_reach st st''"

definition table_new :: "nat \<Rightarrow> table_state" where
  "table_new bcount =
     \<lparr>sem_value = 1, block_table = replicate bcount FREE_BLOCK, control_of = (\<lambda>_. Unlocked),
      of_map = {}, of_process = (\<lambda>_. {})\<rparr>"

section \<open>Claims\<close>

text \<open>Who claims blocks: a request of the map, one of a process, or a process at work.\<close>

datatype owner = InMap nat nat | HeldBy nat nat nat | Worker nat

fun at_work :: "control \<Rightarrow> nat set" where
  "at_work (Marking n pos k) = {pos..<pos + n}"
| "at_work (Freeing l n pos k) = {pos + k..<pos + n}"
| "at_work _ = {}"

fun unmarked :: "control \<Rightarrow> nat set" where
  "unmarked (Marking n pos k) = {pos + k..<pos + n}"
| "unmarked _ = {}"

fun seen_free :: "control \<Rightarrow> nat set" where
  "seen_free (Searching n pos k) = {pos..<pos + k}"
| "seen_free _ = {}"

fun in_lock :: "control \<Rightarrow> bool" where
  "in_lock Unlocked = False"
| "in_lock (Freeing l n pos k) = l"
| "in_lock _ = True"

fun claim :: "table_state \<Rightarrow> owner \<Rightarrow> nat set" where
  "claim st (InMap pos n) = (if (pos, n) \<in> of_map st then {pos..<pos + n} else {})"
| "claim st (HeldBy p pos n) = (if (pos, n) \<in> of_process st p then {pos..<pos + n} else {})"
| "claim st (Worker p) = at_work (control_of st p)"

text \<open>Claims that do not overlap, and moving one from an owner to another without one.\<close>

definition claims_ok :: "nat \<Rightarrow> (owner \<Rightarrow> nat set) \<Rightarrow> bool" where
  "claims_ok len c \<longleftrightarrow> (\<forall>a b. a \<noteq> b \<longrightarrow> c a \<inter> c b = {}) \<and> (\<forall>a. c a \<subseteq> {..<len})"

lemma claims_moved:
  assumes "claims_ok len c" "a \<noteq> b" "c b = {}"
  shows "claims_ok len (c(a := {}, b := c a)) \<and> (\<Union>x. (c(a := {}, b := c a)) x) = (\<Union>x. c x)"
proof
  show "claims_ok len (c(a := {}, b := c a))"
    using assms by (fastforce simp: claims_ok_def)
  show "(\<Union>x. (c(a := {}, b := c a)) x) = (\<Union>x. c x)"
    using assms(2,3) by (auto split: if_splits)
qed

lemma claims_sub: "claims_ok len c \<Longrightarrow> a \<noteq> b \<Longrightarrow> c b \<subseteq> c a \<Longrightarrow> c b = {}"
  unfolding claims_ok_def by blast

lemma union_upd: "f a \<subseteq> A \<Longrightarrow> (\<Union>x. (f(a := A)) x) = A \<union> (\<Union>x. f x)"
  by (auto split: if_splits)

lemma union_remove:
  assumes "f a = insert j A" "j \<notin> A" "\<And>b. b \<noteq> a \<Longrightarrow> j \<notin> f b"
  shows "(\<Union>x. (f(a := A)) x) = (\<Union>x. f x) - {j}"
proof -
  have "(\<Union>x. f x) = insert j A \<union> (\<Union>x. (f(a := A)) x)"
    using union_upd[of "f(a := A)" a "insert j A"] assms(1) by (simp add: fun_upd_idem subset_insertI)
  moreover have "A \<subseteq> (\<Union>x. (f(a := A)) x)" by (rule subsetI, rule UN_I[of a]) auto
  moreover have "j \<notin> (\<Union>x. (f(a := A)) x)" using assms(2,3) by (auto split: if_splits)
  ultimately show ?thesis by blast
qed

lemma claims_shrink:
  "claims_ok len c \<Longrightarrow> A \<subseteq> c a \<Longrightarrow> claims_ok len (c(a := A))"
  by (fastforce simp: claims_ok_def)

definition lock_ok :: "table_state \<Rightarrow> bool" where
  "lock_ok st \<longleftrightarrow> (\<forall>p q. in_lock (control_of st p) \<longrightarrow> in_lock (control_of st q) \<longrightarrow> p = q) \<and>
     sem_value st = (if \<exists>p. in_lock (control_of st p) then 0 else 1)"

definition table_inv :: "table_state \<Rightarrow> bool" where
  "table_inv st \<longleftrightarrow> lock_ok st \<and> claims_ok (length (block_table st)) (claim st) \<and>
     (\<forall>i < length (block_table st). block_table st ! i \<noteq> FREE_BLOCK \<longleftrightarrow>
        i \<in> (\<Union>x. claim st x) \<and> (\<forall>p. i \<notin> unmarked (control_of st p))) \<and>
     (\<forall>p. \<forall>i\<in>seen_free (control_of st p). i < length (block_table st) \<and> block_table st ! i = FREE_BLOCK)"

lemma table_invD:
  assumes "table_inv st"
  shows inv_lock: "lock_ok st" and inv_claims: "claims_ok (length (block_table st)) (claim st)"
    and inv_used: "i < length (block_table st) \<Longrightarrow> block_table st ! i \<noteq> FREE_BLOCK \<longleftrightarrow>
      i \<in> (\<Union>x. claim st x) \<and> (\<forall>p. i \<notin> unmarked (control_of st p))"
    and inv_seen: "i \<in> seen_free (control_of st p) \<Longrightarrow> i < length (block_table st) \<and> block_table st ! i = FREE_BLOCK"
  using assms unfolding table_inv_def by blast+

lemma table_invI:
  assumes "lock_ok st" "claim st = C" "claims_ok (length (block_table st)) C"
    and "\<And>i. i < length (block_table st) \<Longrightarrow> block_table st ! i \<noteq> FREE_BLOCK \<longleftrightarrow>
      i \<in> (\<Union>x. C x) \<and> (\<forall>p. i \<notin> unmarked (control_of st p))"
    and "\<And>i p. i \<in> seen_free (control_of st p) \<Longrightarrow> i < length (block_table st) \<and> block_table st ! i = FREE_BLOCK"
  shows "table_inv st"
  using assms unfolding table_inv_def by blast

section \<open>The steps keep the invariant\<close>

lemma claim_goes:
  "claim (goes p x st) = (claim st)(Worker p := at_work x)"
  by (rule ext, case_tac xa) auto

text \<open>Who works or searches holds the lock, but for the objects given back.\<close>

lemma unmarked_in_lock: "i \<in> unmarked x \<Longrightarrow> in_lock x" and seen_in_lock: "i \<in> seen_free x \<Longrightarrow> in_lock x"
  by (cases x; simp)+

text \<open>A step that leaves the claims and the table as they are.\<close>

lemma inv_control_sem:
  assumes "table_inv st" "lock_ok (goes p x (st\<lparr>sem_value := s\<rparr>))" "at_work x = at_work (control_of st p)"
    and "unmarked x = unmarked (control_of st p)"
    and "\<forall>i\<in>seen_free x. i < length (block_table st) \<and> block_table st ! i = FREE_BLOCK"
  shows "table_inv (goes p x (st\<lparr>sem_value := s\<rparr>))"
proof -
  have "claim (goes p x (st\<lparr>sem_value := s\<rparr>)) = claim st"
    by (rule ext, case_tac xa) (use assms(3) in auto)
  moreover have "(\<forall>q. i \<notin> unmarked (((control_of st)(p := x)) q)) \<longleftrightarrow> (\<forall>q. i \<notin> unmarked (control_of st q))" for i
    using assms(4) by auto
  ultimately show ?thesis using assms(1,2,5) by (simp add: table_inv_def)
qed

lemma inv_control:
  assumes "table_inv st" "lock_ok (goes p x st)" "at_work x = at_work (control_of st p)"
    and "unmarked x = unmarked (control_of st p)"
    and "\<forall>i\<in>seen_free x. i < length (block_table st) \<and> block_table st ! i = FREE_BLOCK"
  shows "table_inv (goes p x st)"
  using inv_control_sem[where s = "sem_value st" and st = st and x = x and p = p] assms by simp

text \<open>A request goes from one owner to another; nobody's work or search changes but p's.\<close>

lemma inv_moved:
  assumes "table_inv st" "claim st' = (claim st)(a := {}, b := claim st a)" "a \<noteq> b" "claim st b = {}"
    and "lock_ok st'" "block_table st' = block_table st"
    and "\<And>q. unmarked (control_of st' q) = unmarked (control_of st q)"
    and "\<And>q. seen_free (control_of st' q) = seen_free (control_of st q)"
  shows "table_inv st'"
proof -
  have "claims_ok (length (block_table st)) (claim st)" using assms(1) by (simp add: table_inv_def)
  note moved = claims_moved[OF this assms(3,4), folded assms(2)]
  have "claims_ok (length (block_table st')) (claim st')" using moved assms(6) by simp
  then show ?thesis
    using assms(1,5) moved unfolding table_inv_def assms(6-8) by (elim conjE, intro conjI) simp_all
qed

lemma lock_same:
  assumes "lock_ok st" "\<And>q. in_lock (control_of st' q) = in_lock (control_of st q)"
    and "sem_value st' = sem_value st"
  shows "lock_ok st'"
  using assms(1) unfolding lock_ok_def assms(2,3) .

lemma lock_goes:
  "lock_ok st \<Longrightarrow> in_lock x = in_lock (control_of st p) \<Longrightarrow> lock_ok (goes p x st)"
  by (auto simp: lock_ok_def)

lemma only_holder:
  "table_inv st \<Longrightarrow> in_lock (control_of st p) \<Longrightarrow> in_lock (control_of st q) \<Longrightarrow> q = p"
  by (auto simp: table_inv_def lock_ok_def)

lemma unmarked_one:
  "(\<And>q. q \<noteq> p \<Longrightarrow> unmarked (f q) = {}) \<Longrightarrow> (\<forall>q. i \<notin> unmarked (f q)) \<longleftrightarrow> i \<notin> unmarked (f p)"
  by (metis empty_iff)

lemma inv_finds:
  assumes inv: "table_inv st" and c: "control_of st p = Searching n pos n"
    and len: "pos + n \<le> length (block_table st)"
  shows "table_inv (goes p (Marking n pos 0) st)"
proof -
  let ?A = "{pos..<pos + n}" and ?t = "block_table st" and ?x = "Marking n pos 0"
  have free: "?t ! i = FREE_BLOCK" if "i \<in> ?A" for i
    using inv_seen[OF inv, of i p] c that by simp
  have others: "unmarked (control_of st q) = {}" "seen_free (control_of st q) = {}" if "q \<noteq> p" for q
    using only_holder[OF inv, of p q] that c unmarked_in_lock seen_in_lock by fastforce+
  have unm: "unmarked (control_of st q) = {}" for q using others(1)[of q] c by (cases "q = p") auto
  have used: "?t ! i \<noteq> FREE_BLOCK \<longleftrightarrow> i \<in> (\<Union>x. claim st x)" if "i < length ?t" for i
    using inv_used[OF inv that] unm by blast
  have "i \<notin> claim st a" if "i \<in> ?A" for i a
    using used[of i] free[OF that] that len by auto
  then have none: "claim st a \<inter> ?A = {}" for a by blast
  have cl: "claim (goes p ?x st) = (claim st)(Worker p := ?A)"
    by (simp add: claim_goes)
  have "claims_ok (length ?t) ((claim st)(Worker p := ?A))"
    using inv_claims[OF inv] none len by (auto simp: claims_ok_def)
  moreover have "?t ! i \<noteq> FREE_BLOCK \<longleftrightarrow> i \<in> (\<Union>x. ((claim st)(Worker p := ?A)) x) \<and>
      (\<forall>q. i \<notin> unmarked (((control_of st)(p := ?x)) q))" if "i < length ?t" for i
  proof -
    have "claim st (Worker p) \<subseteq> ?A" using c by simp
    from union_upd[of "claim st" "Worker p" ?A, OF this] have "i \<in> (\<Union>x. ((claim st)(Worker p := ?A)) x) \<longleftrightarrow> i \<in> ?A \<or> i \<in> (\<Union>x. claim st x)"
      by blast
    moreover have "(\<forall>q. i \<notin> unmarked (((control_of st)(p := ?x)) q)) \<longleftrightarrow> i \<notin> ?A"
      using unm by auto
    moreover have "i \<in> ?A \<Longrightarrow> i \<notin> (\<Union>x. claim st x)" using none by blast
    ultimately show ?thesis using used[OF that] by blast
  qed
  moreover have "lock_ok (goes p ?x st)"
    using inv_lock[OF inv] by (rule lock_goes) (simp add: c)
  moreover have "seen_free (((control_of st)(p := ?x)) q) = {}" for q
    using others(2)[of q] by simp
  ultimately show ?thesis unfolding table_inv_def cl by simp
qed

lemma inv_marks:
  assumes inv: "table_inv st" and c: "control_of st p = Marking n pos k" and k: "k < n"
  shows "table_inv (goes p (Marking n pos (Suc k)) (sets_block (pos + k) USED_BLOCK st))"
    (is "table_inv ?st")
proof -
  let ?t = "block_table st" and ?x = "Marking n pos (Suc k)"
  have A: "{pos..<pos + n} = claim st (Worker p)" using c by simp
  have "pos + n - 1 \<in> claim st (Worker p)" using k by (simp only: A[symmetric]) simp
  then have "pos + n - 1 < length ?t" using inv_claims[OF inv] unfolding claims_ok_def by blast
  then have len: "pos + n \<le> length ?t" using k by simp
  have others: "unmarked (control_of st q) = {}" "seen_free (control_of st q) = {}" if "q \<noteq> p" for q
    using only_holder[OF inv, of p q] that c unmarked_in_lock seen_in_lock by fastforce+
  have "claim ?st = (claim st)(Worker p := at_work ?x)" by (rule ext, case_tac x) auto
  then have cl: "claim ?st = claim st" using c by (simp add: fun_upd_idem)
  have unm: "(\<forall>q. i \<notin> unmarked (((control_of st)(p := ?x)) q)) \<longleftrightarrow>
      i = pos + k \<or> (\<forall>q. i \<notin> unmarked (control_of st q))" for i
  proof -
    have "(\<forall>q. i \<notin> unmarked (control_of st q)) \<longleftrightarrow> i \<notin> {pos + k..<pos + n}"
      using unmarked_one[of p "control_of st"] others(1) c by simp
    moreover have "(\<forall>q. i \<notin> unmarked (((control_of st)(p := ?x)) q)) \<longleftrightarrow> i \<notin> {pos + Suc k..<pos + n}"
      using unmarked_one[of p "(control_of st)(p := ?x)"] others(1) by simp
    ultimately show ?thesis using k by auto
  qed
  show ?thesis
  proof (rule table_invI[OF _ cl])
    show "lock_ok ?st" using inv_lock[OF inv] by (rule lock_same) (simp_all add: c)
    show "claims_ok (length (block_table ?st)) (claim st)" using inv_claims[OF inv] by simp
  next
    fix i
    assume i: "i < length (block_table ?st)"
    show "block_table ?st ! i \<noteq> FREE_BLOCK \<longleftrightarrow>
        i \<in> (\<Union>x. claim st x) \<and> (\<forall>q. i \<notin> unmarked (control_of ?st q))"
    proof (cases "i = pos + k")
      case True
      have "i \<in> claim st (Worker p)" using k c True by simp
      then have "i \<in> (\<Union>x. claim st x)" by blast
      moreover have "block_table ?st ! i \<noteq> FREE_BLOCK"
        using True len k by (simp add: USED_BLOCK_def FREE_BLOCK_def)
      ultimately show ?thesis using unm[of i] True by simp
    next
      case False
      then have "block_table ?st ! i = ?t ! i" by simp
      then show ?thesis using inv_used[OF inv, of i] i unm[of i] False by simp
    qed
  next
    fix i q
    assume "i \<in> seen_free (control_of ?st q)"
    then show "i < length (block_table ?st) \<and> block_table ?st ! i = FREE_BLOCK"
      using others(2)[of q] by (simp split: if_splits)
  qed
qed

text \<open>Giving a block back, inside of the lock or outside, changes nothing another process relies on.\<close>

lemma inv_unmarks:
  assumes inv: "table_inv st" and c: "control_of st p = Freeing l n pos k" and k: "k < n"
  shows "table_inv (goes p (Freeing l n pos (Suc k)) (sets_block (pos + k) FREE_BLOCK st))"
    (is "table_inv ?st")
proof -
  let ?t = "block_table st" and ?x = "Freeing l n pos (Suc k)" and ?A = "{pos + Suc k..<pos + n}"
  have old: "claim st (Worker p) = insert (pos + k) ?A" using c k by auto
  have cl: "claim ?st = (claim st)(Worker p := ?A)" by (rule ext, case_tac x) auto
  have ok: "claims_ok (length ?t) ((claim st)(Worker p := ?A))"
    using inv_claims[OF inv] by (rule claims_shrink) (auto simp: c)
  have mine: "pos + k \<notin> claim st a" if "a \<noteq> Worker p" for a
    using inv_claims[OF inv] that old unfolding claims_ok_def by blast
  have union: "i \<in> (\<Union>x. ((claim st)(Worker p := ?A)) x) \<longleftrightarrow> i \<noteq> pos + k \<and> i \<in> (\<Union>x. claim st x)" for i
  proof -
    have "(\<Union>x. ((claim st)(Worker p := ?A)) x) = (\<Union>x. claim st x) - {pos + k}"
      using union_remove[of "claim st" "Worker p" "pos + k" ?A, OF old] mine by simp
    then show ?thesis by (simp only:) blast
  qed
  have unm: "unmarked (((control_of st)(p := ?x)) q) = unmarked (control_of st q)" for q using c by simp
  show ?thesis
  proof (rule table_invI[OF _ cl])
    show "lock_ok ?st" using inv_lock[OF inv] by (rule lock_same) (simp_all add: c)
    show "claims_ok (length (block_table ?st)) ((claim st)(Worker p := ?A))" using ok by simp
  next
    fix i
    assume i: "i < length (block_table ?st)"
    have "(\<forall>q. i \<notin> unmarked (control_of ?st q)) \<longleftrightarrow> (\<forall>q. i \<notin> unmarked (control_of st q))"
      using unm by simp
    moreover have "block_table ?st ! i \<noteq> FREE_BLOCK \<longleftrightarrow> i \<noteq> pos + k \<and> ?t ! i \<noteq> FREE_BLOCK"
      using i by (cases "i = pos + k") simp_all
    moreover have "i < length ?t" using i by simp
    ultimately show "block_table ?st ! i \<noteq> FREE_BLOCK \<longleftrightarrow>
        i \<in> (\<Union>x. ((claim st)(Worker p := ?A)) x) \<and> (\<forall>q. i \<notin> unmarked (control_of ?st q))"
      using inv_used[OF inv, of i] union[of i] by blast
  next
    fix i q
    assume "i \<in> seen_free (control_of ?st q)"
    then have "i \<in> seen_free (control_of st q)" by (simp split: if_splits)
    then show "i < length (block_table ?st) \<and> block_table ?st ! i = FREE_BLOCK"
      using inv_seen[OF inv, of i q] by (cases "i = pos + k") simp_all
  qed
qed

section \<open>Every step\<close>

lemma inv_step:
  assumes "table_step p st st'" "table_inv st"
  shows "table_inv st'"
  using assms
proof (induction rule: table_step.induct)
  case (sees_free st n pos k)
  have "seen_free (control_of st p) = {pos..<pos + k}" using sees_free by simp
  then have "\<forall>i\<in>{pos..<pos + Suc k}. i < length (block_table st) \<and> block_table st ! i = FREE_BLOCK"
    using inv_seen[OF sees_free(5), of _ p] sees_free(2-4) by (auto simp: less_Suc_eq)
  then show ?case
    using sees_free by (intro inv_control lock_goes inv_lock) auto
next
  case (finds st n pos)
  then show ?case by (intro inv_finds)
next
  case (marks st n pos k)
  then show ?case by (intro inv_marks)
next
  case (unmarks st l n pos k)
  then show ?case by (intro inv_unmarks)
next
  case (searches st n)
  then show ?case by (intro inv_control lock_goes inv_lock) auto
next
  case (sees_used st n pos k)
  then show ?case by (intro inv_control lock_goes inv_lock) auto
next
  case (throws st n pos k)
  then show ?case by (intro inv_control lock_goes inv_lock) auto
next
  case (deallocated st l n pos)
  then show ?case by (intro inv_control lock_goes inv_lock) auto
next
  case (enters st s)
  have s: "sem_value st = 1" "s = 0"
    using enters(2) inv_lock[OF enters(3)] by (auto simp: Semaphore_defs lock_ok_def split: if_splits)
  then have none: "\<not> in_lock (control_of st q)" for q
    using inv_lock[OF enters(3)] by (auto simp: lock_ok_def split: if_splits)
  then have "lock_ok (goes p Locked_idle (st\<lparr>sem_value := s\<rparr>))" using s by (auto simp: lock_ok_def)
  then show ?case using enters by (intro inv_control_sem) auto
next
  case (leaves_lock st)
  then have "\<not> in_lock (control_of st q)" if "q \<noteq> p" for q
    using only_holder[OF leaves_lock(2), of p q] that by auto
  moreover have "sem_value st = 0"
    using inv_lock[OF leaves_lock(2)] in_lock.simps(3) leaves_lock(1) unfolding lock_ok_def by metis
  ultimately have "lock_ok (goes p Unlocked (st\<lparr>sem_value := SemLock_delete None (sem_value st)\<rparr>))"
    by (auto simp: lock_ok_def Semaphore_defs)
  then show ?case using leaves_lock by (intro inv_control_sem) auto
next
  case (allocates st n pos)
  let ?a = "Worker p" and ?b = "HeldBy p pos n"
  let ?st = "goes p Locked_idle (st\<lparr>of_process := (of_process st)(p := insert (pos, n) (of_process st p))\<rparr>)"
  have "claim st ?b \<subseteq> claim st ?a" using allocates(1) by simp
  then have "claim st ?b = {}" using claims_sub[OF inv_claims[OF allocates(2)], of ?a ?b] by simp
  moreover have "claim ?st = (claim st)(?a := {}, ?b := claim st ?a)"
    by (rule ext, case_tac x) (use allocates(1) in simp_all)
  moreover have "lock_ok ?st"
    using inv_lock[OF allocates(2)] by (rule lock_same) (simp_all add: allocates(1))
  ultimately show ?case
    by (intro inv_moved[OF allocates(2), of ?st ?a ?b]) (use allocates(1) in simp_all)
next
  case (moves_in st pos n)
  let ?a = "HeldBy p pos n" and ?b = "InMap pos n"
  let ?st = "st\<lparr>of_map := insert (pos, n) (of_map st),
      of_process := (of_process st)(p := of_process st p - {(pos, n)})\<rparr>"
  have "claim st ?b \<subseteq> claim st ?a" using moves_in(2) by simp
  then have "claim st ?b = {}" using claims_sub[OF inv_claims[OF moves_in(3)], of ?a ?b] by simp
  moreover have "claim ?st = (claim st)(?a := {}, ?b := claim st ?a)"
    by (rule ext, case_tac x) (use moves_in(2) in simp_all)
  moreover have "lock_ok ?st" using inv_lock[OF moves_in(3)] by (rule lock_same) simp_all
  ultimately show ?case
    by (intro inv_moved[OF moves_in(3), of ?st ?a ?b]) (use moves_in(1) in simp_all)
next
  case (moves_out st pos n)
  let ?a = "InMap pos n" and ?b = "HeldBy p pos n"
  let ?st = "st\<lparr>of_map := of_map st - {(pos, n)},
      of_process := (of_process st)(p := insert (pos, n) (of_process st p))\<rparr>"
  have "claim st ?b \<subseteq> claim st ?a" using moves_out(2) by simp
  then have "claim st ?b = {}" using claims_sub[OF inv_claims[OF moves_out(3)], of ?a ?b] by simp
  moreover have "claim ?st = (claim st)(?a := {}, ?b := claim st ?a)"
    by (rule ext, case_tac x) (use moves_out(2) in simp_all)
  moreover have "lock_ok ?st" using inv_lock[OF moves_out(3)] by (rule lock_same) simp_all
  ultimately show ?case
    by (intro inv_moved[OF moves_out(3), of ?st ?a ?b]) (use moves_out(1) in simp_all)
next
  case (deallocates st l pos n)
  let ?a = "HeldBy p pos n" and ?b = "Worker p"
  let ?st = "goes p (Freeing l n pos 0) (st\<lparr>of_process := (of_process st)(p := of_process st p - {(pos, n)})\<rparr>)"
  have old: "unmarked (control_of st p) = {}" "seen_free (control_of st p) = {}" "claim st ?b = {}"
      "in_lock (control_of st p) = l"
    using deallocates(1) by (simp_all split: if_splits)
  have "claim ?st = (claim st)(?a := {}, ?b := claim st ?a)"
    by (rule ext, case_tac x) (use deallocates(2) in simp_all)
  moreover have "lock_ok ?st"
    using inv_lock[OF deallocates(3)] by (rule lock_same) (simp_all add: old(4))
  ultimately show ?case
    by (intro inv_moved[OF deallocates(3), of ?st ?a ?b]) (use old in simp_all)
qed

lemma inv_new: "table_inv (table_new bcount)"
proof -
  have "claim (table_new bcount) a = {}" for a by (cases a) (auto simp: table_new_def)
  then have "claim (table_new bcount) = (\<lambda>_. {})" by blast
  then show ?thesis by (simp add: table_inv_def claims_ok_def lock_ok_def table_new_def)
qed

lemma reach_inv: "table_reach st st' \<Longrightarrow> table_inv st \<Longrightarrow> table_inv st'"
  by (induction rule: table_reach.induct) (auto intro: inv_step)

lemma step_length: "table_step p st st' \<Longrightarrow> length (block_table st') = length (block_table st)"
  by (induction rule: table_step.induct) simp_all

lemma reach_length: "table_reach st st' \<Longrightarrow> length (block_table st') = length (block_table st)"
  by (induction rule: table_reach.induct) (simp_all add: step_length)

lemma unmarked_at_work: "unmarked x \<subseteq> at_work x"
  by (cases x) auto

text \<open>Requests that are not at work are marked.\<close>

lemma live_marked:
  assumes inv: "table_inv st" and "i \<in> claim st a" "\<And>p. a \<noteq> Worker p"
  shows "i < length (block_table st) \<and> block_table st ! i \<noteq> FREE_BLOCK"
proof -
  have len: "i < length (block_table st)"
    using inv_claims[OF inv] assms(2) unfolding claims_ok_def by blast
  have "i \<notin> unmarked (control_of st p)" for p
  proof
    assume "i \<in> unmarked (control_of st p)"
    then have "i \<in> claim st (Worker p)" using unmarked_at_work by auto
    then show False using inv_claims[OF inv] assms(2,3) unfolding claims_ok_def by blast
  qed
  then show ?thesis using inv_used[OF inv len] len assms(2) by blast
qed

section \<open>A process that is not disturbed\<close>

text \<open>Its steps are the functions of the allocator.\<close>

abbreviation alone :: "nat \<Rightarrow> table_state \<Rightarrow> table_state \<Rightarrow> bool" where
  "alone p \<equiv> (table_step p)\<^sup>*\<^sup>*"

lemma alone_sees:
  assumes "pos + n \<le> length (block_table st)" "k \<le> n" "\<forall>i<k. block_table st ! (pos + i) = FREE_BLOCK"
  shows "alone p (goes p (Searching n pos 0) st) (goes p (Searching n pos k) st)"
  using assms(2,3)
proof (induction k)
  case (Suc k)
  have "alone p (goes p (Searching n pos 0) st) (goes p (Searching n pos k) st)"
    by (rule Suc.IH) (use Suc.prems in auto)
  also have "table_step p (goes p (Searching n pos k) st) (goes p (Searching n pos (Suc k)) st)"
    using sees_free[of "goes p (Searching n pos k) st" p n pos k] Suc.prems assms(1) by simp
  finally show ?case .
qed simp

lemma alone_skips:
  assumes "pos + n \<le> length (block_table st)" "i < n" "block_table st ! (pos + i) \<noteq> FREE_BLOCK"
  shows "alone p (goes p (Searching n pos 0) st) (goes p (Searching n (Suc pos) 0) st)"
proof -
  define k where "k = (LEAST i. block_table st ! (pos + i) \<noteq> FREE_BLOCK)"
  have k: "block_table st ! (pos + k) \<noteq> FREE_BLOCK"
    unfolding k_def by (rule LeastI[where P = "\<lambda>i. block_table st ! (pos + i) \<noteq> FREE_BLOCK"], rule assms(3))
  moreover have "k \<le> i" unfolding k_def by (rule Least_le, rule assms(3))
  moreover have "\<forall>j<k. block_table st ! (pos + j) = FREE_BLOCK"
    unfolding k_def by (auto dest: not_less_Least)
  ultimately have k: "block_table st ! (pos + k) \<noteq> FREE_BLOCK" "k \<le> i"
      "\<forall>j<k. block_table st ! (pos + j) = FREE_BLOCK" by blast+
  then have "alone p (goes p (Searching n pos 0) st) (goes p (Searching n pos k) st)"
    using assms(1,2) by (intro alone_sees) simp_all
  also have "table_step p (goes p (Searching n pos k) st) (goes p (Searching n (Suc pos) 0) st)"
    using sees_used[of "goes p (Searching n pos k) st" p n pos k] k(1,2) assms(1,2) by simp
  finally show ?thesis .
qed

lemma alone_searches:
  assumes "pos + n \<le> Suc (length (block_table st))"
    and "\<forall>j<pos. \<exists>i<n. block_table st ! (j + i) \<noteq> FREE_BLOCK"
  shows "alone p (goes p (Searching n 0 0) st) (goes p (Searching n pos 0) st)"
  using assms
proof (induction pos)
  case (Suc pos)
  have "alone p (goes p (Searching n 0 0) st) (goes p (Searching n pos 0) st)"
    by (rule Suc.IH) (use Suc.prems in auto)
  moreover obtain i where "i < n" "block_table st ! (pos + i) \<noteq> FREE_BLOCK" using Suc.prems(2) by blast
  moreover from this have "alone p (goes p (Searching n pos 0) st) (goes p (Searching n (Suc pos) 0) st)"
    using Suc.prems(1) by (intro alone_skips) auto
  ultimately show ?case by (rule_tac rtranclp_trans)
qed simp

lemma alone_sets:
  assumes "\<And>k st'. k < n \<Longrightarrow> control_of st' p = x k \<Longrightarrow> table_step p st' (goes p (x (Suc k)) (sets_block (pos + k) c st'))"
    and "k \<le> n" "pos + n \<le> length (block_table st)"
  shows "alone p (goes p (x 0) st) (goes p (x k) (st\<lparr>block_table := memset (block_table st) pos c k\<rparr>))"
  using assms(2)
proof (induction k)
  case (Suc k)
  let ?st = "goes p (x k) (st\<lparr>block_table := memset (block_table st) pos c k\<rparr>)"
  have "alone p (goes p (x 0) st) ?st" by (rule Suc.IH) (use Suc.prems in simp)
  moreover have "(memset (block_table st) pos c k)[pos + k := c] = memset (block_table st) pos c (Suc k)"
    using Suc.prems assms(3)
    by (intro nth_equalityI) (auto simp: memset_length memset_nth nth_list_update)
  then have "goes p (x (Suc k)) (sets_block (pos + k) c ?st) =
      goes p (x (Suc k)) (st\<lparr>block_table := memset (block_table st) pos c (Suc k)\<rparr>)" by simp
  moreover have "table_step p ?st (goes p (x (Suc k)) (sets_block (pos + k) c ?st))"
    using Suc.prems by (intro assms(1)) simp_all
  ultimately show ?case by (simp only: rtranclp.rtrancl_into_rtrancl)
qed (simp add: memset_def)

lemma find_free_blocks_first:
  assumes "find_free_blocks n t = Some pos" "j < pos"
  shows "\<exists>i<n. t ! (j + i) \<noteq> FREE_BLOCK"
proof (rule ccontr)
  assume "\<not> ?thesis"
  moreover have len: "j + n \<le> length t" using find_free_blocks_Some(1)[OF assms(1)] assms(2) by simp
  ultimately have "take n (drop j t) = replicate n FREE_BLOCK" by (intro nth_equalityI) auto
  then have "prefix (replicate n FREE_BLOCK) (drop j t)" by (metis take_is_prefix)
  with assms show False by (auto simp: find_free_blocks_def find_str_Some_iff)
qed

lemma alone_step: "table_step p st st' \<Longrightarrow> alone p st st'"
  by (rule r_into_rtranclp)

lemma alone_allocates:
  assumes "control_of st p = Locked_idle" "0 < n" "find_free_blocks n (block_table st) = Some pos"
  shows "alone p st (goes p Locked_idle (st\<lparr>block_table := memset (block_table st) pos USED_BLOCK n,
    of_process := (of_process st)(p := insert (pos, n) (of_process st p))\<rparr>))"
proof -
  let ?t = "memset (block_table st) pos USED_BLOCK n"
  note free = find_free_blocks_Some[OF assms(3)]
  have 1: "alone p st (goes p (Searching n 0 0) st)"
    by (rule alone_step, rule searches[OF assms(1,2)])
  have 2: "alone p (goes p (Searching n 0 0) st) (goes p (Searching n pos 0) st)"
    using free(1) find_free_blocks_first[OF assms(3)] by (intro alone_searches) auto
  have 3: "alone p (goes p (Searching n pos 0) st) (goes p (Searching n pos n) st)"
    using free by (intro alone_sees) auto
  have 4: "alone p (goes p (Searching n pos n) st) (goes p (Marking n pos 0) st)"
    using finds[of "goes p (Searching n pos n) st" p n pos] free(1) by (intro alone_step) simp
  have 5: "alone p (goes p (Marking n pos 0) st) (goes p (Marking n pos n) (st\<lparr>block_table := ?t\<rparr>))"
    using free(1) by (intro alone_sets[where x = "\<lambda>k. Marking n pos k" and n = n] marks) auto
  have 6: "alone p (goes p (Marking n pos n) (st\<lparr>block_table := ?t\<rparr>)) (goes p Locked_idle
      (st\<lparr>block_table := ?t, of_process := (of_process st)(p := insert (pos, n) (of_process st p))\<rparr>))"
    using allocates[of "goes p (Marking n pos n) (st\<lparr>block_table := ?t\<rparr>)" p n pos]
    by (intro alone_step) simp
  show ?thesis
    by (rule rtranclp_trans[OF 1 rtranclp_trans[OF 2 rtranclp_trans[OF 3
        rtranclp_trans[OF 4 rtranclp_trans[OF 5 6]]]]])
qed

lemma alone_deallocates:
  assumes "control_of st p = (if l then Locked_idle else Unlocked)" "(pos, n) \<in> of_process st p"
    and "pos + n \<le> length (block_table st)"
  shows "alone p st (goes p (if l then Locked_idle else Unlocked)
    (st\<lparr>of_process := (of_process st)(p := of_process st p - {(pos, n)}),
      block_table := memset (block_table st) pos FREE_BLOCK n\<rparr>))"
proof -
  let ?st = "st\<lparr>of_process := (of_process st)(p := of_process st p - {(pos, n)})\<rparr>"
  let ?t = "memset (block_table st) pos FREE_BLOCK n"
  have 1: "alone p st (goes p (Freeing l n pos 0) ?st)"
    by (rule alone_step, rule deallocates[OF assms(1,2)])
  have 2: "alone p (goes p (Freeing l n pos 0) ?st) (goes p (Freeing l n pos n) (?st\<lparr>block_table := ?t\<rparr>))"
    using alone_sets[where x = "\<lambda>k. Freeing l n pos k" and n = n and k = n and p = p and pos = pos
        and c = FREE_BLOCK and st = ?st, OF unmarks] assms(3) by simp
  have 3: "alone p (goes p (Freeing l n pos n) (?st\<lparr>block_table := ?t\<rparr>))
      (goes p (if l then Locked_idle else Unlocked) (?st\<lparr>block_table := ?t\<rparr>))"
    using deallocated[of "goes p (Freeing l n pos n) (?st\<lparr>block_table := ?t\<rparr>)" p l n pos]
    by (intro alone_step) (cases l; simp)
  show ?thesis by (rule rtranclp_trans[OF 1 rtranclp_trans[OF 2 3]])
qed

section \<open>Property\<close>

text \<open>
  C17: Dropping the strings of \<^verbatim>\<open>at\<close> outside of the lock does not damage the block table. However
  the steps of any number of processes interleave, each reading or writing one character of
  the table, with searches and markings under the semaphore and drops at any time: at most one
  process is inside of the lock; the requests of the map, those of the processes and those
  being marked or given back lie in the table and never share a block; every block of a request
  that is not at work is marked as used; and when no process is at work, no other block is.
\<close>

theorem drops_keep_requests_apart:
  assumes "table_reach (table_new bcount) st"
  shows "(\<forall>p q. in_lock (control_of st p) \<and> in_lock (control_of st q) \<longrightarrow> p = q) \<and>
    (\<forall>a b. a \<noteq> b \<longrightarrow> claim st a \<inter> claim st b = {}) \<and>
    (\<forall>a. \<forall>i\<in>claim st a. i < bcount \<and> ((\<forall>p. a \<noteq> Worker p) \<longrightarrow> block_table st ! i \<noteq> FREE_BLOCK)) \<and>
    ((\<forall>p. at_work (control_of st p) = {}) \<longrightarrow>
      (\<forall>i<bcount. block_table st ! i \<noteq> FREE_BLOCK \<longrightarrow> (\<exists>a. i \<in> claim st a \<and> (\<forall>p. a \<noteq> Worker p))))"
proof -
  have inv: "table_inv st" by (rule reach_inv[OF assms inv_new])
  have len: "length (block_table st) = bcount" using reach_length[OF assms] by (simp add: table_new_def)
  show ?thesis
  proof (intro conjI allI impI ballI)
    show "p = q" if "in_lock (control_of st p) \<and> in_lock (control_of st q)" for p q
      using only_holder[OF inv] that by blast
    show "claim st a \<inter> claim st b = {}" if "a \<noteq> b" for a b
      using inv_claims[OF inv] that unfolding claims_ok_def by blast
    show "i < bcount" if "i \<in> claim st a" for i a
      using inv_claims[OF inv] that len unfolding claims_ok_def by blast
    show "block_table st ! i \<noteq> FREE_BLOCK" if "i \<in> claim st a" "\<forall>p. a \<noteq> Worker p" for i a
      using live_marked[OF inv that(1)] that(2) by blast
    show "\<exists>a. i \<in> claim st a \<and> (\<forall>p. a \<noteq> Worker p)"
      if "\<forall>p. at_work (control_of st p) = {}" "i < bcount" "block_table st ! i \<noteq> FREE_BLOCK" for i
    proof -
      note idle = that
      obtain a where "i \<in> claim st a" using inv_used[OF inv, of i] idle(2,3) len by blast
      moreover from this have "\<forall>p. a \<noteq> Worker p" using idle(1) by auto
      ultimately show ?thesis by blast
    qed
  qed
qed

lemma alone_reach: "alone p st st' \<Longrightarrow> table_reach st0 st \<Longrightarrow> table_reach st0 st'"
  by (induction rule: rtranclp_induct) (auto intro: further)

text \<open>A drop while another process has found a block.\<close>

definition two_processes ::
  "nat \<Rightarrow> string \<Rightarrow> control \<Rightarrow> control \<Rightarrow> (nat \<times> nat) set \<Rightarrow> table_state" where
  "two_processes s t x y mine =
     \<lparr>sem_value = s, block_table = t, control_of = (\<lambda>_. Unlocked)(Suc 0 := y, 0 := x),
      of_map = {}, of_process = (\<lambda>_. {})(0 := mine)\<rparr>"

lemma two_processes_simps:
  "sem_value (two_processes s t x y mine) = s" "block_table (two_processes s t x y mine) = t"
  "control_of (two_processes s t x y mine) 0 = x" "control_of (two_processes s t x y mine) (Suc 0) = y"
  "of_process (two_processes s t x y mine) 0 = mine"
  "(two_processes s t x y mine)\<lparr>control_of := (control_of (two_processes s' t' x y m'))(0 := z)\<rparr> =
     two_processes s t z y mine"
  "(two_processes s t x y mine)\<lparr>control_of := (control_of (two_processes s' t' x y m'))(Suc 0 := z)\<rparr> =
     two_processes s t x z mine"
  "(two_processes s t x y mine)\<lparr>sem_value := s'\<rparr> = two_processes s' t x y mine"
  "(two_processes s t x y mine)\<lparr>block_table := t'\<rparr> = two_processes s t' x y mine"
  "(two_processes s t x y mine)\<lparr>of_process := (of_process (two_processes s' t' x' y' m'))(0 := m)\<rparr> =
     two_processes s t x y m"
  by (simp_all add: two_processes_def fun_upd_twist)

definition dropping :: table_state where
  "dropping = two_processes 0 [USED_BLOCK, FREE_BLOCK] (Freeing False 1 0 0) (Marking 1 1 0) {}"

lemma dropping_reached: "table_reach (table_new 2) dropping"
proof -
  let ?f = "FREE_BLOCK" and ?u = "USED_BLOCK"
  note [simp del] = fun_upd_apply
  note simps = two_processes_simps Semaphore_defs
  have new: "table_new 2 = two_processes 1 [?f, ?f] Unlocked Unlocked {}"
    by (simp add: table_new_def two_processes_def numeral_2_eq_2 fun_upd_idem)
  have free: "find_free_blocks 1 [?f, ?f] = Some 0" by (simp add: find_free_blocks_def)
  have 1: "table_step 0 (table_new 2) (two_processes 0 [?f, ?f] Locked_idle Unlocked {})"
    using enters[of "table_new 2" 0 0] by (simp add: new simps)
  have 2: "alone 0 (two_processes 0 [?f, ?f] Locked_idle Unlocked {})
      (two_processes 0 [?u, ?f] Locked_idle Unlocked {(0, 1)})"
    using alone_allocates[of "two_processes 0 [?f, ?f] Locked_idle Unlocked {}" 0 1 0] free
    by (simp add: simps memset_def)
  have 3: "table_step 0 (two_processes 0 [?u, ?f] Locked_idle Unlocked {(0, 1)})
      (two_processes 1 [?u, ?f] Unlocked Unlocked {(0, 1)})"
    using leaves_lock[of "two_processes 0 [?u, ?f] Locked_idle Unlocked {(0, 1)}" 0] by (simp add: simps)
  have 4: "table_step 0 (two_processes 1 [?u, ?f] Unlocked Unlocked {(0, 1)})
      (two_processes 1 [?u, ?f] (Freeing False 1 0 0) Unlocked {})"
    using deallocates[of "two_processes 1 [?u, ?f] Unlocked Unlocked {(0, 1)}" 0 False 0 1] by (simp add: simps)
  have 5: "table_step (Suc 0) (two_processes 1 [?u, ?f] (Freeing False 1 0 0) Unlocked {})
      (two_processes 0 [?u, ?f] (Freeing False 1 0 0) Locked_idle {})"
    using enters[of "two_processes 1 [?u, ?f] (Freeing False 1 0 0) Unlocked {}" "Suc 0" 0] by (simp add: simps)
  have 6: "table_step (Suc 0) (two_processes 0 [?u, ?f] (Freeing False 1 0 0) Locked_idle {})
      (two_processes 0 [?u, ?f] (Freeing False 1 0 0) (Searching 1 0 0) {})"
    using searches[of "two_processes 0 [?u, ?f] (Freeing False 1 0 0) Locked_idle {}" "Suc 0" 1] by (simp add: simps)
  have 7: "table_step (Suc 0) (two_processes 0 [?u, ?f] (Freeing False 1 0 0) (Searching 1 0 0) {})
      (two_processes 0 [?u, ?f] (Freeing False 1 0 0) (Searching 1 1 0) {})"
    using sees_used[of "two_processes 0 [?u, ?f] (Freeing False 1 0 0) (Searching 1 0 0) {}" "Suc 0" 1 0 0]
    by (simp add: simps USED_BLOCK_def FREE_BLOCK_def)
  have 8: "table_step (Suc 0) (two_processes 0 [?u, ?f] (Freeing False 1 0 0) (Searching 1 1 0) {})
      (two_processes 0 [?u, ?f] (Freeing False 1 0 0) (Searching 1 1 1) {})"
    using sees_free[of "two_processes 0 [?u, ?f] (Freeing False 1 0 0) (Searching 1 1 0) {}" "Suc 0" 1 1 0]
    by (simp add: simps)
  have 9: "table_step (Suc 0) (two_processes 0 [?u, ?f] (Freeing False 1 0 0) (Searching 1 1 1) {}) dropping"
    using finds[of "two_processes 0 [?u, ?f] (Freeing False 1 0 0) (Searching 1 1 1) {}" "Suc 0" 1 1]
    by (simp add: simps dropping_def)
  show ?thesis
    by (rule further[OF further[OF further[OF further[OF further[OF further[OF further[OF
        alone_reach[OF 2 further[OF stay 1]] 3] 4] 5] 6] 7] 8] 9])
qed

theorem drops_keep_requests_apart_witness:
  "claim dropping (Worker 0) = {0} \<and> claim dropping (Worker (Suc 0)) = {Suc 0} \<and>
    claim dropping (Worker 0) \<inter> claim dropping (Worker (Suc 0)) = {}"
proof (intro conjI)
  show "claim dropping (Worker 0) = {0}" "claim dropping (Worker (Suc 0)) = {Suc 0}"
    by (auto simp: dropping_def two_processes_simps)
  show "claim dropping (Worker 0) \<inter> claim dropping (Worker (Suc 0)) = {}"
    using drops_keep_requests_apart[OF dropping_reached] by blast
qed

end
