(* ===== verification/Tcp_Descriptor.thy ===== *)
theory Tcp_Descriptor
  imports Handles
begin

text \<open>
  \<^verbatim>\<open>3.tcp/lib/descriptor.cpp\<close>: the class \<^verbatim>\<open>tcp::Descriptor\<close>, and what any program that uses
  it does to the descriptors the kernel hands out.
\<close>

section \<open>The class\<close>

record Descriptor =
  d_fd :: int

definition Descriptor_default :: Descriptor where
  "Descriptor_default = \<lparr>d_fd = -1\<rparr>"

definition Descriptor_new :: "int \<Rightarrow> Descriptor" where
  "Descriptor_new fd = \<lparr>d_fd = fd\<rparr>"

definition Descriptor_valid :: "Descriptor \<Rightarrow> bool" where
  "Descriptor_valid d \<longleftrightarrow> d_fd d > -1"

definition Descriptor_invalidate :: "Descriptor \<Rightarrow> Descriptor" where
  "Descriptor_invalidate d = d\<lparr>d_fd := -1\<rparr>"

text \<open>The list is what was passed to \<^verbatim>\<open>::close\<close>; the destructor is \<^verbatim>\<open>close\<close>.\<close>

definition Descriptor_close :: "Descriptor \<Rightarrow> Descriptor \<times> int list" where
  "Descriptor_close d =
     (if Descriptor_valid d then (Descriptor_invalidate d, [d_fd d]) else (d, []))"

text \<open>The move constructor: the new object and what it leaves of the other.\<close>

definition Descriptor_move :: "Descriptor \<Rightarrow> Descriptor \<times> Descriptor" where
  "Descriptor_move other = (Descriptor_new (d_fd other), Descriptor_invalidate other)"

text \<open>The move assignment between two distinct objects.\<close>

definition Descriptor_assign :: "Descriptor \<Rightarrow> Descriptor \<Rightarrow> Descriptor \<times> Descriptor \<times> int list" where
  "Descriptor_assign this other =
     (let (this, cs) = Descriptor_close this
      in (this\<lparr>d_fd := d_fd other\<rparr>, Descriptor_invalidate other, cs))"

text \<open>The move assignment of an object to itself: both names are the same object.\<close>

definition Descriptor_assign_self :: "Descriptor \<Rightarrow> Descriptor \<times> int list" where
  "Descriptor_assign_self this =
     (let (this, cs) = Descriptor_close this
      in (Descriptor_invalidate (this\<lparr>d_fd := d_fd this\<rparr>), cs))"

definition Descriptor_set_fd :: "Descriptor \<Rightarrow> int \<Rightarrow> Descriptor \<times> int list" where
  "Descriptor_set_fd d fd = (let (d, cs) = Descriptor_close d in (d\<lparr>d_fd := fd\<rparr>, cs))"

lemmas Descriptor_defs = Descriptor_default_def Descriptor_new_def Descriptor_valid_def
  Descriptor_invalidate_def Descriptor_close_def Descriptor_move_def Descriptor_assign_def
  Descriptor_assign_self_def Descriptor_set_fd_def

interpretation tcp_handle: owning_handle d_fd Descriptor_new Descriptor_close Descriptor_move
  Descriptor_assign Descriptor_set_fd
  by unfold_locales (auto simp: Descriptor_defs Let_def split: if_splits)

section \<open>Programs that use it\<close>

text \<open>
  The objects of a program, the numbers the kernel has handed out and the numbers passed to
  \<^verbatim>\<open>::close\<close>. A step is one use of the class. Whenever a number is put into an object it has
  just come from the kernel, which hands out a number that is not open.
\<close>

record pool =
  objs :: "Descriptor list"
  taken :: "int multiset"
  closed :: "int multiset"

definition open_fds :: "pool \<Rightarrow> int multiset" where
  "open_fds p = taken p - closed p"

definition held :: "Descriptor list \<Rightarrow> int multiset" where
  "held ds = (\<Sum>d\<leftarrow>ds. owned (d_fd d))"

inductive pool_step :: "pool \<Rightarrow> pool \<Rightarrow> bool" where
  step_new: "0 \<le> fd \<Longrightarrow> fd \<notin># open_fds p \<Longrightarrow>
    pool_step p (p\<lparr>objs := objs p @ [Descriptor_new fd], taken := add_mset fd (taken p)\<rparr>)"
| step_default: "pool_step p (p\<lparr>objs := objs p @ [Descriptor_default]\<rparr>)"
| step_set: "i < length (objs p) \<Longrightarrow> 0 \<le> fd \<Longrightarrow> fd \<notin># open_fds p \<Longrightarrow>
    Descriptor_set_fd (objs p ! i) fd = (d, cs) \<Longrightarrow>
    pool_step p (p\<lparr>objs := (objs p)[i := d], taken := add_mset fd (taken p),
                   closed := closed p + mset cs\<rparr>)"
| step_close: "i < length (objs p) \<Longrightarrow> Descriptor_close (objs p ! i) = (d, cs) \<Longrightarrow>
    pool_step p (p\<lparr>objs := (objs p)[i := d], closed := closed p + mset cs\<rparr>)"
| step_move: "i < length (objs p) \<Longrightarrow> Descriptor_move (objs p ! i) = (new, old) \<Longrightarrow>
    pool_step p (p\<lparr>objs := (objs p)[i := old] @ [new]\<rparr>)"
| step_assign: "i < length (objs p) \<Longrightarrow> j < length (objs p) \<Longrightarrow> i \<noteq> j \<Longrightarrow>
    Descriptor_assign (objs p ! i) (objs p ! j) = (d, e, cs) \<Longrightarrow>
    pool_step p (p\<lparr>objs := (objs p)[i := d, j := e], closed := closed p + mset cs\<rparr>)"
| step_assign_self: "i < length (objs p) \<Longrightarrow> Descriptor_assign_self (objs p ! i) = (d, cs) \<Longrightarrow>
    pool_step p (p\<lparr>objs := (objs p)[i := d], closed := closed p + mset cs\<rparr>)"

definition pool_start :: pool where
  "pool_start = \<lparr>objs = [], taken = {#}, closed = {#}\<rparr>"

abbreviation pool_reachable :: "pool \<Rightarrow> bool" where
  "pool_reachable \<equiv> pool_step\<^sup>*\<^sup>* pool_start"

section \<open>The invariant\<close>

definition pool_inv :: "pool \<Rightarrow> bool" where
  "pool_inv p \<longleftrightarrow> taken p = closed p + held (objs p) \<and> (\<forall>n. count (held (objs p)) n \<le> 1)"

lemma held_simps [simp]:
  "held [] = {#}" "held (d # ds) = owned (d_fd d) + held ds" "held (ds @ es) = held ds + held es"
  by (simp_all add: held_def)

lemma held_update:
  "i < length ds \<Longrightarrow> held (ds[i := d]) + owned (d_fd (ds ! i)) = held ds + owned (d_fd d)"
  by (induction ds arbitrary: i) (auto simp: less_Suc_eq_0_disj)

text \<open>Replacing one object and closing some numbers.\<close>

lemma held_replace:
  assumes "i < length ds" "owned (d_fd d) + cs = owned (d_fd (ds ! i)) + new"
  shows "held (ds[i := d]) + cs = held ds + new"
proof -
  have "held (ds[i := d]) + cs + owned (d_fd (ds ! i)) = held ds + (owned (d_fd d) + cs)"
    using held_update[OF assms(1), of d] by (simp add: ac_simps)
  also have "\<dots> = held ds + new + owned (d_fd (ds ! i))"
    using assms(2) by (simp add: ac_simps)
  finally show ?thesis by simp
qed

lemma open_fds_inv: "pool_inv p \<Longrightarrow> open_fds p = held (objs p)"
  by (simp add: pool_inv_def open_fds_def)

text \<open>
  A step that conserves ownership keeps the invariant, when what it takes is fresh.
\<close>

lemma pool_inv_conserve [inv_intros]:
  assumes "pool_inv p" "held ds + cs = held (objs p) + new"
    and "\<forall>n. count (held (objs p) + new) n \<le> 1"
  shows "pool_inv (p\<lparr>objs := ds, taken := taken p + new, closed := closed p + cs\<rparr>)"
proof -
  have "count (held ds) n \<le> count (held ds + cs) n" for n by simp
  then have "\<forall>n. count (held ds) n \<le> 1" using assms(2,3) by (metis order_trans)
  moreover have "taken p + new = closed p + cs + held ds"
    using assms(1,2) by (simp add: pool_inv_def ac_simps)
  ultimately show ?thesis by (simp add: pool_inv_def)
qed

lemma fresh_count:
  assumes "pool_inv p" "fd \<notin># open_fds p"
  shows "\<forall>n. count (held (objs p) + {#fd#}) n \<le> 1"
  using assms open_fds_inv[OF assms(1)] by (auto simp: pool_inv_def not_in_iff)

lemma pool_inv_step:
  assumes "pool_step p q" "pool_inv p"
  shows "pool_inv q"
  using assms
proof (cases rule: pool_step.cases)
  case (step_new fd)
  have "held (objs p @ [Descriptor_new fd]) + {#} = held (objs p) + {#fd#}"
    using step_new by (simp add: Descriptor_new_def)
  from pool_inv_conserve[OF assms(2) this fresh_count[OF assms(2)]] step_new show ?thesis by simp
next
  case step_default
  have "held (objs p @ [Descriptor_default]) + {#} = held (objs p) + {#}"
    by (simp add: Descriptor_default_def)
  from pool_inv_conserve[OF assms(2) this] step_default assms(2) show ?thesis
    by (simp add: pool_inv_def)
next
  case (step_set i fd d cs)
  then have "owned (d_fd d) + mset cs = owned (d_fd (objs p ! i)) + {#fd#}"
    using tcp_handle.set_conserves[of "objs p ! i" fd d cs] by simp
  then have "held ((objs p)[i := d]) + mset cs = held (objs p) + {#fd#}"
    using step_set by (intro held_replace)
  from pool_inv_conserve[OF assms(2) this fresh_count[OF assms(2)]] step_set show ?thesis by simp
next
  case (step_close i d cs)
  then have "held ((objs p)[i := d]) + mset cs = held (objs p) + {#}"
    using tcp_handle.close_conserves[of "objs p ! i" d cs] by (intro held_replace) simp_all
  from pool_inv_conserve[OF assms(2) this] step_close assms(2) show ?thesis
    by (simp add: pool_inv_def)
next
  case (step_move i new old)
  then have law: "d_fd new = d_fd (objs p ! i)" "d_fd old = -1"
    using tcp_handle.move_law[of "objs p ! i" new old] by simp_all
  then have "held ((objs p)[i := old] @ [new]) + {#} = held (objs p) + {#}"
    using held_update[of i "objs p" old] step_move by simp
  from pool_inv_conserve[OF assms(2) this] step_move assms(2) show ?thesis
    by (simp add: pool_inv_def)
next
  case (step_assign i j d e cs)
  then have law: "d_fd d = d_fd (objs p ! j)" "d_fd e = -1" "mset cs = owned (d_fd (objs p ! i))"
    using tcp_handle.assign_law[of "objs p ! i" "objs p ! j" d e cs] by simp_all
  let ?O = "objs p" and ?D = "(objs p)[i := d, j := e]"
  have "held ?D + owned (d_fd (?O ! j)) = held (?O[i := d])"
    using held_update[of j "?O[i := d]" e] step_assign law(2) by simp
  then have "held ?D + mset cs + owned (d_fd (?O ! j)) = held (?O[i := d]) + mset cs"
    by (simp add: ac_simps)
  also have "\<dots> = held ?O + owned (d_fd (?O ! j))"
    using held_update[of i ?O d] step_assign law(1,3) by simp
  finally have "held ?D + mset cs = held ?O + {#}" by simp
  from pool_inv_conserve[OF assms(2) this] step_assign assms(2) show ?thesis
    by (simp add: pool_inv_def)
next
  case (step_assign_self i d cs)
  then have "held ((objs p)[i := d]) + mset cs = held (objs p) + {#}"
    by (intro held_replace) (auto simp: Descriptor_defs Let_def split: if_splits)
  from pool_inv_conserve[OF assms(2) this] step_assign_self assms(2) show ?thesis
    by (simp add: pool_inv_def)
qed

lemma pool_inv_reachable: "pool_reachable p \<Longrightarrow> pool_inv p"
  by (induction rule: rtranclp_induct)
    (auto simp: pool_inv_step, simp add: pool_inv_def pool_start_def)

lemma held_member: "d \<in> set ds \<Longrightarrow> owned (d_fd d) \<subseteq># held ds"
proof (induction ds)
  case (Cons e ds)
  show ?case
  proof (cases "d = e")
    case False
    with Cons have "owned (d_fd d) \<subseteq># held ds" by simp
    also have "\<dots> \<subseteq># held (e # ds)" by simp
    finally show ?thesis .
  qed simp
qed simp

lemma held_two:
  assumes "i < j" "j < length ds" "Descriptor_valid (ds ! i)" "d_fd (ds ! i) = d_fd (ds ! j)"
  shows "2 \<le> count (held ds) (d_fd (ds ! i))"
proof -
  have "ds = take j ds @ ds ! j # drop (Suc j) ds" using assms(2) by (rule id_take_nth_drop)
  then have "held ds = held (take j ds @ ds ! j # drop (Suc j) ds)" by (rule arg_cong)
  then have "held ds = held (take j ds) + owned (d_fd (ds ! j)) + held (drop (Suc j) ds)"
    by (simp only: held_simps add.assoc)
  moreover have "ds ! i \<in> set (take j ds)"
    using assms(1,2) by (metis in_set_conv_nth length_take min.absorb2 less_imp_le nth_take)
  then have "count (owned (d_fd (ds ! i))) (d_fd (ds ! i)) \<le> count (held (take j ds)) (d_fd (ds ! i))"
    by (intro mset_subset_eq_count held_member)
  ultimately show ?thesis
    using assms(3,4) by (simp add: Descriptor_valid_def owned_def Suc_le_eq)
qed

lemma held_none: "\<forall>d\<in>set ds. \<not> Descriptor_valid d \<Longrightarrow> held ds = {#}"
  by (induction ds) (auto simp: Descriptor_valid_def owned_def)

section \<open>Properties\<close>

text \<open>
  C6: No leak, no double close, one owner. However a program constructs, moves, assigns,
  resets and closes descriptors, at every moment the open descriptors are exactly those held by
  a valid object, no two objects hold the same one, nothing was passed to \<^verbatim>\<open>::close\<close> more
  often than the kernel handed it out, and when no object is valid any more (after all
  destructors) everything handed out has been closed exactly once.
\<close>

theorem descriptors_owned_once:
  assumes "pool_reachable p"
  shows "open_fds p = held (objs p) \<and> closed p \<subseteq># taken p \<and>
    (\<forall>i j. i < length (objs p) \<longrightarrow> j < length (objs p) \<longrightarrow> i \<noteq> j \<longrightarrow>
       Descriptor_valid (objs p ! i) \<longrightarrow> d_fd (objs p ! i) \<noteq> d_fd (objs p ! j)) \<and>
    ((\<forall>d\<in>set (objs p). \<not> Descriptor_valid d) \<longrightarrow> closed p = taken p)"
proof -
  have inv: "pool_inv p" using assms by (rule pool_inv_reachable)
  have "d_fd (objs p ! i) \<noteq> d_fd (objs p ! j)"
    if "i < length (objs p)" "j < length (objs p)" "i \<noteq> j" "Descriptor_valid (objs p ! i)" for i j
  proof
    assume eq: "d_fd (objs p ! i) = d_fd (objs p ! j)"
    have "2 \<le> count (held (objs p)) (d_fd (objs p ! i))"
    proof (cases "i < j")
      case True
      then show ?thesis using held_two that eq by blast
    next
      case False
      moreover have "Descriptor_valid (objs p ! j)" using that(4) eq by (simp add: Descriptor_valid_def)
      ultimately show ?thesis using held_two[of j i "objs p"] that eq by simp
    qed
    moreover have "count (held (objs p)) (d_fd (objs p ! i)) \<le> 1" using inv by (simp add: pool_inv_def)
    ultimately show False by simp
  qed
  then show ?thesis
    using inv open_fds_inv[OF inv] held_none by (auto simp: pool_inv_def)
qed

theorem descriptors_owned_once_witness:
  "open_fds \<lparr>objs = [\<lparr>d_fd = 3\<rparr>, \<lparr>d_fd = -1\<rparr>], taken = {#3#}, closed = {#}\<rparr> =
     held [\<lparr>d_fd = 3\<rparr>, \<lparr>d_fd = -1\<rparr>]"
proof -
  let ?p = "\<lparr>objs = [\<lparr>d_fd = 3\<rparr>], taken = {#3#}, closed = {#}\<rparr> :: pool"
  have "pool_step pool_start ?p"
    using pool_step.step_new[of 3 pool_start]
    by (simp add: pool_start_def open_fds_def Descriptor_new_def)
  moreover have "pool_step ?p \<lparr>objs = [\<lparr>d_fd = 3\<rparr>, \<lparr>d_fd = -1\<rparr>], taken = {#3#}, closed = {#}\<rparr>"
    using pool_step.step_default[of ?p] by (simp add: Descriptor_default_def)
  ultimately have "pool_reachable \<lparr>objs = [\<lparr>d_fd = 3\<rparr>, \<lparr>d_fd = -1\<rparr>], taken = {#3#}, closed = {#}\<rparr>"
    by simp
  from descriptors_owned_once[OF this] show ?thesis by simp
qed

end
