(* ===== verification/Tcp_Socket.thy ===== *)
theory Tcp_Socket
  imports Tcp_Descriptor Posix Std_String
begin

text \<open>
  \<^verbatim>\<open>3.tcp\<close>: the classes \<^verbatim>\<open>Address\<close> and \<^verbatim>\<open>Socket\<close>, the exceptions of \<^verbatim>\<open>tcperr.h\<close> and
  the base class of connections and servers.

  An exception carries what its constructor is given; a text made by \<^verbatim>\<open>strerror\<close> is the
  error number it is made from.
\<close>

section \<open>Address\<close>

record Address =
  a_address :: string
  a_port :: "16 word"

definition Address_default :: Address where
  "Address_default = \<lparr>a_address = [], a_port = 0\<rparr>"

definition Address_new :: "string \<Rightarrow> 16 word \<Rightarrow> Address" where
  "Address_new addr port = \<lparr>a_address = addr, a_port = port\<rparr>"

text \<open>The move leaves the string empty (as libstdc++ does; nothing reads it) and the port 0.\<close>

definition Address_assign :: "Address \<Rightarrow> Address \<Rightarrow> Address \<times> Address" where
  "Address_assign this other = (other, \<lparr>a_address = [], a_port = 0\<rparr>)"

definition Address_str :: "Address \<Rightarrow> string" where
  "Address_str a = a_address a @ '':'' @ to_string_nat (unat (a_port a))"

section \<open>Exceptions\<close>

datatype what = Strerror errno | Text string

datatype tcp_error =
    Error what
  | DescriptorError what
  | SocketError what
  | TimeOutError what
  | AddressError what Address
  | SocketOptionError what string

text \<open>The free function \<^verbatim>\<open>handle_error\<close> of \<^verbatim>\<open>connection.cpp\<close> and \<^verbatim>\<open>nonblock_connection.cpp\<close>.\<close>

definition handle_error :: "errno + 'a \<Rightarrow> tcp_error + 'a" where
  "handle_error errnum =
     (case errnum of
        Inl errno \<Rightarrow>
          if errno = EAGAIN \<or> errno = EWOULDBLOCK \<or> errno = EINPROGRESS
          then Inl (TimeOutError (Strerror errno))
          else if errno = EBADF then Inl (DescriptorError (Strerror errno))
          else Inl (Error (Strerror errno))
      | Inr x \<Rightarrow> Inr x)"

text \<open>The one of \<^verbatim>\<open>server.cpp\<close>.\<close>

definition server_handle_error :: "errno + 'a \<Rightarrow> tcp_error + 'a" where
  "server_handle_error errnum =
     (case errnum of
        Inl errno \<Rightarrow>
          if errno = EAGAIN \<or> errno = EWOULDBLOCK \<or> errno = EINPROGRESS
          then Inl (TimeOutError (Strerror errno))
          else Inl (Error (Strerror errno))
      | Inr x \<Rightarrow> Inr x)"

section \<open>Socket options\<close>

text \<open>
  A socket is a descriptor; its methods are one or two calls on it whose results are given:
  of \<^verbatim>\<open>setsockopt\<close>, and of the two calls of \<^verbatim>\<open>fcntl\<close>, the second of which is made with the
  flags the first returned and \<^verbatim>\<open>O_NONBLOCK\<close>.
\<close>

type_synonym Socket = Descriptor

definition set_timeo :: "string \<Rightarrow> errno + unit \<Rightarrow> tcp_error + unit" where
  "set_timeo opt error =
     (case error of Inl errno \<Rightarrow> Inl (SocketOptionError (Strerror errno) opt) | Inr _ \<Rightarrow> Inr ())"

definition set_sndtimeo :: "errno + unit \<Rightarrow> tcp_error + unit" where
  "set_sndtimeo error = set_timeo ''SO_SNDTIMEO'' error"

definition set_rcvtimeo :: "errno + unit \<Rightarrow> tcp_error + unit" where
  "set_rcvtimeo error = set_timeo ''SO_RCVTIMEO'' error"

definition set_reuseaddr :: "errno + unit \<Rightarrow> tcp_error + unit" where
  "set_reuseaddr error =
     (case error of
        Inl errno \<Rightarrow> Inl (SocketOptionError (Strerror errno) ''SO_REUSEADDR'') | Inr _ \<Rightarrow> Inr ())"

definition set_nonblock ::
  "(int \<Rightarrow> 'w \<Rightarrow> 'w \<times> (errno + 32 word)) \<Rightarrow> (int \<Rightarrow> 32 word \<Rightarrow> 'w \<Rightarrow> 'w \<times> (errno + unit)) \<Rightarrow>
   32 word \<Rightarrow> Socket \<Rightarrow> 'w \<Rightarrow> 'w \<times> (tcp_error + unit)" where
  "set_nonblock getfl setfl O_NONBLOCK s w =
     (case getfl (d_fd s) w of
        (w, Inl errno) \<Rightarrow> (w, Inl (SocketOptionError (Strerror errno) ''O_NONBLOCK''))
      | (w, Inr flags) \<Rightarrow>
          (case setfl (d_fd s) (or flags O_NONBLOCK) w of
             (w, Inl errno) \<Rightarrow> (w, Inl (SocketOptionError (Strerror errno) ''O_NONBLOCK''))
           | (w, Inr _) \<Rightarrow> (w, Inr ())))"

section \<open>The base class\<close>

text \<open>\<^verbatim>\<open>BaseConnection\<close>: an address and a socket.\<close>

record BaseConnection =
  c_address :: Address
  c_socket :: Socket

definition BaseConnection_new :: "Address \<Rightarrow> BaseConnection" where
  "BaseConnection_new addr = \<lparr>c_address = addr, c_socket = Descriptor_default\<rparr>"

text \<open>Moves the socket in; the numbers are those closed on the way.\<close>

definition set_socket :: "BaseConnection \<Rightarrow> Socket \<Rightarrow> BaseConnection \<times> Socket \<times> int list" where
  "set_socket c other =
     (let (s, other, cs) = Descriptor_assign (c_socket c) other
      in (c\<lparr>c_socket := s\<rparr>, other, cs))"

lemma set_socket_conserves:
  assumes "set_socket c s = (c', s', cs)"
  shows "owned (d_fd (c_socket c')) + owned (d_fd s') + mset cs =
    owned (d_fd (c_socket c)) + owned (d_fd s) \<and> d_fd s' = -1 \<and> d_fd (c_socket c') = d_fd s"
proof -
  obtain d e es where a: "Descriptor_assign (c_socket c) s = (d, e, es)"
    by (cases "Descriptor_assign (c_socket c) s")
  then have "c' = c\<lparr>c_socket := d\<rparr>" "s' = e" "cs = es"
    using assms by (simp_all add: set_socket_def)
  then show ?thesis using tcp_handle.assign_law[OF a] by simp
qed

end
