(* ===== verification/Tcp_Connection.thy ===== *)
theory Tcp_Connection
  imports Tcp_Socket Exact_IO
begin

text \<open>
  \<^verbatim>\<open>3.tcp/lib/connection.cpp\<close>, \<^verbatim>\<open>nonblock_connection.cpp\<close> and \<^verbatim>\<open>server.cpp\<close>: the blocking
  connection with its exact reads and writes, the non-blocking one, and the server.

  A method that opens a socket is given the results of the system calls it makes, in the
  order it makes them, and returns the object, the numbers it passed to \<^verbatim>\<open>::close\<close> (the
  destructors of its locals included) and its outcome.
\<close>

type_synonym Connection = BaseConnection
type_synonym NonBlockConnection = BaseConnection
type_synonym Server = BaseConnection

section \<open>Connection\<close>

definition Connection_adopt :: "Socket \<Rightarrow> Address \<Rightarrow> Connection \<times> Socket \<times> int list" where
  "Connection_adopt fd addr = set_socket (BaseConnection_new addr) fd"

definition Connection_connect ::
  "bool \<Rightarrow> errno + int \<Rightarrow> errno + unit \<Rightarrow> Connection \<Rightarrow> Address \<Rightarrow>
   Connection \<times> int list \<times> (tcp_error + unit)" where
  "Connection_connect inet_aton os_socket os_connect c addr =
     (if \<not> inet_aton then (c, [], Inl (AddressError (Text ''incorrect address'') addr))
      else case os_socket of
        Inl errno \<Rightarrow>
          (c, snd (Descriptor_close (Descriptor_new (-1))), Inl (SocketError (Strerror errno)))
      | Inr fd \<Rightarrow>
          let s = Descriptor_new fd
          in case os_connect of
               Inl errno \<Rightarrow>
                 (c, snd (Descriptor_close s), Inl (AddressError (Strerror errno) addr))
             | Inr _ \<Rightarrow>
                 let (c, s, cs) = set_socket c s
                 in (c, cs @ snd (Descriptor_close s), Inr ()))"

text \<open>The constructor: when \<^verbatim>\<open>connect\<close> throws, the base object is destroyed.\<close>

definition Connection_new ::
  "bool \<Rightarrow> errno + int \<Rightarrow> errno + unit \<Rightarrow> Address \<Rightarrow> int list \<times> (tcp_error + Connection)" where
  "Connection_new inet_aton os_socket os_connect addr =
     (case Connection_connect inet_aton os_socket os_connect (BaseConnection_new addr) addr of
        (c, cs, Inl e) \<Rightarrow> (cs @ snd (Descriptor_close (c_socket c)), Inl e)
      | (c, cs, Inr _) \<Rightarrow> (cs, Inr c))"

definition Connection_write ::
  "'w write_call \<Rightarrow> Connection \<Rightarrow> string \<Rightarrow> 'w \<Rightarrow> 'w \<times> (tcp_error + nat)" where
  "Connection_write os_write c data w =
     (let (w, r) = os_write (d_fd (c_socket c)) data w in (w, handle_error r))"

partial_function (option) Connection_writeExact_loop ::
  "'w write_call \<Rightarrow> Connection \<Rightarrow> string \<Rightarrow> nat \<Rightarrow> 'w \<Rightarrow> ('w \<times> (tcp_error + unit)) option" where
  "Connection_writeExact_loop os_write c data counter w =
     (if counter < length data
      then case Connection_write os_write c (drop counter data) w of
        (w', Inl e) \<Rightarrow> Some (w', Inl e)
      | (w', Inr n) \<Rightarrow> Connection_writeExact_loop os_write c data (counter + n) w'
      else Some (w, Inr ()))"

text \<open>\<^verbatim>\<open>None\<close>: the call does not return.\<close>

definition Connection_writeExact ::
  "'w write_call \<Rightarrow> Connection \<Rightarrow> string \<Rightarrow> 'w \<Rightarrow> ('w \<times> (tcp_error + unit)) option" where
  "Connection_writeExact os_write c data w = Connection_writeExact_loop os_write c data 0 w"

definition Connection_read ::
  "'w read_call \<Rightarrow> Connection \<Rightarrow> nat \<Rightarrow> 'w \<Rightarrow> 'w \<times> (tcp_error + string)" where
  "Connection_read os_read c len w =
     (let (w, r) = os_read (d_fd (c_socket c)) len w in (w, handle_error r))"

text \<open>The loop's counter is the number of bytes in the buffer.\<close>

function Connection_readExact_loop ::
  "'w read_call \<Rightarrow> Connection \<Rightarrow> nat \<Rightarrow> string \<Rightarrow> 'w \<Rightarrow> 'w \<times> string \<times> (tcp_error + unit)" where
  "Connection_readExact_loop os_read c len buf w =
     (if length buf < len
      then case Connection_read os_read c (len - length buf) w of
        (w', Inl e) \<Rightarrow> (w', buf, Inl e)
      | (w', Inr bs) \<Rightarrow>
          if bs = [] then (w', buf, Inl (DescriptorError (Text ''readExact failure'')))
          else Connection_readExact_loop os_read c len (buf @ bs) w'
      else (w, buf, Inr ()))"
  by pat_completeness auto
termination
  by (relation "measure (\<lambda>(os_read, c, len, buf, w). len - length buf)")
    (auto simp: less_diff_conv2 neq_Nil_conv)

declare Connection_readExact_loop.simps [simp del]

definition Connection_readExact ::
  "'w read_call \<Rightarrow> Connection \<Rightarrow> nat \<Rightarrow> 'w \<Rightarrow> 'w \<times> string \<times> (tcp_error + unit)" where
  "Connection_readExact os_read c len w = Connection_readExact_loop os_read c len [] w"

definition Connection_close :: "Connection \<Rightarrow> Connection \<times> int list" where
  "Connection_close c =
     (let (s, cs) = Descriptor_close (c_socket c)
      in (c\<lparr>c_socket := s, c_address := Address_default\<rparr>, cs))"

section \<open>NonBlockConnection\<close>

definition NonBlockConnection_adopt ::
  "Socket \<Rightarrow> Address \<Rightarrow> NonBlockConnection \<times> Socket \<times> int list" where
  "NonBlockConnection_adopt s addr = set_socket (BaseConnection_new addr) s"

definition NonBlockConnection_close ::
  "'a BaseConnection_scheme \<Rightarrow> 'a BaseConnection_scheme \<times> int list" where
  "NonBlockConnection_close c =
     (let (s, cs) = Descriptor_close (c_socket c)
      in (c\<lparr>c_socket := s, c_address := Address_default\<rparr>, cs))"

definition NonBlockConnection_write ::
  "'w write_call \<Rightarrow> 'a BaseConnection_scheme \<Rightarrow> string \<Rightarrow> 'w \<Rightarrow> 'w \<times> (tcp_error + nat)" where
  "NonBlockConnection_write os_write c data w =
     (let (w, r) = os_write (d_fd (c_socket c)) data w in (w, handle_error r))"

text \<open>The buffer is the string passed in: its length bounds the read, its front is overwritten.\<close>

definition NonBlockConnection_read ::
  "'w read_call \<Rightarrow> 'a BaseConnection_scheme \<Rightarrow> string \<Rightarrow> 'w \<Rightarrow> 'w \<times> string \<times> (tcp_error + nat)" where
  "NonBlockConnection_read os_read c data w =
     (case os_read (d_fd (c_socket c)) (length data) w of
        (w, Inl errno) \<Rightarrow> (w, data, handle_error (Inl errno))
      | (w, Inr bs) \<Rightarrow> (w, bs @ drop (length bs) data, handle_error (Inr (length bs))))"

section \<open>Server\<close>

definition Server_listen ::
  "bool \<Rightarrow> errno + int \<Rightarrow> errno + unit \<Rightarrow> errno + unit \<Rightarrow> errno + unit \<Rightarrow> Server \<Rightarrow> Address \<Rightarrow>
   Server \<times> int list \<times> (tcp_error + unit)" where
  "Server_listen inet_aton os_socket os_reuse os_bind os_listen c addr =
     (if \<not> inet_aton then (c, [], Inl (AddressError (Text ''incorrect address'') addr))
      else case os_socket of
        Inl errno \<Rightarrow>
          (c, snd (Descriptor_close (Descriptor_new (-1))), Inl (SocketError (Strerror errno)))
      | Inr fd \<Rightarrow>
          let s = Descriptor_new fd
          in case set_reuseaddr os_reuse of
               Inl e \<Rightarrow> (c, snd (Descriptor_close s), Inl e)
             | Inr _ \<Rightarrow>
          case os_bind of
            Inl errno \<Rightarrow> (c, snd (Descriptor_close s), Inl (AddressError (Strerror errno) addr))
          | Inr _ \<Rightarrow>
          case os_listen of
            Inl errno \<Rightarrow> (c, snd (Descriptor_close s), Inl (AddressError (Strerror errno) addr))
          | Inr _ \<Rightarrow>
              let (c, s, cs) = set_socket c s
              in (c, cs @ snd (Descriptor_close s), Inr ()))"

text \<open>The constructor, as that of \<^verbatim>\<open>Connection\<close>; the move assignment is the base class's.\<close>

definition Server_new ::
  "bool \<Rightarrow> errno + int \<Rightarrow> errno + unit \<Rightarrow> errno + unit \<Rightarrow> errno + unit \<Rightarrow> Address \<Rightarrow>
   int list \<times> (tcp_error + Server)" where
  "Server_new inet_aton os_socket os_reuse os_bind os_listen addr =
     (case Server_listen inet_aton os_socket os_reuse os_bind os_listen (BaseConnection_new addr) addr of
        (c, cs, Inl e) \<Rightarrow> (cs @ snd (Descriptor_close (c_socket c)), Inl e)
      | (c, cs, Inr _) \<Rightarrow> (cs, Inr c))"

definition BaseConnection_assign ::
  "BaseConnection \<Rightarrow> BaseConnection \<Rightarrow> BaseConnection \<times> BaseConnection \<times> int list" where
  "BaseConnection_assign this other =
     (let (a, b) = Address_assign (c_address this) (c_address other);
          (s, t, cs) = Descriptor_assign (c_socket this) (c_socket other)
      in (this\<lparr>c_address := a, c_socket := s\<rparr>, other\<lparr>c_address := b, c_socket := t\<rparr>, cs))"

text \<open>
  What \<^verbatim>\<open>accept\<close> stores on success: the descriptor, the peer's address as text and the port
  field \<^verbatim>\<open>sin_port\<close> as it is, in network byte order.
\<close>

definition Server_accept ::
  "errno + (int \<times> string \<times> 16 word) \<Rightarrow> Server \<Rightarrow> int list \<times> (tcp_error + Connection)" where
  "Server_accept os_accept c =
     (case server_handle_error os_accept of
        Inl e \<Rightarrow> ([], Inl e)
      | Inr (client, ip, sin_port) \<Rightarrow>
          let (conn, s, cs) = Connection_adopt (Descriptor_new client) (Address_new ip sin_port)
          in (cs @ snd (Descriptor_close s), Inr conn))"

definition Server_accept_non_block ::
  "errno + (int \<times> string \<times> 16 word) \<Rightarrow> Server \<Rightarrow> int list \<times> (tcp_error + NonBlockConnection)" where
  "Server_accept_non_block os_accept4 c =
     (case server_handle_error os_accept4 of
        Inl e \<Rightarrow> ([], Inl e)
      | Inr (client, ip, sin_port) \<Rightarrow>
          let (conn, s, cs) =
            NonBlockConnection_adopt (Descriptor_new client) (Address_new ip sin_port)
          in (cs @ snd (Descriptor_close s), Inr conn))"

definition Server_close :: "Server \<Rightarrow> Server \<times> int list" where
  "Server_close c =
     (let (s, cs) = Descriptor_close (c_socket c) in (c\<lparr>c_socket := s\<rparr>, cs))"

section \<open>The loops as instances of the contract\<close>

interpretation tcp_reader: exact_reader "Connection_read os_read c"
  "DescriptorError (Text ''readExact failure'')" "Connection_readExact_loop os_read c"
  for os_read c
  by unfold_locales (rule Connection_readExact_loop.simps)

interpretation tcp_writer: exact_writer "Connection_write os_write c"
  "Connection_writeExact_loop os_write c" for os_write c
  by unfold_locales (rule Connection_writeExact_loop.simps)

lemma handle_error_simps [simp]:
  "handle_error (Inr x) = Inr x"
  "handle_error r = Inr x \<longleftrightarrow> r = Inr x"
  "(\<exists>e. handle_error r = Inl e) \<longleftrightarrow> (\<exists>e. r = Inl e)"
  by (auto simp: handle_error_def split: sum.splits)

lemma Connection_read_stream:
  assumes "reads_stream os_read (d_fd (c_socket c)) pending"
    and "Connection_read os_read c n w = (w', r)"
  shows "case r of Inl e \<Rightarrow> pending w' = pending w
    | Inr bs \<Rightarrow> length bs \<le> n \<and> pending w = bs @ pending w'"
proof -
  obtain w1 r1 where "os_read (d_fd (c_socket c)) n w = (w1, r1)"
    by (cases "os_read (d_fd (c_socket c)) n w")
  with assms reads_streamD[OF assms(1) this] show ?thesis
    by (cases r1) (auto simp: Connection_read_def handle_error_def split: if_splits)
qed

lemma Connection_write_stream:
  assumes "writes_stream os_write (d_fd (c_socket c)) sent"
    and "Connection_write os_write c bs w = (w', r)"
  shows "case r of Inl e \<Rightarrow> sent w' = sent w
    | Inr n \<Rightarrow> n \<le> length bs \<and> sent w' = sent w @ take n bs"
proof -
  obtain w1 r1 where "os_write (d_fd (c_socket c)) bs w = (w1, r1)"
    by (cases "os_write (d_fd (c_socket c)) bs w")
  with assms writes_streamD[OF assms(1) this] show ?thesis
    by (cases r1) (auto simp: Connection_write_def handle_error_def split: if_splits)
qed

section \<open>Properties\<close>

text \<open>
  C7: An exact read takes a prefix of the stream. Whatever sequence of short reads, errors and
  end of file the kernel produces, \<^verbatim>\<open>Connection::readExact\<close> returns; the buffer then holds
  exactly the bytes taken from the peer, in order, none lost and none twice, and if no exception
  is thrown it holds as many as were asked for. When the peer delivers enough bytes and the
  calls make progress, no exception is thrown.
\<close>

theorem readExact_takes_prefix:
  assumes "reads_stream os_read (d_fd (c_socket c)) pending"
    and "Connection_readExact os_read c len w = (w', buf, r)"
  shows "pending w = buf @ pending w' \<and> length buf \<le> len \<and> (r = Inr () \<longrightarrow> length buf = len) \<and>
    (reads_progress os_read (d_fd (c_socket c)) pending \<longrightarrow> len \<le> length (pending w) \<longrightarrow>
       r = Inr () \<and> buf = take len (pending w))"
proof -
  note law = Connection_read_stream[OF assms(1)]
  have "Connection_readExact_loop os_read c len [] w = (w', buf, r)"
    using assms(2) by (simp add: Connection_readExact_def)
  then have "\<exists>got. buf = [] @ got \<and> pending w = got @ pending w' \<and> length buf \<le> len \<and>
      (r = Inr () \<longrightarrow> length buf = len)"
  proof (rule tcp_reader.exact_read[where pending = pending, rotated 1])
    show "case r of Inl e \<Rightarrow> pending w' = pending w
        | Inr bs \<Rightarrow> length bs \<le> n \<and> pending w = bs @ pending w'"
      if "Connection_read os_read c n w = (w', r)" for n w w' r
      using that by (rule law)
  qed simp
  moreover have "r = Inr () \<and> buf = take len (pending w)"
    if p: "reads_progress os_read (d_fd (c_socket c)) pending" "len \<le> length (pending w)"
  proof -
    have prog: "\<exists>w' bs. Connection_read os_read c n w = (w', Inr bs) \<and> bs \<noteq> []"
      if "0 < n" "pending w \<noteq> []" for n w
      using reads_progressD[OF p(1) that] by (auto simp: Connection_read_def)
    have "\<exists>w'. Connection_readExact_loop os_read c len [] w =
        (w', [] @ take (len - length ([] :: string)) (pending w), Inr ()) \<and>
        pending w' = drop (len - length ([] :: string)) (pending w)"
    proof (rule tcp_reader.exact_read_succeeds[where pending = pending])
      show "case r of Inl e \<Rightarrow> pending w' = pending w
          | Inr bs \<Rightarrow> length bs \<le> n \<and> pending w = bs @ pending w'"
        if "Connection_read os_read c n w = (w', r)" for n w w' r
        using that by (rule law)
    qed (use p(2) prog in simp_all)
    with assms(2) show ?thesis by (auto simp: Connection_readExact_def)
  qed
  ultimately show ?thesis by auto
qed

theorem readExact_takes_prefix_witness:
  "Connection_readExact peer_read \<lparr>c_address = Address_default, c_socket = \<lparr>d_fd = 4\<rparr>\<rparr> 5
     \<lparr>to_deliver = [Inr ''abc'', Inr ''defg''], received = []\<rparr> =
   (\<lparr>to_deliver = [Inr ''fg''], received = []\<rparr>, ''abcde'', Inr ())"
  (is "?run = (?w, ?b, ?r)")
proof -
  let ?p = "\<lambda>w. chunk_bytes (to_deliver w)"
  have run: "?run = (?w, ?b, ?r)"
    by (simp add: Connection_readExact_def Connection_readExact_loop.simps Connection_read_def
        peer_read_def)
  have "''abcdefg'' = ?b @ ''fg''"
    using readExact_takes_prefix[OF peer_reads_stream run] by simp
  with run show ?thesis by simp
qed

text \<open>
  C8: An exact write delivers everything or says it did not. When each call of \<^verbatim>\<open>write\<close> takes
  at least one byte or fails, \<^verbatim>\<open>Connection::writeExact\<close> returns; the peer has received a prefix
  of the buffer, and all of it if no exception is thrown.
\<close>

theorem writeExact_delivers:
  assumes "writes_stream os_write (d_fd (c_socket c)) sent"
    and "writes_progress os_write (d_fd (c_socket c))"
  shows "\<exists>w' r n. Connection_writeExact os_write c data w = Some (w', r) \<and>
    sent w' = sent w @ take n data \<and> (r = Inr () \<longrightarrow> sent w' = sent w @ data)"
proof -
  have progress: "0 < n" if "bs \<noteq> []" "Connection_write os_write c bs w = (w', Inr n)" for bs w w' n
    using assms(2) that
    by (auto simp: writes_progress_def Connection_write_def Let_def split: prod.splits)
  have "\<exists>w' r n. Connection_writeExact_loop os_write c data 0 w = Some (w', r) \<and>
      n \<le> length data - 0 \<and> sent w' = sent w @ take n (drop 0 data) \<and>
      (r = Inr () \<longrightarrow> n = length data - 0)"
    using Connection_write_stream[OF assms(1)] progress
    by (intro tcp_writer.exact_write[where sent = sent]) simp_all
  then obtain w' r n where "Connection_writeExact_loop os_write c data 0 w = Some (w', r)"
      "sent w' = sent w @ take n data" "r = Inr () \<longrightarrow> n = length data"
    by auto
  then show ?thesis
    unfolding Connection_writeExact_def by (intro exI[of _ w'] exI[of _ r] exI[of _ n]) simp
qed

theorem writeExact_delivers_witness:
  "\<exists>w' r n. Connection_writeExact peer_write
      \<lparr>c_address = Address_default, c_socket = \<lparr>d_fd = 4\<rparr>\<rparr> ''hello''
      \<lparr>to_deliver = [], received = ''>''\<rparr> = Some (w', r) \<and>
    received w' = ''>'' @ take n ''hello''"
  using writeExact_delivers[OF peer_writes_stream peer_writes_progress,
      of "\<lparr>c_address = Address_default, c_socket = \<lparr>d_fd = 4\<rparr>\<rparr>" "''hello''"
        "\<lparr>to_deliver = [], received = ''>''\<rparr>"]
  by fastforce

text \<open>The descriptors the kernel has created when an opening is over: none before \<^verbatim>\<open>socket\<close>.\<close>

definition socket_made :: "bool \<Rightarrow> errno + int \<Rightarrow> int list" where
  "socket_made aton os_socket =
     (if aton then case os_socket of Inr fd \<Rightarrow> [fd] | Inl _ \<Rightarrow> [] else [])"

text \<open>
  What an opening may have done: \<^verbatim>\<open>ok\<close> says that every call behind \<^verbatim>\<open>socket\<close> succeeded.
\<close>

definition opening_clean ::
  "bool \<Rightarrow> errno + int \<Rightarrow> bool \<Rightarrow> BaseConnection \<Rightarrow> BaseConnection \<times> int list \<times> (tcp_error + unit) \<Rightarrow> bool"
where
  "opening_clean aton os_socket ok c res \<longleftrightarrow>
     (case res of
        (c', cs, Inl e) \<Rightarrow> c' = c \<and> cs = socket_made aton os_socket \<and> (socket_made aton os_socket = [] \<or> \<not> ok)
      | (c', cs, Inr _) \<Rightarrow> ok \<and> (\<exists>fd. socket_made aton os_socket = [fd] \<and>
          c' = c\<lparr>c_socket := \<lparr>d_fd = fd\<rparr>\<rparr> \<and> mset cs = owned (d_fd (c_socket c))))"

lemma opening_clean_throws:
  "opening_clean aton os_socket ok c (c', cs, Inl e) \<Longrightarrow> c' = c \<and> cs = socket_made aton os_socket"
  by (simp add: opening_clean_def)

lemma close_new: "0 \<le> fd \<Longrightarrow> snd (Descriptor_close (Descriptor_new fd)) = [fd]"
  "snd (Descriptor_close (Descriptor_new (-1))) = []"
  by (simp_all add: Descriptor_defs)

lemma set_socket_new:
  "set_socket c (Descriptor_new fd) =
    (c\<lparr>c_socket := \<lparr>d_fd = fd\<rparr>\<rparr>, Descriptor_new (-1), snd (Descriptor_close (c_socket c)))"
  "mset (snd (Descriptor_close (c_socket c))) = owned (d_fd (c_socket c))"
  by (simp_all add: set_socket_def Descriptor_defs owned_def)

text \<open>
  C9: Opening never leaks. Whatever the system calls of \<^verbatim>\<open>Server::listen\<close> and
  \<^verbatim>\<open>Connection::connect\<close> return (\<^verbatim>\<open>socket\<close> a number that is not negative, or an error): a call
  that throws leaves the object as it was and has closed exactly the descriptor that the kernel
  created for it, once, if one was created; one that returns keeps this descriptor in the object,
  changes nothing else of it, and has closed exactly the socket the object held before. It
  returns when every system call succeeds and throws otherwise. A constructor whose opening
  throws leaves no descriptor open.
\<close>

theorem open_keeps_descriptors:
  assumes "\<And>fd. os_socket = Inr fd \<Longrightarrow> 0 \<le> fd"
  shows "opening_clean aton os_socket (os_reuse = Inr () \<and> os_bind = Inr () \<and> os_listen = Inr ()) c
      (Server_listen aton os_socket os_reuse os_bind os_listen c addr) \<and>
    opening_clean aton os_socket (os_connect = Inr ()) c
      (Connection_connect aton os_socket os_connect c addr) \<and>
    (\<forall>cs e. Server_new aton os_socket os_reuse os_bind os_listen addr = (cs, Inl e) \<longrightarrow>
       cs = socket_made aton os_socket) \<and>
    (\<forall>cs e. Connection_new aton os_socket os_connect addr = (cs, Inl e) \<longrightarrow>
       cs = socket_made aton os_socket)"
proof -
  have listen: "opening_clean aton os_socket (os_reuse = Inr () \<and> os_bind = Inr () \<and> os_listen = Inr ()) c
      (Server_listen aton os_socket os_reuse os_bind os_listen c addr)" for c
    using assms
    by (cases os_socket; cases os_reuse; cases os_bind; cases os_listen)
      (simp_all add: opening_clean_def socket_made_def Server_listen_def set_reuseaddr_def close_new set_socket_new)
  have connect: "opening_clean aton os_socket (os_connect = Inr ()) c
      (Connection_connect aton os_socket os_connect c addr)" for c
    using assms
    by (cases os_socket; cases os_connect)
      (simp_all add: opening_clean_def socket_made_def Connection_connect_def close_new set_socket_new)
  have none: "snd (Descriptor_close (c_socket (BaseConnection_new addr))) = []"
    by (simp add: BaseConnection_new_def Descriptor_defs)
  have "cs = socket_made aton os_socket"
    if new: "Server_new aton os_socket os_reuse os_bind os_listen addr = (cs, Inl e)" for cs e
    using new opening_clean_throws listen[of "BaseConnection_new addr"] none
    unfolding Server_new_def by (fastforce split: prod.splits sum.splits)
  moreover have "cs = socket_made aton os_socket"
    if new: "Connection_new aton os_socket os_connect addr = (cs, Inl e)" for cs e
    using new opening_clean_throws connect[of "BaseConnection_new addr"] none
    unfolding Connection_new_def by (fastforce split: prod.splits sum.splits)
  ultimately show ?thesis using listen connect by blast
qed

theorem open_keeps_descriptors_witness:
  "fst (snd (Server_listen True (Inr 5) (Inr ()) (Inl EBADF) (Inr ())
     \<lparr>c_address = Address_default, c_socket = \<lparr>d_fd = 4\<rparr>\<rparr> Address_default)) = [5] \<and>
   fst (Connection_new True (Inr 6) (Inl (Errno 111)) Address_default) = [6]"
  (is "fst (snd ?l) = [5] \<and> fst ?n = [6]")
proof -
  have l: "?l = (\<lparr>c_address = Address_default, c_socket = \<lparr>d_fd = 4\<rparr>\<rparr>, fst (snd ?l),
      Inl (AddressError (Strerror EBADF) Address_default))"
    by (simp add: Server_listen_def set_reuseaddr_def)
  have n: "?n = (fst ?n, Inl (AddressError (Strerror (Errno 111)) Address_default))"
    by (simp add: Connection_new_def Connection_connect_def)
  have "opening_clean True (Inr 5) False \<lparr>c_address = Address_default, c_socket = \<lparr>d_fd = 4\<rparr>\<rparr> ?l"
    using open_keeps_descriptors[of "Inr 5", THEN conjunct1, of True "Inr ()" "Inl EBADF"] by simp
  then have "fst (snd ?l) = socket_made True (Inr 5)" by (subst (asm) l) (simp add: opening_clean_def)
  moreover have "fst ?n = socket_made True (Inr 6)" using open_keeps_descriptors[of "Inr 6"] n by force
  ultimately show ?thesis by (simp add: socket_made_def)
qed

end
