(* ===== verification/Epoll_Option.thy ===== *)
theory Epoll_Option
  imports Prelude
begin

text \<open>
  \<^verbatim>\<open>5.net/include/option.h\<close> and \<^verbatim>\<open>5.net/lib/option.cpp\<close>: the event masks. \<^verbatim>\<open>OPTION\<close> is an
  enumeration over \<^verbatim>\<open>size_t\<close>, its operators work on \<^verbatim>\<open>unsigned\<close>. The values are those of the
  Linux header \<^verbatim>\<open>sys/epoll.h\<close>.
\<close>

unbundle bit_operations_syntax

type_synonym OPTION = "64 word"

definition EPOLLIN :: "32 word" where "EPOLLIN = 0x1"

definition EPOLLOUT :: "32 word" where "EPOLLOUT = 0x4"

definition EPOLLERR :: "32 word" where "EPOLLERR = 0x8"

definition EPOLLRDHUP :: "32 word" where "EPOLLRDHUP = 0x2000"

definition EPOLLEXCLUSIVE :: "32 word" where "EPOLLEXCLUSIVE = 0x10000000"

definition EPOLLONESHOT :: "32 word" where "EPOLLONESHOT = 0x40000000"

definition EPOLLET :: "32 word" where "EPOLLET = 0x80000000"

definition OPTION_UNKNOWN :: OPTION where "OPTION_UNKNOWN = 0"

definition OPTION_READ :: OPTION where "OPTION_READ = ucast EPOLLIN"

definition OPTION_WRITE :: OPTION where "OPTION_WRITE = ucast EPOLLOUT"

definition OPTION_CLOSE :: OPTION where "OPTION_CLOSE = ucast EPOLLRDHUP"

definition OPTION_EXCLUSIVE :: OPTION where "OPTION_EXCLUSIVE = ucast EPOLLEXCLUSIVE"

definition OPTION_ET_ONESHOT :: OPTION where
  "OPTION_ET_ONESHOT = ucast (EPOLLET OR EPOLLONESHOT)"

text \<open>\<^verbatim>\<open>operator+\<close> and \<^verbatim>\<open>operator-\<close>.\<close>

definition opt_plus :: "OPTION \<Rightarrow> OPTION \<Rightarrow> OPTION" where
  "opt_plus lhs rhs = (let i_lhs = ucast lhs :: 32 word; i_rhs = ucast rhs in ucast (i_lhs OR i_rhs))"

definition opt_minus :: "OPTION \<Rightarrow> OPTION \<Rightarrow> OPTION" where
  "opt_minus lhs rhs =
     (let i_lhs = ucast lhs :: 32 word; i_rhs = ucast rhs in ucast (i_lhs AND NOT i_rhs))"

lemmas epoll_defs = EPOLLIN_def EPOLLOUT_def EPOLLERR_def EPOLLRDHUP_def EPOLLEXCLUSIVE_def
  EPOLLONESHOT_def EPOLLET_def

lemmas option_defs = OPTION_UNKNOWN_def OPTION_READ_def OPTION_WRITE_def OPTION_CLOSE_def
  OPTION_EXCLUSIVE_def OPTION_ET_ONESHOT_def epoll_defs

section \<open>Masks as sets of events\<close>

definition events :: "OPTION \<Rightarrow> nat set" where
  "events opt = {n. n < 32 \<and> bit opt n}"

lemma events_plus [simp]: "events (opt_plus a b) = events a \<union> events b"
  by (auto simp: events_def opt_plus_def bit_simps)

lemma events_minus [simp]: "events (opt_minus a b) = events a - events b"
  by (auto simp: events_def opt_minus_def bit_simps)

text \<open>The results have no bit above the 32 of the operands, so that the set determines them.\<close>

lemma opt_plus_eq: "opt_plus a b = opt_plus c d \<longleftrightarrow> events a \<union> events b = events c \<union> events d"
proof
  assume "opt_plus a b = opt_plus c d"
  then show "events a \<union> events b = events c \<union> events d" by (metis events_plus)
next
  assume eq: "events a \<union> events b = events c \<union> events d"
  show "opt_plus a b = opt_plus c d"
  proof (rule bit_word_eqI)
    fix n
    assume "n < LENGTH(64)"
    have "n \<in> events a \<union> events b \<longleftrightarrow> n \<in> events c \<union> events d" using eq by simp
    then show "bit (opt_plus a b) n \<longleftrightarrow> bit (opt_plus c d) n"
      by (cases "n < 32") (auto simp: events_def opt_plus_def bit_simps)
  qed
qed

lemma events_ucast: "events (ucast (w :: 32 word)) = {n. bit w n}"
proof -
  have "n < 32 \<and> n < 64" if "bit w n" for n
    using bit_imp_le_length[OF that] by simp
  then show ?thesis by (auto simp: events_def bit_simps)
qed

lemma single_event: "k < 32 \<Longrightarrow> {n. bit (2 ^ k :: 32 word) n} = {k}"
  by (auto simp: bit_exp_iff)

lemma epoll_powers:
  "EPOLLIN = 2 ^ 0" "EPOLLOUT = 2 ^ 2" "EPOLLERR = 2 ^ 3" "EPOLLRDHUP = 2 ^ 13"
  "EPOLLEXCLUSIVE = 2 ^ 28" "EPOLLONESHOT = 2 ^ 30" "EPOLLET = 2 ^ 31"
  by (simp_all add: epoll_defs)

lemma events_consts [simp]:
  "events OPTION_UNKNOWN = {}" "events OPTION_READ = {0}" "events OPTION_WRITE = {2}"
  "events OPTION_CLOSE = {13}" "events OPTION_EXCLUSIVE = {28}" "events OPTION_ET_ONESHOT = {30, 31}"
proof -
  show "events OPTION_UNKNOWN = {}" by (simp add: events_def OPTION_UNKNOWN_def)
  have "{n. bit (EPOLLET OR EPOLLONESHOT) n} = {n. bit EPOLLET n} \<union> {n. bit EPOLLONESHOT n}"
    by (auto simp: bit_or_iff)
  then show "events OPTION_ET_ONESHOT = {30, 31}"
    unfolding OPTION_ET_ONESHOT_def events_ucast epoll_powers by (simp only: single_event) auto
  show "events OPTION_READ = {0}" "events OPTION_WRITE = {2}" "events OPTION_CLOSE = {13}"
      "events OPTION_EXCLUSIVE = {28}"
    unfolding OPTION_READ_def OPTION_WRITE_def OPTION_CLOSE_def OPTION_EXCLUSIVE_def events_ucast
      epoll_powers by (simp_all only: single_event)
qed

section \<open>Masks of the classes\<close>

text \<open>
  A mask is a value of the enumeration's operators: at most 32 bits. Such masks are equal when
  they have the same events.
\<close>

definition mask32 :: "OPTION \<Rightarrow> bool" where
  "mask32 opt \<longleftrightarrow> (\<forall>n. bit opt n \<longrightarrow> n < 32)"

lemma mask32_ops [simp]: "mask32 (opt_plus a b)" "mask32 (opt_minus a b)"
  by (auto simp: mask32_def opt_plus_def opt_minus_def bit_simps)

lemma mask32_consts [simp]: "mask32 OPTION_UNKNOWN" "mask32 OPTION_ET_ONESHOT"
  "mask32 OPTION_READ" "mask32 OPTION_WRITE" "mask32 OPTION_CLOSE"
  by (auto simp: mask32_def OPTION_UNKNOWN_def OPTION_ET_ONESHOT_def OPTION_READ_def
      OPTION_WRITE_def OPTION_CLOSE_def bit_unsigned_iff dest: bit_imp_le_length)

lemma mask_eqI: "mask32 a \<Longrightarrow> mask32 b \<Longrightarrow> events a = events b \<Longrightarrow> a = b"
proof (rule bit_word_eqI)
  fix n
  assume "mask32 a" "mask32 b" "events a = events b"
  then show "bit a n \<longleftrightarrow> bit b n" unfolding mask32_def events_def by blast
qed

lemma mask_eq_iff: "mask32 a \<Longrightarrow> mask32 b \<Longrightarrow> a = b \<longleftrightarrow> events a = events b"
  using mask_eqI by blast

section \<open>Properties\<close>

text \<open>
  C19: The option operators are union and difference. For any two masks, the sum has the events
  of both, the difference the events of the left one that the right one does not have, neither
  has a bit above the 32 event bits, and both are determined by their event sets; the
  conversions to \<^verbatim>\<open>unsigned\<close> and back lose nothing of a mask of the enumeration.
\<close>

theorem option_algebra:
  "events (opt_plus a b) = events a \<union> events b \<and> events (opt_minus a b) = events a - events b \<and>
   mask32 (opt_plus a b) \<and> mask32 (opt_minus a b) \<and>
   (\<forall>c. mask32 c \<longrightarrow> (opt_plus a b = c) = (events a \<union> events b = events c)) \<and>
   (\<forall>c. mask32 c \<longrightarrow> opt_plus c OPTION_UNKNOWN = c)"
  by (auto simp: mask_eq_iff)

theorem option_algebra_witness:
  "opt_plus OPTION_READ OPTION_UNKNOWN = OPTION_READ \<and>
   events (opt_plus OPTION_READ OPTION_ET_ONESHOT) = {0, 30, 31}"
  using option_algebra[of OPTION_READ OPTION_ET_ONESHOT] by auto

end
