(* ===== verification/Buf_Connection.thy ===== *)
theory Buf_Connection
  imports Tcp_Connection Epoll_Option
begin

text \<open>
  \<^verbatim>\<open>5.net/lib/bufconnection.cpp\<close>: a non-blocking connection with a read and a write buffer and
  the event mask it is to be registered with.
\<close>

record BufferedConnection = BaseConnection +
  b_read :: string
  b_write :: string
  epoll_option :: OPTION

definition BufferedConnection_new :: "NonBlockConnection \<Rightarrow> BufferedConnection" where
  "BufferedConnection_new other =
     \<lparr>c_address = c_address other, c_socket = fst (Descriptor_move (c_socket other)),
      b_read = [], b_write = [], epoll_option = OPTION_UNKNOWN\<rparr>"

definition Buffered_write ::
  "string \<Rightarrow> 'a BufferedConnection_scheme \<Rightarrow> 'a BufferedConnection_scheme \<times> nat" where
  "Buffered_write data c = (c\<lparr>b_write := b_write c @ data\<rparr>, length data)"

text \<open>The string passed in is overwritten with the buffer.\<close>

definition Buffered_read :: "'a BufferedConnection_scheme \<Rightarrow> string \<times> nat" where
  "Buffered_read c = (b_read c, length (b_read c))"

definition BUF_SIZE :: nat where
  "BUF_SIZE = 128"

text \<open>
  One call of \<^verbatim>\<open>read\<close> into a buffer of 128 zero bytes, which is cut to the size read and
  appended.
\<close>

definition read_to_buffer ::
  "'w read_call \<Rightarrow> 'a BufferedConnection_scheme \<Rightarrow> 'w \<Rightarrow>
   'w \<times> 'a BufferedConnection_scheme \<times> (tcp_error + nat)" where
  "read_to_buffer os_read c w =
     (case NonBlockConnection_read os_read c
             (replicate BUF_SIZE (CHR 0x00)) w of
        (w, buf, Inl e) \<Rightarrow> (w, c, Inl e)
      | (w, buf, Inr n) \<Rightarrow> (w, c\<lparr>b_read := b_read c @ take n buf\<rparr>, Inr n))"

definition write_from_buffer ::
  "'w write_call \<Rightarrow> 'a BufferedConnection_scheme \<Rightarrow> 'w \<Rightarrow>
   'w \<times> 'a BufferedConnection_scheme \<times> (tcp_error + nat)" where
  "write_from_buffer os_write c w =
     (case NonBlockConnection_write os_write c (b_write c) w of
        (w, Inl e) \<Rightarrow> (w, c, Inl e)
      | (w, Inr n) \<Rightarrow> (w, c\<lparr>b_write := drop n (b_write c)\<rparr>, Inr n))"

definition Buffered_subscribe ::
  "OPTION \<Rightarrow> 'a BufferedConnection_scheme \<Rightarrow> 'a BufferedConnection_scheme" where
  "Buffered_subscribe opt c =
     c\<lparr>epoll_option := opt_plus (opt_plus (epoll_option c) opt) OPTION_CLOSE\<rparr>"

definition Buffered_unsubscribe ::
  "OPTION \<Rightarrow> 'a BufferedConnection_scheme \<Rightarrow> 'a BufferedConnection_scheme" where
  "Buffered_unsubscribe opt c =
     c\<lparr>epoll_option := opt_plus (opt_minus (epoll_option c) opt) OPTION_CLOSE\<rparr>"

definition Buffered_close ::
  "'a BufferedConnection_scheme \<Rightarrow> 'a BufferedConnection_scheme \<times> int list" where
  "Buffered_close c = NonBlockConnection_close (c\<lparr>epoll_option := OPTION_UNKNOWN\<rparr>)"

section \<open>The buffers as streams\<close>

lemma read_to_buffer_stream:
  assumes "reads_stream os_read (d_fd (c_socket c)) pending"
    and "read_to_buffer os_read c w = (w', c', r)"
  shows "(\<forall>e. r = Inl e \<longrightarrow> c' = c \<and> pending w' = pending w) \<and>
    (\<forall>n. r = Inr n \<longrightarrow> (\<exists>bs. length bs = n \<and> n \<le> BUF_SIZE \<and> pending w = bs @ pending w' \<and>
       c' = c\<lparr>b_read := b_read c @ bs\<rparr>))"
proof -
  obtain w1 r1 where os: "os_read (d_fd (c_socket c)) BUF_SIZE w = (w1, r1)"
    by (cases "os_read (d_fd (c_socket c)) BUF_SIZE w")
  show ?thesis
  proof (cases r1)
    case (Inl e)
    then show ?thesis
      using assms(2) os reads_streamD[OF assms(1) os]
      by (auto simp: read_to_buffer_def NonBlockConnection_read_def handle_error_def
          split: if_splits)
  next
    case (Inr bs)
    then show ?thesis
      using assms(2) os reads_streamD[OF assms(1) os]
      by (auto simp: read_to_buffer_def NonBlockConnection_read_def)
  qed
qed

lemma write_from_buffer_stream:
  assumes "writes_stream os_write (d_fd (c_socket c)) sent"
    and "write_from_buffer os_write c w = (w', c', r)"
  shows "(\<forall>e. r = Inl e \<longrightarrow> c' = c \<and> sent w' = sent w) \<and>
    (\<forall>n. r = Inr n \<longrightarrow> n \<le> length (b_write c) \<and> sent w' @ b_write c' = sent w @ b_write c \<and>
       c' = c\<lparr>b_write := drop n (b_write c)\<rparr>)"
proof -
  obtain w1 r1 where os: "os_write (d_fd (c_socket c)) (b_write c) w = (w1, r1)"
    by (cases "os_write (d_fd (c_socket c)) (b_write c) w")
  show ?thesis
  proof (cases r1)
    case (Inl e)
    then show ?thesis
      using assms(2) os writes_streamD[OF assms(1) os]
      by (auto simp: write_from_buffer_def NonBlockConnection_write_def handle_error_def
          split: if_splits)
  next
    case (Inr n)
    then show ?thesis
      using assms(2) os writes_streamD[OF assms(1) os]
      by (auto simp: write_from_buffer_def NonBlockConnection_write_def)
  qed
qed

end
