(* ===== verification/Http_Connection.thy ===== *)
theory Http_Connection
  imports Buf_Connection Http_Message
begin

text \<open>
  \<^verbatim>\<open>6.http/lib/httpconnection.cpp\<close> and \<^verbatim>\<open>iTimed.cpp\<close>: a buffered connection with the last
  request, the keep-alive flag and the time of its last activity. Times are seconds of the
  system clock, handed to the operations that read it.
\<close>

record HttpConnection = BufferedConnection +
  h_req :: Request
  keep_alive :: bool
  start :: nat

definition HttpConnection_new :: "NonBlockConnection \<Rightarrow> nat \<Rightarrow> HttpConnection" where
  "HttpConnection_new other now =
     BufferedConnection.extend (BufferedConnection_new other)
       \<lparr>h_req = Request_default, keep_alive = False, start = now\<rparr>"

definition Http_write :: "Responce \<Rightarrow> HttpConnection \<Rightarrow> HttpConnection" where
  "Http_write res c = c\<lparr>b_write := Responce_str res\<rparr>"

definition Http_subscribe :: "OPTION \<Rightarrow> HttpConnection \<Rightarrow> HttpConnection" where
  "Http_subscribe opt c =
     c\<lparr>epoll_option := opt_plus (opt_plus (epoll_option c) opt) OPTION_ET_ONESHOT\<rparr>"

definition Http_unsubscribe :: "OPTION \<Rightarrow> HttpConnection \<Rightarrow> HttpConnection" where
  "Http_unsubscribe opt c =
     c\<lparr>epoll_option := opt_plus (opt_minus (epoll_option c) opt) OPTION_ET_ONESHOT\<rparr>"

definition Http_close :: "HttpConnection \<Rightarrow> HttpConnection \<times> int list" where
  "Http_close c = NonBlockConnection_close (c\<lparr>epoll_option := OPTION_ET_ONESHOT\<rparr>)"

definition is_timed_out :: "nat \<Rightarrow> nat \<Rightarrow> HttpConnection \<Rightarrow> bool" where
  "is_timed_out timeo now c \<longleftrightarrow> timeo < now - start c"

definition reset_time_of_last_activity :: "nat \<Rightarrow> HttpConnection \<Rightarrow> HttpConnection" where
  "reset_time_of_last_activity now c = c\<lparr>start := now\<rparr>"

definition CONNECTION_TIMEOUT :: nat where
  "CONNECTION_TIMEOUT = 20"

definition KEEP_ALIVE_CONNECTION_TIMEOUT :: nat where
  "KEEP_ALIVE_CONNECTION_TIMEOUT = 60"

section \<open>Sockets\<close>

definition is_open :: "'a BaseConnection_scheme \<Rightarrow> bool" where
  "is_open c \<longleftrightarrow> Descriptor_valid (c_socket c)"

lemma is_open_updates [simp]:
  "is_open (c\<lparr>b_read := b\<rparr>) = is_open c" "is_open (c\<lparr>b_write := b\<rparr>) = is_open c"
  "is_open (c\<lparr>epoll_option := opt\<rparr>) = is_open c"
  by (simp_all add: is_open_def)

lemma is_open_http_updates [simp]:
  "is_open (c\<lparr>h_req := r\<rparr>) = is_open c" "is_open (c\<lparr>keep_alive := k\<rparr>) = is_open c"
  "is_open (c\<lparr>start := t\<rparr>) = is_open c"
  by (simp_all add: is_open_def)

lemma Http_close_facts [simp]:
  "\<not> is_open (fst (Http_close c))" "start (fst (Http_close c)) = start c"
  "keep_alive (fst (Http_close c)) = keep_alive c"
  "epoll_option (fst (Http_close c)) = OPTION_ET_ONESHOT"
  by (auto simp: Http_close_def NonBlockConnection_close_def is_open_def Descriptor_defs Let_def)

lemma Http_new_facts [simp]:
  "is_open (HttpConnection_new cn now) = is_open cn" "start (HttpConnection_new cn now) = now"
  "keep_alive (HttpConnection_new cn now) = False"
  by (auto simp: HttpConnection_new_def BufferedConnection_new_def is_open_def Descriptor_defs
      BufferedConnection.defs)

lemma Http_option_facts [simp]:
  "is_open (Http_subscribe opt c) = is_open c" "is_open (Http_unsubscribe opt c) = is_open c"
  "start (Http_subscribe opt c) = start c" "start (Http_unsubscribe opt c) = start c"
  "is_open (reset_time_of_last_activity now c) = is_open c"
  "start (reset_time_of_last_activity now c) = now"
  by (simp_all add: is_open_def Http_subscribe_def Http_unsubscribe_def
      reset_time_of_last_activity_def)

end
