(* ===== verification/Http_Service.thy ===== *)
theory Http_Service
  imports Http_Connection
begin

text \<open>
  \<^verbatim>\<open>6.http/lib/httpservice.cpp\<close>: the list of places, the queue of closed places and the list
  of places in the order of their last activity.

  A place is addressed by its index in the list of places, which only grows (a \<^verbatim>\<open>std::list\<close>
  whose nodes are never moved). A node of the activity list has an identity, what an iterator
  refers to; \<^verbatim>\<open>timeout_iter\<close> of a place is such an identity, or \<^verbatim>\<open>None\<close> for the default
  iterator. Splicing a node that is no longer in the list is undefined behaviour: the outcome
  \<^verbatim>\<open>None\<close> of an operation.

  The mutexes make each of the operations below atomic with respect to the data it touches.
\<close>

section \<open>State\<close>

record Place =
  u_conn :: HttpConnection
  timeout_iter :: "nat option"

record HttpService =
  connections :: "Place list"
  closed_places :: "nat list"
  timeod :: "(nat \<times> nat) list"
  next_node :: nat
  conn_timeo :: nat
  ka_conn_timeo :: nat

definition HttpService_new :: "nat \<Rightarrow> nat \<Rightarrow> HttpService" where
  "HttpService_new connection_timeout_sec keep_alive_timeout_sec =
     \<lparr>connections = [], closed_places = [], timeod = [], next_node = 0,
      conn_timeo = connection_timeout_sec, ka_conn_timeo = keep_alive_timeout_sec\<rparr>"

definition conn_at :: "HttpService \<Rightarrow> nat \<Rightarrow> HttpConnection" where
  "conn_at sv p = u_conn (connections sv ! p)"

definition update_place :: "nat \<Rightarrow> (Place \<Rightarrow> Place) \<Rightarrow> HttpService \<Rightarrow> HttpService" where
  "update_place p f sv = sv\<lparr>connections := (connections sv)[p := f (connections sv ! p)]\<rparr>"

abbreviation set_conn :: "nat \<Rightarrow> HttpConnection \<Rightarrow> HttpService \<Rightarrow> HttpService" where
  "set_conn p c \<equiv> update_place p (u_conn_update (\<lambda>_. c))"

abbreviation set_iter :: "nat \<Rightarrow> nat \<Rightarrow> HttpService \<Rightarrow> HttpService" where
  "set_iter p n \<equiv> update_place p (timeout_iter_update (\<lambda>_. Some n))"

section \<open>The activity list\<close>

text \<open>\<^verbatim>\<open>list.splice(list.end(), list, iter)\<close>: the node moves to the end and keeps its identity.\<close>

definition splice_to_end :: "nat option \<Rightarrow> (nat \<times> nat) list \<Rightarrow> (nat \<times> nat) list option" where
  "splice_to_end iter cont =
     (case iter of
        None \<Rightarrow> None
      | Some n \<Rightarrow>
          (case map_of cont n of
             None \<Rightarrow> None
           | Some p \<Rightarrow> Some (filter (\<lambda>x. fst x \<noteq> n) cont @ [(n, p)])))"

text \<open>\<^verbatim>\<open>emplace_back\<close> makes a node with a new identity.\<close>

definition push_place :: "nat \<Rightarrow> HttpService \<Rightarrow> HttpService" where
  "push_place p sv =
     sv\<lparr>timeod := timeod sv @ [(next_node sv, p)], next_node := Suc (next_node sv)\<rparr>"

section \<open>The operations\<close>

definition connections_size :: "HttpService \<Rightarrow> nat" where
  "connections_size sv = length (connections sv) - length (closed_places sv)"

text \<open>\<^verbatim>\<open>Some (sv, None)\<close>: a null pointer, there was no closed place.\<close>

definition try_replace_closed_with_new_conn ::
  "NonBlockConnection \<Rightarrow> nat \<Rightarrow> HttpService \<Rightarrow> (HttpService \<times> nat option) option" where
  "try_replace_closed_with_new_conn cn now sv =
     (case closed_places sv of
        [] \<Rightarrow> Some (sv, None)
      | p # rest \<Rightarrow>
          let sv = set_conn p (HttpConnection_new cn now) sv;
              sv = sv\<lparr>closed_places := rest\<rparr>
          in case (if 0 < length (timeod sv)
                   then map_option (\<lambda>cont. sv\<lparr>timeod := cont\<rparr>)
                          (splice_to_end (timeout_iter (connections sv ! p)) (timeod sv))
                   else Some (push_place p sv)) of
               None \<Rightarrow> None
             | Some sv \<Rightarrow> Some (set_iter p (fst (last (timeod sv))) sv, Some p))"

definition emplace_connection ::
  "NonBlockConnection \<Rightarrow> nat \<Rightarrow> HttpService \<Rightarrow> (HttpService \<times> nat) option" where
  "emplace_connection cn now sv =
     (case try_replace_closed_with_new_conn cn now sv of
        None \<Rightarrow> None
      | Some (sv, Some p) \<Rightarrow> Some (sv, p)
      | Some (sv, None) \<Rightarrow>
          let p = length (connections sv);
              sv = sv\<lparr>connections := connections sv @
                [\<lparr>u_conn = HttpConnection_new cn now, timeout_iter = None\<rparr>]\<rparr>;
              sv = push_place p sv;
              sv = set_iter (snd (last (timeod sv))) (fst (last (timeod sv))) sv
          in Some (sv, snd (last (timeod sv))))"

definition close_if_timed_out :: "nat \<Rightarrow> nat \<Rightarrow> HttpService \<Rightarrow> HttpService \<times> bool" where
  "close_if_timed_out p now sv =
     (let c = conn_at sv p;
          timeo = (if keep_alive c then ka_conn_timeo sv else conn_timeo sv)
      in if is_open c \<and> is_timed_out timeo now c
         then ((set_conn p (fst (Http_close c)) sv)\<lparr>closed_places := closed_places sv @ [p]\<rparr>, True)
         else (sv, False))"

lemma close_if_timed_out_timeod [simp]: "timeod (fst (close_if_timed_out p now sv)) = timeod sv"
  by (simp add: close_if_timed_out_def Let_def update_place_def)

function dump_timed_out_connections :: "nat \<Rightarrow> HttpService \<Rightarrow> HttpService" where
  "dump_timed_out_connections now sv =
     (case timeod sv of
        [] \<Rightarrow> sv
      | (n, p) # _ \<Rightarrow>
          if snd (close_if_timed_out p now sv)
          then dump_timed_out_connections now
                 ((fst (close_if_timed_out p now sv))\<lparr>timeod := tl (timeod sv)\<rparr>)
          else fst (close_if_timed_out p now sv))"
  by pat_completeness auto
termination
  by (relation "measure (\<lambda>(now, sv). length (timeod sv))") auto

declare dump_timed_out_connections.simps [simp del]

text \<open>
  One turn of the loop of \<^verbatim>\<open>run\<close>: the result of \<^verbatim>\<open>accept_non_block\<close>, whether
  \<^verbatim>\<open>epoll_ctl\<close> succeeds, the time. A \<^verbatim>\<open>TimeOutError\<close> and an \<^verbatim>\<open>EPollError\<close> are caught.
\<close>

definition HttpService_turn ::
  "tcp_error + NonBlockConnection \<Rightarrow> bool \<Rightarrow> nat \<Rightarrow> HttpService \<Rightarrow>
   (HttpService \<times> (tcp_error + unit)) option" where
  "HttpService_turn accepted epoll_add now sv =
     (case accepted of
        Inl (TimeOutError e) \<Rightarrow> Some (dump_timed_out_connections now sv, Inr ())
      | Inl e \<Rightarrow> Some (sv, Inl e)
      | Inr cn \<Rightarrow>
          (case emplace_connection cn now sv of
             None \<Rightarrow> None
           | Some (sv, p) \<Rightarrow>
               let sv = set_conn p ((conn_at sv p)
                 \<lparr>epoll_option := opt_plus OPTION_READ OPTION_ET_ONESHOT\<rparr>) sv
               in Some (dump_timed_out_connections now sv, Inr ())))"

section \<open>The server's loop\<close>

datatype run_error = ListenerError | WorkerError | TcpError tcp_error

definition workers_count :: "nat \<Rightarrow> nat \<Rightarrow> nat" where
  "workers_count hardware_concurrency workerSize = min hardware_concurrency workerSize"

text \<open>The numbers of the threads that are started.\<close>

definition activate_workers :: "nat \<Rightarrow> run_error + nat list" where
  "activate_workers workers_size = (if workers_size = 0 then Inl WorkerError else Inr [0..<workers_size])"

text \<open>
  \<^verbatim>\<open>run\<close>, for what each turn of its loop gets from the system; behind the last one the server's
  socket is not valid. The workers' threads are not part of it.
\<close>

fun HttpService_turns ::
  "((tcp_error + NonBlockConnection) \<times> bool \<times> nat) list \<Rightarrow> HttpService \<Rightarrow>
   (HttpService \<times> (run_error + unit)) option" where
  "HttpService_turns [] sv = Some (sv, Inr ())"
| "HttpService_turns ((accepted, epoll_add, now) # turns) sv =
     (case HttpService_turn accepted epoll_add now sv of
        None \<Rightarrow> None
      | Some (sv, Inl e) \<Rightarrow> Some (sv, Inl (TcpError e))
      | Some (sv, Inr _) \<Rightarrow> HttpService_turns turns sv)"

definition HttpService_run ::
  "bool \<Rightarrow> nat \<Rightarrow> ((tcp_error + NonBlockConnection) \<times> bool \<times> nat) list \<Rightarrow> HttpService \<Rightarrow>
   (HttpService \<times> (run_error + unit)) option" where
  "HttpService_run listener_set workers_size turns sv =
     (if \<not> listener_set then Some (sv, Inl ListenerError)
      else case activate_workers workers_size of
             Inl e \<Rightarrow> Some (sv, Inl e)
           | Inr threads \<Rightarrow> HttpService_turns turns sv)"

section \<open>What the workers do to the same data\<close>

text \<open>\<^verbatim>\<open>6.http/lib/httpworker.cpp\<close>, the two methods that touch the service's containers.\<close>

definition reset_last_activity_time :: "nat \<Rightarrow> nat \<Rightarrow> HttpService \<Rightarrow> HttpService option" where
  "reset_last_activity_time p now sv =
     (let sv = set_conn p (reset_time_of_last_activity now (conn_at sv p)) sv
      in case splice_to_end (timeout_iter (connections sv ! p)) (timeod sv) of
           None \<Rightarrow> None
         | Some cont \<Rightarrow>
             let sv = sv\<lparr>timeod := cont\<rparr>
             in Some (set_iter (snd (last cont)) (fst (last cont)) sv))"

definition close_client :: "nat \<Rightarrow> HttpService \<Rightarrow> HttpService" where
  "close_client p sv =
     (if is_open (conn_at sv p)
      then set_conn p (fst (Http_close (conn_at sv p)))
             (sv\<lparr>closed_places := closed_places sv @ [p]\<rparr>)
      else sv)"

section \<open>All interleavings\<close>

text \<open>
  The main thread accepts and dumps, the workers reset and close open connections and change
  everything of a connection that is neither its socket nor its time. The clock does not run
  backwards.
\<close>

inductive service_step :: "nat \<times> HttpService \<Rightarrow> nat \<times> HttpService \<Rightarrow> bool" where
  step_emplace: "t \<le> now \<Longrightarrow> is_open cn \<Longrightarrow> emplace_connection cn now sv = Some (sv', p) \<Longrightarrow>
    service_step (t, sv) (now, sv')"
| step_dump: "t \<le> now \<Longrightarrow> service_step (t, sv) (now, dump_timed_out_connections now sv)"
| step_reset: "t \<le> now \<Longrightarrow> p < length (connections sv) \<Longrightarrow> is_open (conn_at sv p) \<Longrightarrow>
    reset_last_activity_time p now sv = Some sv' \<Longrightarrow> service_step (t, sv) (now, sv')"
| step_close: "p < length (connections sv) \<Longrightarrow> service_step (t, sv) (t, close_client p sv)"
| step_serve: "p < length (connections sv) \<Longrightarrow> is_open c = is_open (conn_at sv p) \<Longrightarrow>
    start c = start (conn_at sv p) \<Longrightarrow> service_step (t, sv) (t, set_conn p c sv)"

abbreviation service_reachable :: "nat \<Rightarrow> nat \<Rightarrow> nat \<times> HttpService \<Rightarrow> bool" where
  "service_reachable ct kt \<equiv> service_step\<^sup>*\<^sup>* (0, HttpService_new ct kt)"

inductive_cases service_stepE: "service_step (t, sv) s"

end
