(* ===== verification/Drain_IO.thy ===== *)
theory Drain_IO
  imports Buf_Connection
begin

text \<open>
  The loops of the workers that read or write a buffered connection until the system would
  block. They differ in what they do with an exception, not in the loop: the two locales below
  state the loop, and prove once that it ends and what it leaves in the buffer.
\<close>

section \<open>Reading until the call fails\<close>

locale drain_reader =
  fixes rd :: "'w read_call"
    and loop :: "'a BufferedConnection_scheme \<Rightarrow> 'w \<Rightarrow> ('w \<times> 'a BufferedConnection_scheme \<times> 'o) option"
    and eof :: 'o
    and raised :: "tcp_error \<Rightarrow> 'o"
  assumes loop_eq: "loop c w = (case read_to_buffer rd c w of
      (w, c, Inl e) \<Rightarrow> Some (w, c, raised e)
    | (w, c, Inr n) \<Rightarrow> if n = 0 then Some (w, c, eof) else loop c w)"
begin

text \<open>
  On a peer that has finitely many bytes to deliver the loop ends, and what it has taken from
  the peer is appended to the read buffer.
\<close>

lemma drains:
  assumes law: "reads_stream rd (d_fd (c_socket c)) pending"
  shows "\<exists>w' r got. loop c w = Some (w', c\<lparr>b_read := b_read c @ got\<rparr>, r) \<and>
    pending w = got @ pending w' \<and> (r = eof \<or> (\<exists>e. r = raised e))"
  using law
proof (induction "length (pending w)" arbitrary: c w rule: less_induct)
  case less
  obtain w1 c1 r1 where rd: "read_to_buffer rd c w = (w1, c1, r1)"
    by (cases "read_to_buffer rd c w")
  note st = read_to_buffer_stream[OF less.prems rd]
  show ?case
  proof (cases r1)
    case (Inl e)
    then have "loop c w = Some (w1, c, raised e)" "pending w1 = pending w"
      using rd st by (simp_all add: loop_eq[of c w])
    then show ?thesis by (intro exI[of _ w1] exI[of _ "raised e"] exI[of _ "[]"]) auto
  next
    case (Inr n)
    then obtain bs where bs: "length bs = n" "pending w = bs @ pending w1"
        "c1 = c\<lparr>b_read := b_read c @ bs\<rparr>" using st by blast
    show ?thesis
    proof (cases "n = 0")
      case True
      then have "loop c w = Some (w1, c, eof)" "pending w = [] @ pending w1"
        using rd Inr bs by (simp_all add: loop_eq[of c w])
      then show ?thesis by (intro exI[of _ w1] exI[of _ eof] exI[of _ "[]"]) auto
    next
      case False
      have "length (pending w1) < length (pending w)" using False bs(1,2) by (cases bs) auto
      moreover have "reads_stream rd (d_fd (c_socket c1)) pending" using less.prems bs(3) by simp
      ultimately obtain w' r got where step: "loop c1 w1 = Some (w', c1\<lparr>b_read := b_read c1 @ got\<rparr>, r)"
          "pending w1 = got @ pending w'" "r = eof \<or> (\<exists>e. r = raised e)"
        using less.hyps by meson
      have "loop c w = loop c1 w1" using rd Inr False by (simp add: loop_eq[of c w])
      then show ?thesis using step bs(2,3)
        by (intro exI[of _ w'] exI[of _ r] exI[of _ "bs @ got"]) simp
    qed
  qed
qed

end

section \<open>Writing until the buffer is empty\<close>

locale drain_writer =
  fixes wr :: "'w write_call"
    and loop :: "'a BufferedConnection_scheme \<Rightarrow> 'w \<Rightarrow> ('w \<times> 'a BufferedConnection_scheme \<times> 'o) option"
    and finished :: 'o
    and raised :: "tcp_error \<Rightarrow> 'o"
  assumes loop_eq: "loop c w = (case write_from_buffer wr c w of
      (w, c, Inl e) \<Rightarrow> Some (w, c, raised e)
    | (w, c, Inr n) \<Rightarrow> if b_write c = [] then Some (w, c, finished) else loop c w)"
begin

text \<open>
  When a write that succeeds takes at least a byte, the loop ends; the peer has received a
  front of the write buffer and the rest is still in it, which is not empty when the loop ended
  with an exception.
\<close>

lemma drains:
  assumes law: "writes_stream wr (d_fd (c_socket c)) sent"
    and progress: "writes_progress wr (d_fd (c_socket c))"
  shows "\<exists>w' r rest. loop c w = Some (w', c\<lparr>b_write := rest\<rparr>, r) \<and>
    sent w' @ rest = sent w @ b_write c \<and> (r = finished \<and> rest = [] \<or>
      (\<exists>e. r = raised e \<and> (b_write c \<noteq> [] \<longrightarrow> rest \<noteq> [])))"
  using assms
proof (induction "length (b_write c)" arbitrary: c w rule: less_induct)
  case less
  obtain w1 c1 r1 where wr: "write_from_buffer wr c w = (w1, c1, r1)"
    by (cases "write_from_buffer wr c w")
  note st = write_from_buffer_stream[OF less.prems(1) wr]
  show ?case
  proof (cases r1)
    case (Inl e)
    then have "loop c w = Some (w1, c, raised e)" "sent w1 = sent w"
      using wr st by (simp_all add: loop_eq[of c w])
    then show ?thesis by (intro exI[of _ w1] exI[of _ "raised e"] exI[of _ "b_write c"]) auto
  next
    case (Inr n)
    then have n: "n \<le> length (b_write c)" "sent w1 @ b_write c1 = sent w @ b_write c"
        "c1 = c\<lparr>b_write := drop n (b_write c)\<rparr>" using st by blast+
    show ?thesis
    proof (cases "b_write c1 = []")
      case True
      then have "loop c w = Some (w1, c\<lparr>b_write := []\<rparr>, finished)" "sent w1 @ [] = sent w @ b_write c"
        using wr Inr n by (simp_all add: loop_eq[of c w])
      then show ?thesis by blast
    next
      case False
      then have "b_write c \<noteq> []" using n(3) by auto
      moreover obtain w2 r2 where os: "wr (d_fd (c_socket c)) (b_write c) w = (w2, r2)"
        by (cases "wr (d_fd (c_socket c)) (b_write c) w")
      moreover have "r2 = Inr n" using wr Inr os
        by (auto simp: write_from_buffer_def NonBlockConnection_write_def handle_error_def
            split: sum.splits if_splits)
      ultimately have "0 < n" using less.prems(2) unfolding writes_progress_def by metis
      with False n have "length (b_write c1) < length (b_write c)" by (simp add: \<open>b_write c \<noteq> []\<close>)
      moreover have "writes_stream wr (d_fd (c_socket c1)) sent" "writes_progress wr (d_fd (c_socket c1))"
        using less.prems n(3) by simp_all
      ultimately obtain w' r rest where step: "loop c1 w1 = Some (w', c1\<lparr>b_write := rest\<rparr>, r)"
          "sent w' @ rest = sent w1 @ b_write c1" "r = finished \<and> rest = [] \<or>
            (\<exists>e. r = raised e \<and> (b_write c1 \<noteq> [] \<longrightarrow> rest \<noteq> []))"
        using less.hyps by meson
      have "loop c w = loop c1 w1" using wr Inr False by (simp add: loop_eq[of c w])
      then show ?thesis using step n(2,3) False
        by (intro exI[of _ w'] exI[of _ r] exI[of _ rest]) auto
    qed
  qed
qed

end

end
