(* ===== verification/Epoll.thy ===== *)
theory Epoll
  imports Tcp_Descriptor Posix Epoll_Option
begin

text \<open>
  \<^verbatim>\<open>5.net/lib/epoll.cpp\<close>: the wrapper of the kernel's event queue. \<^verbatim>\<open>epoll_ctl\<close> and
  \<^verbatim>\<open>epoll_wait\<close> are parameters. What is documented of \<^verbatim>\<open>epoll_ctl\<close> is a law about the list of
  descriptors the kernel watches; the wrapper's methods are then what they are meant to be,
  changes of this list.
\<close>

section \<open>Calls\<close>

datatype epoll_data = Fd int | Ptr nat

record epoll_event =
  ev_events :: "32 word"
  ev_data :: epoll_data

datatype epoll_op = CTL_ADD | CTL_DEL | CTL_MOD

type_synonym 'w epoll_ctl =
  "int \<Rightarrow> epoll_op \<Rightarrow> int \<Rightarrow> epoll_event option \<Rightarrow> 'w \<Rightarrow> 'w \<times> (errno + unit)"
type_synonym 'w epoll_wait = "int \<Rightarrow> nat \<Rightarrow> 'w \<Rightarrow> 'w \<times> (errno + epoll_event list)"

datatype epoll_error = EPollException errno

section \<open>The class\<close>

record EPoll =
  events_queue_size :: nat
  epoll_fd :: Descriptor

definition MAX_EVENTS :: nat where
  "MAX_EVENTS = 1000"

definition epoll_handle_error :: "errno + 'a \<Rightarrow> epoll_error + 'a" where
  "epoll_handle_error r = (case r of Inl e \<Rightarrow> Inl (EPollException e) | Inr x \<Rightarrow> Inr x)"

text \<open>The constructor, for the result of \<^verbatim>\<open>epoll_create(1)\<close>.\<close>

definition EPoll_new :: "errno + int \<Rightarrow> epoll_error + EPoll" where
  "EPoll_new created =
     bindE (epoll_handle_error created)
       (\<lambda>fd. Inr \<lparr>events_queue_size = MAX_EVENTS, epoll_fd = Descriptor_new fd\<rparr>)"

definition set_max_events :: "nat \<Rightarrow> EPoll \<Rightarrow> EPoll" where
  "set_max_events max_events ep = ep\<lparr>events_queue_size := max_events\<rparr>"

definition try_epoll_ctl ::
  "'w epoll_ctl \<Rightarrow> EPoll \<Rightarrow> epoll_op \<Rightarrow> int \<Rightarrow> epoll_event option \<Rightarrow> 'w \<Rightarrow> 'w \<times> (epoll_error + unit)" where
  "try_epoll_ctl ctl ep op fd event w =
     (let (w, r) = ctl (d_fd (epoll_fd ep)) op fd event w in (w, epoll_handle_error r))"

definition EPoll_add_fd ::
  "'w epoll_ctl \<Rightarrow> EPoll \<Rightarrow> Descriptor \<Rightarrow> OPTION \<Rightarrow> 'w \<Rightarrow> 'w \<times> (epoll_error + unit)" where
  "EPoll_add_fd ctl ep d opt =
     try_epoll_ctl ctl ep CTL_ADD (d_fd d) (Some \<lparr>ev_events = ucast opt, ev_data = Fd (d_fd d)\<rparr>)"

definition EPoll_mod_fd ::
  "'w epoll_ctl \<Rightarrow> EPoll \<Rightarrow> Descriptor \<Rightarrow> OPTION \<Rightarrow> 'w \<Rightarrow> 'w \<times> (epoll_error + unit)" where
  "EPoll_mod_fd ctl ep d opt =
     try_epoll_ctl ctl ep CTL_MOD (d_fd d) (Some \<lparr>ev_events = ucast opt, ev_data = Fd (d_fd d)\<rparr>)"

text \<open>The two methods for a place, with the descriptor of the connection in it.\<close>

definition EPoll_add_place ::
  "'w epoll_ctl \<Rightarrow> EPoll \<Rightarrow> nat \<Rightarrow> Descriptor \<Rightarrow> OPTION \<Rightarrow> 'w \<Rightarrow> 'w \<times> (epoll_error + unit)" where
  "EPoll_add_place ctl ep p d opt =
     try_epoll_ctl ctl ep CTL_ADD (d_fd d) (Some \<lparr>ev_events = ucast opt, ev_data = Ptr p\<rparr>)"

definition EPoll_mod_place ::
  "'w epoll_ctl \<Rightarrow> EPoll \<Rightarrow> nat \<Rightarrow> Descriptor \<Rightarrow> OPTION \<Rightarrow> 'w \<Rightarrow> 'w \<times> (epoll_error + unit)" where
  "EPoll_mod_place ctl ep p d opt =
     try_epoll_ctl ctl ep CTL_MOD (d_fd d) (Some \<lparr>ev_events = ucast opt, ev_data = Ptr p\<rparr>)"

definition EPoll_del ::
  "'w epoll_ctl \<Rightarrow> EPoll \<Rightarrow> Descriptor \<Rightarrow> 'w \<Rightarrow> 'w \<times> (epoll_error + unit)" where
  "EPoll_del ctl ep d = try_epoll_ctl ctl ep CTL_DEL (d_fd d) None"

definition EPoll_wait ::
  "'w epoll_wait \<Rightarrow> EPoll \<Rightarrow> 'w \<Rightarrow> 'w \<times> (epoll_error + epoll_event list)" where
  "EPoll_wait wait ep w =
     (let (w, r) = wait (d_fd (epoll_fd ep)) (events_queue_size ep) w in (w, epoll_handle_error r))"

section \<open>The watched descriptors\<close>

text \<open>
  The documented behaviour of \<^verbatim>\<open>epoll_ctl\<close> on the list of watched descriptors: adding fails
  for one that is watched, changing and deleting for one that is not, and a call that fails
  changes nothing.
\<close>

definition watches :: "'w epoll_ctl \<Rightarrow> int \<Rightarrow> ('w \<Rightarrow> int \<Rightarrow> epoll_event option) \<Rightarrow> bool" where
  "watches ctl epfd watched \<longleftrightarrow> (\<forall>op fd ev w w' r. ctl epfd op fd ev w = (w', r) \<longrightarrow>
     (case r of
        Inl e \<Rightarrow> watched w' = watched w
      | Inr _ \<Rightarrow> (op = CTL_ADD) = (watched w fd = None) \<and>
          watched w' = (watched w)(fd := (if op = CTL_DEL then None else ev))))"

lemma try_epoll_ctl_watched:
  assumes "watches ctl (d_fd (epoll_fd ep)) watched" "try_epoll_ctl ctl ep op fd ev w = (w', r)"
  shows "(\<exists>e. r = Inl e \<and> watched w' = watched w) \<or>
    (r = Inr () \<and> (op = CTL_ADD) = (watched w fd = None) \<and>
     watched w' = (watched w)(fd := (if op = CTL_DEL then None else ev)))"
proof -
  obtain r1 where ctl: "ctl (d_fd (epoll_fd ep)) op fd ev w = (w', r1)" "r = epoll_handle_error r1"
    using assms(2) by (auto simp: try_epoll_ctl_def split: prod.splits)
  have "case r1 of Inl e \<Rightarrow> watched w' = watched w
      | Inr _ \<Rightarrow> (op = CTL_ADD) = (watched w fd = None) \<and>
          watched w' = (watched w)(fd := (if op = CTL_DEL then None else ev))"
    using assms(1) ctl(1) unfolding watches_def by blast
  then show ?thesis using ctl(2) by (cases r1) (simp_all add: epoll_handle_error_def)
qed

text \<open>
  A change of a place's mask leaves the descriptor watched with the 32 bits of the mask and the
  place; a descriptor that is not watched, such as that of a closed connection, is an exception.
\<close>

lemma EPoll_mod_place_watched:
  assumes "watches ctl (d_fd (epoll_fd ep)) watched" "EPoll_mod_place ctl ep p d opt w = (w', r)"
  shows "(\<exists>e. r = Inl e \<and> watched w' = watched w) \<or>
    (r = Inr () \<and> watched w (d_fd d) \<noteq> None \<and>
     watched w' = (watched w)(d_fd d \<mapsto> \<lparr>ev_events = ucast opt, ev_data = Ptr p\<rparr>))"
  using try_epoll_ctl_watched[OF assms(1), of CTL_MOD "d_fd d" "Some \<lparr>ev_events = ucast opt, ev_data = Ptr p\<rparr>" w w' r]
    assms(2) by (simp add: EPoll_mod_place_def)

text \<open>A kernel for which the law holds.\<close>

definition kernel_ctl :: "(int \<rightharpoonup> epoll_event) epoll_ctl" where
  "kernel_ctl epfd op fd event w =
     (if (op = CTL_ADD) = (w fd = None) then (w(fd := (if op = CTL_DEL then None else event)), Inr ())
      else (w, Inl (Errno 17)))"

lemma kernel_ctl_watches: "watches kernel_ctl epfd (\<lambda>w. w)"
  by (auto simp: watches_def kernel_ctl_def split: if_splits sum.splits)

end
