(* ===== verification/Http_Worker.thy ===== *)
theory Http_Worker
  imports Http_Service Drain_IO Epoll
begin

text \<open>
  \<^verbatim>\<open>6.http/lib/httpworker.cpp\<close>: what a worker thread does with one event. The worker holds the
  place's mutex meanwhile, so that the service's state changes under it only in other places;
  the methods that touch the service's containers are those of \<^verbatim>\<open>Http_Service\<close>.

  The system calls and the listener are fields of a record of functions of the world. An
  exception no handler catches leaves \<^verbatim>\<open>work\<close>, the function of a thread: the program is
  terminated. The outcome \<^verbatim>\<open>None\<close> of an operation is a loop that does not end.
\<close>

section \<open>The environment\<close>

record 'w worker_env =
  env_read :: "'w read_call"
  env_write :: "'w write_call"
  env_epoll :: EPoll
  env_epoll_ctl :: "'w epoll_ctl"
  env_OnRequest :: "HttpConnection \<Rightarrow> 'w \<Rightarrow> 'w \<times> HttpConnection"

datatype worker_error = Uncaught tcp_error | EPollError errno | DanglingIterator | ParserUndefined

type_synonym 'w worker_result = "'w \<times> HttpService \<times> (worker_error + bool)"

section \<open>The request's header\<close>

definition is_keep_alive :: "Header list \<Rightarrow> bool" where
  "is_keep_alive headers =
     (case List.find (\<lambda>h. header_name h = ''Connection'') headers of
        None \<Rightarrow> False
      | Some h \<Rightarrow> find_str ''Keep-Alive'' (header_value h) \<noteq> None)"

section \<open>Closing and the event mask\<close>

definition EPoll_mod ::
  "'w worker_env \<Rightarrow> nat \<Rightarrow> HttpService \<Rightarrow> 'w \<Rightarrow> 'w \<times> HttpService \<times> (worker_error + unit)" where
  "EPoll_mod env p sv w =
     (case EPoll_mod_place (env_epoll_ctl env) (env_epoll env) p (c_socket (conn_at sv p))
             (epoll_option (conn_at sv p)) w of
        (w, Inl (EPollException errno)) \<Rightarrow> (w, sv, Inl (EPollError errno))
      | (w, Inr _) \<Rightarrow> (w, sv, Inr ()))"

text \<open>The call of the kernel it makes.\<close>

definition env_epoll_mod ::
  "'w worker_env \<Rightarrow> nat \<Rightarrow> int \<Rightarrow> OPTION \<Rightarrow> 'w \<Rightarrow> 'w \<times> (errno + unit)" where
  "env_epoll_mod env p fd opt =
     env_epoll_ctl env (d_fd (epoll_fd (env_epoll env))) CTL_MOD fd
       (Some \<lparr>ev_events = ucast opt, ev_data = Ptr p\<rparr>)"

lemma EPoll_mod_eq:
  "EPoll_mod env p sv w =
     (case env_epoll_mod env p (d_fd (c_socket (conn_at sv p))) (epoll_option (conn_at sv p)) w of
        (w, Inl errno) \<Rightarrow> (w, sv, Inl (EPollError errno))
      | (w, Inr _) \<Rightarrow> (w, sv, Inr ()))"
  by (auto simp: EPoll_mod_def EPoll_mod_place_def try_epoll_ctl_def env_epoll_mod_def
      epoll_handle_error_def split: prod.splits sum.splits)

definition worker_subscribe ::
  "'w worker_env \<Rightarrow> nat \<Rightarrow> OPTION \<Rightarrow> HttpService \<Rightarrow> 'w \<Rightarrow> 'w \<times> HttpService \<times> (worker_error + unit)" where
  "worker_subscribe env p opt sv w =
     (let c = conn_at sv p;
          sv = set_conn p (c\<lparr>epoll_option :=
            opt_plus (opt_plus (epoll_option c) opt) OPTION_ET_ONESHOT\<rparr>) sv
      in EPoll_mod env p sv w)"

definition worker_unsubscribe ::
  "'w worker_env \<Rightarrow> nat \<Rightarrow> OPTION \<Rightarrow> HttpService \<Rightarrow> 'w \<Rightarrow> 'w \<times> HttpService \<times> (worker_error + unit)" where
  "worker_unsubscribe env p opt sv w =
     (let c = conn_at sv p;
          sv = set_conn p (c\<lparr>epoll_option :=
            opt_plus (opt_minus (epoll_option c) opt) OPTION_ET_ONESHOT\<rparr>) sv
      in EPoll_mod env p sv w)"

section \<open>Reading a request\<close>

datatype drained = Finished | Raised tcp_error

partial_function (option) read_requests ::
  "'w read_call \<Rightarrow> HttpConnection \<Rightarrow> 'w \<Rightarrow> ('w \<times> HttpConnection \<times> drained) option" where
  "read_requests os_read c w =
     (case read_to_buffer os_read c w of
        (w, c, Inl e) \<Rightarrow> Some (w, c, Raised e)
      | (w, c, Inr n) \<Rightarrow> if n = 0 then Some (w, c, Finished) else read_requests os_read c w)"

text \<open>
  \<^verbatim>\<open>Finished\<close>: the peer has closed its end. The result is whether there is a request in the
  connection to hand to the listener.
\<close>

definition try_read_request ::
  "'w worker_env \<Rightarrow> nat \<Rightarrow> HttpService \<Rightarrow> 'w \<Rightarrow> 'w worker_result option" where
  "try_read_request env p sv w =
     (case read_requests (env_read env) (conn_at sv p) w of
        None \<Rightarrow> None
      | Some (w, c, end) \<Rightarrow>
          let sv = set_conn p c sv
          in case end of
               Finished \<Rightarrow> Some (w, close_client p sv, Inr False)
             | Raised (DescriptorError e) \<Rightarrow> Some (w, close_client p sv, Inr False)
             | Raised (TimeOutError e) \<Rightarrow>
                 (case Request_new (b_read c) of
                    Inr req \<Rightarrow>
                      Some (w, set_conn p (c\<lparr>keep_alive := is_keep_alive (m_headers req),
                        h_req := req\<rparr>) sv, Inr True)
                  | Inl (ExpectingData exd) \<Rightarrow>
                      (case worker_subscribe env p OPTION_READ sv w of
                         (w, sv, Inl e) \<Rightarrow> Some (w, sv, Inl e)
                       | (w, sv, Inr _) \<Rightarrow> Some (w, sv, Inr False))
                  | Inl (IncorrectData ind) \<Rightarrow> Some (w, close_client p sv, Inr False)
                  | Inl Undefined_Behaviour \<Rightarrow> Some (w, sv, Inl ParserUndefined))
             | Raised e \<Rightarrow> Some (w, sv, Inl (Uncaught e)))"

section \<open>Writing a response\<close>

partial_function (option) write_responces ::
  "'w write_call \<Rightarrow> HttpConnection \<Rightarrow> 'w \<Rightarrow> ('w \<times> HttpConnection \<times> drained) option" where
  "write_responces os_write c w =
     (case write_from_buffer os_write c w of
        (w, c, Inl e) \<Rightarrow> Some (w, c, Raised e)
      | (w, c, Inr n) \<Rightarrow>
          if b_write c = [] then Some (w, c, Finished) else write_responces os_write c w)"

definition try_write_responce ::
  "'w worker_env \<Rightarrow> nat \<Rightarrow> HttpService \<Rightarrow> 'w \<Rightarrow> 'w worker_result option" where
  "try_write_responce env p sv w =
     (case write_responces (env_write env) (conn_at sv p) w of
        None \<Rightarrow> None
      | Some (w, c, end) \<Rightarrow>
          let sv = set_conn p c sv
          in case end of
               Finished \<Rightarrow> Some (w, sv, Inr True)
             | Raised (TimeOutError e) \<Rightarrow> Some (w, sv, Inr False)
             | Raised (DescriptorError e) \<Rightarrow> Some (w, close_client p sv, Inr False)
             | Raised e \<Rightarrow> Some (w, sv, Inl (Uncaught e)))"

section \<open>One event\<close>

text \<open>The end of the loop's body: the place is closed or armed again.\<close>

definition finish_event :: "'w worker_env \<Rightarrow> nat \<Rightarrow> HttpService \<Rightarrow> 'w \<Rightarrow> 'w worker_result" where
  "finish_event env p sv w =
     (if epoll_option (conn_at sv p) = OPTION_ET_ONESHOT then (w, close_client p sv, Inr True)
      else case worker_subscribe env p OPTION_UNKNOWN sv w of
             (w, sv, Inl e) \<Rightarrow> (w, sv, Inl e)
           | (w, sv, Inr _) \<Rightarrow> (w, sv, Inr True))"

text \<open>
  The two branches: the request is handed to the listener, which may write its response into
  the connection; the response is written.
\<close>

definition on_readable ::
  "'w worker_env \<Rightarrow> nat \<Rightarrow> HttpService \<Rightarrow> 'w \<Rightarrow> 'w worker_result option" where
  "on_readable env p sv w =
     (case try_read_request env p sv w of
        None \<Rightarrow> None
      | Some (w, sv, Inl e) \<Rightarrow> Some (w, sv, Inl e)
      | Some (w, sv, Inr ready) \<Rightarrow>
          if \<not> ready then Some (w, sv, Inr False)
          else let (w, c) = env_OnRequest env (conn_at sv p) w;
                   c = (if \<not> keep_alive c then Http_unsubscribe OPTION_READ c else c\<lparr>b_read := []\<rparr>);
                   c = Http_subscribe OPTION_WRITE c
               in Some (finish_event env p (set_conn p c sv) w))"

definition on_writable ::
  "'w worker_env \<Rightarrow> nat \<Rightarrow> HttpService \<Rightarrow> 'w \<Rightarrow> 'w worker_result option" where
  "on_writable env p sv w =
     (case try_write_responce env p sv w of
        None \<Rightarrow> None
      | Some (w, sv, Inl e) \<Rightarrow> Some (w, sv, Inl e)
      | Some (w, sv, Inr written) \<Rightarrow>
          let sv = (if written then set_conn p (Http_unsubscribe OPTION_WRITE (conn_at sv p)) sv else sv)
          in Some (finish_event env p sv w))"

text \<open>
  The body of the loop over the events that \<^verbatim>\<open>epoll_wait\<close> returned, for the event mask
  \<^verbatim>\<open>evs\<close> of the place \<^verbatim>\<open>p\<close> at the time \<^verbatim>\<open>now\<close>. \<^verbatim>\<open>Inr\<close>: the loop goes on with the next event.
\<close>

definition worker_event ::
  "'w worker_env \<Rightarrow> nat \<Rightarrow> 32 word \<Rightarrow> nat \<Rightarrow> HttpService \<Rightarrow> 'w \<Rightarrow> 'w worker_result option" where
  "worker_event env p evs now sv w =
     (if \<not> is_open (conn_at sv p) then Some (w, sv, Inr False)
      else case reset_last_activity_time p now sv of
             None \<Rightarrow> Some (w, sv, Inl DanglingIterator)
           | Some sv \<Rightarrow>
               if evs AND EPOLLIN \<noteq> 0 then on_readable env p sv w
               else if evs AND EPOLLOUT \<noteq> 0 then on_writable env p sv w
               else Some (finish_event env p sv w))"

text \<open>
  The loop over the events that one call of \<^verbatim>\<open>epoll_wait\<close> returned, each with its place, its
  mask and the time it is taken up; an exception leaves it.
\<close>

fun worker_events ::
  "'w worker_env \<Rightarrow> (nat \<times> 32 word \<times> nat) list \<Rightarrow> HttpService \<Rightarrow> 'w \<Rightarrow> 'w worker_result option" where
  "worker_events env [] sv w = Some (w, sv, Inr True)"
| "worker_events env ((p, evs, now) # es) sv w =
     (case worker_event env p evs now sv w of
        None \<Rightarrow> None
      | Some (w, sv, Inl e) \<Rightarrow> Some (w, sv, Inl e)
      | Some (w, sv, Inr _) \<Rightarrow> worker_events env es sv w)"

section \<open>The loops\<close>

interpretation http_reader: drain_reader os_read "read_requests os_read" Finished Raised
  for os_read
  by unfold_locales (subst read_requests.simps, simp split: prod.splits sum.splits)

interpretation http_writer: drain_writer os_write "write_responces os_write" Finished Raised
  for os_write
  by unfold_locales (subst write_responces.simps, simp split: prod.splits sum.splits)

end
