(* ===== verification/Http_Service_Props.thy ===== *)
theory Http_Service_Props
  imports Http_Service
begin

text \<open>
  The invariant of the service's containers under every interleaving of the threads, and the
  properties it gives: which places are in the queue of closed places, when reusing one of them
  is undefined behaviour, and what a dump of timed-out connections leaves.
\<close>

section \<open>Reading the updated state\<close>

definition iter_at :: "HttpService \<Rightarrow> nat \<Rightarrow> nat option" where
  "iter_at sv p = timeout_iter (connections sv ! p)"

definition places :: "HttpService \<Rightarrow> nat" where
  "places sv = length (connections sv)"

lemma update_place_simps [simp]:
  "places (update_place p f sv) = places sv" "timeod (update_place p f sv) = timeod sv"
  "closed_places (update_place p f sv) = closed_places sv"
  "next_node (update_place p f sv) = next_node sv"
  "conn_timeo (update_place p f sv) = conn_timeo sv"
  "ka_conn_timeo (update_place p f sv) = ka_conn_timeo sv"
  by (simp_all add: update_place_def places_def)

lemma set_conn_at [simp]:
  "p < places sv \<Longrightarrow> conn_at (set_conn p c sv) q = (if q = p then c else conn_at sv q)"
  "iter_at (set_conn p c sv) q = iter_at sv q"
  by (cases "p = q"; cases "p < places sv"; simp add: conn_at_def iter_at_def update_place_def
      places_def list_update_beyond)+

lemma set_iter_at [simp]:
  "conn_at (set_iter p n sv) q = conn_at sv q"
  "p < places sv \<Longrightarrow> iter_at (set_iter p n sv) q = (if q = p then Some n else iter_at sv q)"
  by (cases "p = q"; cases "p < places sv"; simp add: conn_at_def iter_at_def update_place_def
      places_def list_update_beyond)+

lemma field_updates [simp]:
  "conn_at (sv\<lparr>timeod := l\<rparr>) = conn_at sv" "iter_at (sv\<lparr>timeod := l\<rparr>) = iter_at sv"
  "places (sv\<lparr>timeod := l\<rparr>) = places sv"
  "conn_at (sv\<lparr>closed_places := c\<rparr>) = conn_at sv" "iter_at (sv\<lparr>closed_places := c\<rparr>) = iter_at sv"
  "places (sv\<lparr>closed_places := c\<rparr>) = places sv"
  "conn_at (push_place p sv) = conn_at sv" "iter_at (push_place p sv) = iter_at sv"
  "places (push_place p sv) = places sv" "closed_places (push_place p sv) = closed_places sv"
  "timeod (push_place p sv) = timeod sv @ [(next_node sv, p)]"
  "next_node (push_place p sv) = Suc (next_node sv)"
  "conn_timeo (push_place p sv) = conn_timeo sv" "ka_conn_timeo (push_place p sv) = ka_conn_timeo sv"
  by (auto simp: conn_at_def iter_at_def places_def push_place_def)

lemma field_commute [simp]:
  "update_place p f (sv\<lparr>timeod := l\<rparr>) = (update_place p f sv)\<lparr>timeod := l\<rparr>"
  "update_place p f (sv\<lparr>closed_places := c\<rparr>) = (update_place p f sv)\<lparr>closed_places := c\<rparr>"
  by (simp_all add: update_place_def)

section \<open>The invariant\<close>

definition closed_inv :: "HttpService \<Rightarrow> bool" where
  "closed_inv sv \<longleftrightarrow> distinct (closed_places sv) \<and>
     set (closed_places sv) = {p. p < places sv \<and> \<not> is_open (conn_at sv p)}"

definition nodes_inv :: "HttpService \<Rightarrow> bool" where
  "nodes_inv sv \<longleftrightarrow> distinct (map fst (timeod sv)) \<and>
     (\<forall>x\<in>set (timeod sv). snd x < places sv \<and> iter_at sv (snd x) = Some (fst x)) \<and>
     (\<forall>p<places sv. \<forall>n. iter_at sv p = Some n \<longrightarrow> n < next_node sv) \<and>
     (\<forall>p<places sv. \<forall>q<places sv. \<forall>n. iter_at sv p = Some n \<longrightarrow> iter_at sv q = Some n \<longrightarrow> p = q) \<and>
     (\<forall>p<places sv. is_open (conn_at sv p) \<longrightarrow> (\<exists>n. (n, p) \<in> set (timeod sv)))"

definition order_inv :: "nat \<Rightarrow> HttpService \<Rightarrow> bool" where
  "order_inv t sv \<longleftrightarrow> sorted (map (\<lambda>x. start (conn_at sv (snd x))) (timeod sv)) \<and>
     (\<forall>x\<in>set (timeod sv). start (conn_at sv (snd x)) \<le> t)"

definition service_inv :: "nat \<Rightarrow> HttpService \<Rightarrow> bool" where
  "service_inv t sv \<longleftrightarrow> closed_inv sv \<and> nodes_inv sv \<and> order_inv t sv"

lemmas inv_defs = service_inv_def closed_inv_def nodes_inv_def order_inv_def

lemma service_inv_start: "service_inv t (HttpService_new ct kt)"
  by (simp add: inv_defs HttpService_new_def places_def)

lemma service_inv_later: "service_inv t sv \<Longrightarrow> t \<le> t' \<Longrightarrow> service_inv t' sv"
  by (fastforce simp: inv_defs)

text \<open>Splicing: which node moves, and what it leaves in order.\<close>

lemma splice_None: "splice_to_end iter cont = None \<longleftrightarrow> (\<forall>n. iter = Some n \<longrightarrow> n \<notin> fst ` set cont)"
proof (cases iter)
  case (Some n)
  have "map_of cont n = None \<longleftrightarrow> n \<notin> fst ` set cont" by (simp add: map_of_eq_None_iff)
  with Some show ?thesis by (cases "map_of cont n") (auto simp: splice_to_end_def)
qed (simp add: splice_to_end_def)

lemma nodes_iter_inj:
  "nodes_inv sv \<Longrightarrow> p < places sv \<Longrightarrow> q < places sv \<Longrightarrow> iter_at sv p = Some n \<Longrightarrow>
   iter_at sv q = Some n \<Longrightarrow> q = p"
  unfolding nodes_inv_def by blast

lemma splice_Some:
  assumes "nodes_inv sv" "p < places sv"
    and "splice_to_end (iter_at sv p) (timeod sv) = Some cont"
  shows "\<exists>n. iter_at sv p = Some n \<and> (n, p) \<in> set (timeod sv) \<and>
    cont = filter (\<lambda>x. snd x \<noteq> p) (timeod sv) @ [(n, p)]"
proof -
  from assms(3) obtain n q where n: "iter_at sv p = Some n" and q: "map_of (timeod sv) n = Some q"
    and cont: "cont = filter (\<lambda>x. fst x \<noteq> n) (timeod sv) @ [(n, q)]"
    by (auto simp: splice_to_end_def split: option.splits)
  have mem: "(n, q) \<in> set (timeod sv)" using q by (rule map_of_SomeD)
  then have "q < places sv" "iter_at sv q = Some n" using assms(1) by (auto simp: nodes_inv_def)
  then have qp: "q = p" using nodes_iter_inj[OF assms(1,2)] n by blast
  have "filter (\<lambda>x. fst x \<noteq> n) (timeod sv) = filter (\<lambda>x. snd x \<noteq> p) (timeod sv)"
  proof (rule filter_cong[OF refl])
    fix x
    assume x: "x \<in> set (timeod sv)"
    then have "iter_at sv (snd x) = Some (fst x)" "snd x < places sv"
      using assms(1) by (auto simp: nodes_inv_def)
    have "fst x = n \<Longrightarrow> snd x = p"
      using nodes_iter_inj[OF assms(1,2) \<open>snd x < places sv\<close> n] \<open>iter_at sv (snd x) = Some (fst x)\<close>
      by simp
    moreover have "snd x = p \<Longrightarrow> fst x = n" using n \<open>iter_at sv (snd x) = Some (fst x)\<close> by simp
    ultimately show "(fst x \<noteq> n) = (snd x \<noteq> p)" by blast
  qed
  then show ?thesis using n mem qp cont by auto
qed

lemma open_node:
  assumes "nodes_inv sv" "p < places sv" "is_open (conn_at sv p)"
  shows "\<exists>n. iter_at sv p = Some n \<and> (n, p) \<in> set (timeod sv)"
  using assms unfolding nodes_inv_def by (metis fst_conv snd_conv)

section \<open>Each operation keeps it\<close>

text \<open>A place whose node moves to the end, with an open connection of the present.\<close>

definition touched :: "nat \<Rightarrow> nat \<Rightarrow> HttpConnection \<Rightarrow> HttpService \<Rightarrow> HttpService" where
  "touched p n c sv = set_iter p n ((set_conn p c sv)
     \<lparr>timeod := filter (\<lambda>x. snd x \<noteq> p) (timeod sv) @ [(n, p)]\<rparr>)"

lemma touched_nodes:
  assumes "nodes_inv sv" "p < places sv" "(n, p) \<in> set (timeod sv)"
  shows "nodes_inv (touched p n c sv)"
proof -
  have n: "iter_at sv p = Some n" using assms by (auto simp: nodes_inv_def)
  have it: "iter_at (touched p n c sv) = iter_at sv"
    using n assms(2) by (auto simp: touched_def)
  have "n \<notin> fst ` set (filter (\<lambda>x. snd x \<noteq> p) (timeod sv))"
    using assms n by (auto simp: nodes_inv_def distinct_map inj_on_def)
  moreover have "distinct (map fst (filter (\<lambda>x. snd x \<noteq> p) (timeod sv)))"
    using assms(1) by (simp add: nodes_inv_def distinct_map_filter)
  moreover have "timeod (touched p n c sv) = filter (\<lambda>x. snd x \<noteq> p) (timeod sv) @ [(n, p)]"
      "places (touched p n c sv) = places sv" "next_node (touched p n c sv) = next_node sv"
      "\<And>q. conn_at (touched p n c sv) q = (if q = p then c else conn_at sv q)"
    using assms(2) by (simp_all add: touched_def)
  ultimately show ?thesis using assms(1,2) n by (auto simp: nodes_inv_def it)
qed

lemma touched_order:
  assumes "order_inv t sv" "p < places sv" "t \<le> now" "start c = now"
  shows "order_inv now (touched p n c sv)"
proof -
  let ?l = "filter (\<lambda>x. snd x \<noteq> p) (timeod sv)" and ?f = "\<lambda>x. start (conn_at sv (snd x))"
  have conn: "conn_at (touched p n c sv) q = (if q = p then c else conn_at sv q)" for q
    using assms(2) by (simp add: touched_def)
  have eq: "map (\<lambda>x. start (conn_at (touched p n c sv) (snd x))) ?l = map ?f ?l"
    by (rule map_cong[OF refl]) (simp add: conn)
  have "sorted (map ?f ?l)" using assms(1) by (simp add: order_inv_def sorted_filter)
  moreover have "\<forall>x\<in>set (timeod sv). ?f x \<le> now" using assms(1,3) by (fastforce simp: order_inv_def)
  ultimately have "sorted (map (\<lambda>x. start (conn_at (touched p n c sv) (snd x))) (?l @ [(n, p)]))"
    using assms(4) unfolding map_append eq by (auto simp: sorted_append conn)
  moreover have "\<forall>x\<in>set (?l @ [(n, p)]). start (conn_at (touched p n c sv) (snd x)) \<le> now"
    using assms(4) \<open>\<forall>x\<in>set (timeod sv). ?f x \<le> now\<close> by (auto simp: conn)
  moreover have "timeod (touched p n c sv) = ?l @ [(n, p)]" by (simp add: touched_def)
  ultimately show ?thesis by (simp only: order_inv_def)
qed

text \<open>A new node for a place that has none, which may be the only open place without one.\<close>

definition renewed :: "nat \<Rightarrow> HttpConnection \<Rightarrow> HttpService \<Rightarrow> HttpService" where
  "renewed p c sv = set_iter p (next_node sv) (push_place p (set_conn p c sv))"

lemma renewed_simps [simp]:
  "places (renewed p c sv) = places sv" "timeod (renewed p c sv) = timeod sv @ [(next_node sv, p)]"
  "next_node (renewed p c sv) = Suc (next_node sv)"
  "closed_places (renewed p c sv) = closed_places sv"
  "p < places sv \<Longrightarrow> conn_at (renewed p c sv) q = (if q = p then c else conn_at sv q)"
  "p < places sv \<Longrightarrow> iter_at (renewed p c sv) q = (if q = p then Some (next_node sv) else iter_at sv q)"
  by (simp_all add: renewed_def)

definition nodes_but :: "nat \<Rightarrow> HttpService \<Rightarrow> bool" where
  "nodes_but p sv \<longleftrightarrow> distinct (map fst (timeod sv)) \<and>
     (\<forall>x\<in>set (timeod sv). snd x < places sv \<and> snd x \<noteq> p \<and> iter_at sv (snd x) = Some (fst x)) \<and>
     (\<forall>p<places sv. \<forall>n. iter_at sv p = Some n \<longrightarrow> n < next_node sv) \<and>
     (\<forall>p<places sv. \<forall>q<places sv. \<forall>n. iter_at sv p = Some n \<longrightarrow> iter_at sv q = Some n \<longrightarrow> p = q) \<and>
     (\<forall>q<places sv. q \<noteq> p \<longrightarrow> is_open (conn_at sv q) \<longrightarrow> (\<exists>n. (n, q) \<in> set (timeod sv)))"

lemma nodes_but_weaken:
  assumes "nodes_inv sv" "\<forall>x\<in>set (timeod sv). snd x \<noteq> p"
  shows "nodes_but p sv"
  using assms by (simp add: nodes_inv_def nodes_but_def)

lemma renewed_nodes:
  assumes "nodes_but p sv" "p < places sv"
  shows "nodes_inv (renewed p c sv)"
proof -
  have fresh: "iter_at sv q = Some n \<Longrightarrow> q < places sv \<Longrightarrow> n < next_node sv" for q n
    using assms(1) by (simp add: nodes_but_def)
  have below: "\<forall>x\<in>set (timeod sv). fst x < next_node sv"
    using assms(1) fresh unfolding nodes_but_def by blast
  have "distinct (map fst (timeod (renewed p c sv)))"
    using assms(1) below by (auto simp: nodes_but_def)
  moreover have "\<forall>x\<in>set (timeod (renewed p c sv)). snd x < places sv \<and>
      iter_at (renewed p c sv) (snd x) = Some (fst x)"
    using assms by (simp add: nodes_but_def)
  moreover have "\<forall>q<places sv. \<forall>n. iter_at (renewed p c sv) q = Some n \<longrightarrow> n < Suc (next_node sv)"
    using assms(2) fresh by (auto simp: less_Suc_eq)
  moreover have "q = r" if "q < places sv" "r < places sv" "iter_at (renewed p c sv) q = Some n"
      "iter_at (renewed p c sv) r = Some n" for q r n
  proof -
    have "iter_at sv q \<noteq> Some (next_node sv)" "iter_at sv r \<noteq> Some (next_node sv)"
      using fresh that(1,2) by blast+
    moreover have "q = r" if "iter_at sv q = Some n" "iter_at sv r = Some n"
      using that assms(1) \<open>q < places sv\<close> \<open>r < places sv\<close> unfolding nodes_but_def by blast
    ultimately show ?thesis using that(3,4) assms(2) by (auto split: if_splits)
  qed
  moreover have "\<exists>n. (n, q) \<in> set (timeod (renewed p c sv))"
    if "q < places sv" "is_open (conn_at (renewed p c sv) q)" for q
    using that assms by (cases "q = p") (auto simp: nodes_but_def)
  ultimately show ?thesis unfolding nodes_inv_def renewed_simps(1,3) by blast
qed

lemma renewed_order:
  assumes "order_inv t sv" "p < places sv" "t \<le> now" "start c = now" "\<forall>x\<in>set (timeod sv). snd x \<noteq> p"
  shows "order_inv now (renewed p c sv)"
proof -
  have eq: "map (\<lambda>x. start (conn_at (renewed p c sv) (snd x))) (timeod sv) =
      map (\<lambda>x. start (conn_at sv (snd x))) (timeod sv)"
    using assms(2,5) by (intro map_cong) auto
  have le: "\<forall>x\<in>set (timeod sv). start (conn_at sv (snd x)) \<le> now"
    using assms(1,3) by (fastforce simp: order_inv_def)
  have "sorted (map (\<lambda>x. start (conn_at sv (snd x))) (timeod sv))"
    using assms(1) by (simp add: order_inv_def)
  with le have "sorted (map (\<lambda>x. start (conn_at (renewed p c sv) (snd x))) (timeod sv @ [(next_node sv, p)]))"
    using assms(2,4) unfolding map_append eq by (auto simp: sorted_append)
  moreover have "\<forall>x\<in>set (timeod sv @ [(next_node sv, p)]). start (conn_at (renewed p c sv) (snd x)) \<le> now"
    using le assms(2,4,5) by auto
  ultimately show ?thesis by (simp only: order_inv_def renewed_simps(2))
qed

text \<open>Closing an open place.\<close>

definition closed_state :: "nat \<Rightarrow> HttpConnection \<Rightarrow> HttpService \<Rightarrow> HttpService" where
  "closed_state p c sv = (set_conn p c sv)\<lparr>closed_places := closed_places sv @ [p]\<rparr>"

lemma closed_state_inv:
  assumes "service_inv t sv" "p < places sv" "is_open (conn_at sv p)" "\<not> is_open c"
    "start c = start (conn_at sv p)"
  shows "service_inv t (closed_state p c sv)"
proof -
  have conn: "conn_at (closed_state p c sv) q = (if q = p then c else conn_at sv q)"
      and it: "iter_at (closed_state p c sv) = iter_at sv" for q
    using assms(2) by (auto simp: closed_state_def)
  have st: "start (conn_at (closed_state p c sv) q) = start (conn_at sv q)" for q
    using assms(5) by (simp add: conn)
  have rest: "places (closed_state p c sv) = places sv" "timeod (closed_state p c sv) = timeod sv"
      "next_node (closed_state p c sv) = next_node sv"
      "closed_places (closed_state p c sv) = closed_places sv @ [p]"
    by (simp_all add: closed_state_def)
  have "closed_inv (closed_state p c sv)"
    using assms unfolding service_inv_def closed_inv_def rest conn by auto
  moreover have "nodes_inv (closed_state p c sv)"
    using assms(1,4) unfolding service_inv_def nodes_inv_def rest it conn by auto
  moreover have "order_inv t (closed_state p c sv)"
    using assms(1) unfolding service_inv_def order_inv_def rest st by blast
  ultimately show ?thesis by (simp add: service_inv_def)
qed

text \<open>Dropping the first node, of a place that is closed.\<close>

lemma pop_inv:
  assumes "service_inv t sv" "timeod sv = x # xs" "\<not> is_open (conn_at sv (snd x))"
  shows "service_inv t (sv\<lparr>timeod := xs\<rparr>)"
proof -
  have "nodes_inv (sv\<lparr>timeod := xs\<rparr>)"
  proof -
    have "(n, p) \<in> set xs" if "(n, p) \<in> set (timeod sv)" "is_open (conn_at sv p)" for n p
      using that assms(2,3) by auto
    then show ?thesis using assms(1,2) unfolding service_inv_def nodes_inv_def by simp blast
  qed
  then show ?thesis using assms(1,2) by (simp add: service_inv_def closed_inv_def order_inv_def)
qed

section \<open>The operations in these terms\<close>

definition add_place :: "HttpConnection \<Rightarrow> HttpService \<Rightarrow> HttpService" where
  "add_place c sv = sv\<lparr>connections := connections sv @ [\<lparr>u_conn = c, timeout_iter = None\<rparr>]\<rparr>"

lemma add_place_simps [simp]:
  "places (add_place c sv) = Suc (places sv)" "timeod (add_place c sv) = timeod sv"
  "closed_places (add_place c sv) = closed_places sv" "next_node (add_place c sv) = next_node sv"
  "q < places sv \<Longrightarrow> conn_at (add_place c sv) q = conn_at sv q"
  "q < places sv \<Longrightarrow> iter_at (add_place c sv) q = iter_at sv q"
  "conn_at (add_place c sv) (places sv) = c" "iter_at (add_place c sv) (places sv) = None"
  by (simp_all add: add_place_def places_def conn_at_def iter_at_def nth_append)

lemma set_conn_same: "p < places sv \<Longrightarrow> conn_at sv p = c \<Longrightarrow> set_conn p c sv = sv"
  by (auto simp: update_place_def conn_at_def places_def)

lemma emplace_new:
  assumes "closed_places sv = []"
  shows "emplace_connection cn now sv =
    Some (renewed (places sv) (HttpConnection_new cn now) (add_place (HttpConnection_new cn now) sv),
      places sv)"
proof -
  let ?c = "HttpConnection_new cn now"
  have "set_conn (places sv) ?c (add_place ?c sv) = add_place ?c sv"
    by (rule set_conn_same) simp_all
  then show ?thesis
    using assms
    by (simp add: emplace_connection_def try_replace_closed_with_new_conn_def Let_def renewed_def
        add_place_def[symmetric] places_def[symmetric])
qed

lemma emplace_reused:
  assumes "closed_places sv = p # rest" "p < places sv" "nodes_inv sv"
  shows "emplace_connection cn now sv =
    (if timeod sv = [] then Some (renewed p (HttpConnection_new cn now) (sv\<lparr>closed_places := rest\<rparr>), p)
     else if \<exists>x\<in>set (timeod sv). snd x = p
     then Some (touched p (the (iter_at sv p)) (HttpConnection_new cn now) (sv\<lparr>closed_places := rest\<rparr>), p)
     else None)"
proof (cases "timeod sv = []")
  case True
  then show ?thesis
    using assms(1) by (simp add: emplace_connection_def try_replace_closed_with_new_conn_def Let_def
        renewed_def)
next
  case False
  let ?c = "HttpConnection_new cn now"
  have it: "timeout_iter (connections ((set_conn p ?c sv)\<lparr>closed_places := rest\<rparr>) ! p) = iter_at sv p"
    using set_conn_at(2)[of p ?c sv p] by (simp only: iter_at_def) simp
  show ?thesis
  proof (cases "splice_to_end (iter_at sv p) (timeod sv)")
    case None
    then have "\<not> (\<exists>x\<in>set (timeod sv). snd x = p)"
      using assms(3) by (auto simp: splice_None nodes_inv_def image_iff)
    then show ?thesis
      using None False assms(1) it
      by (simp add: emplace_connection_def try_replace_closed_with_new_conn_def Let_def)
  next
    case (Some cont)
    from splice_Some[OF assms(3,2) Some] obtain n where n: "iter_at sv p = Some n"
        "(n, p) \<in> set (timeod sv)" "cont = filter (\<lambda>x. snd x \<noteq> p) (timeod sv) @ [(n, p)]"
      by blast
    then have "\<exists>x\<in>set (timeod sv). snd x = p" by force
    then show ?thesis
      using Some False assms(1) it n(1,3)
      by (simp add: emplace_connection_def try_replace_closed_with_new_conn_def Let_def touched_def)
  qed
qed

lemma emplace_inv:
  assumes inv: "service_inv t sv" and "t \<le> now" "is_open cn"
    and e: "emplace_connection cn now sv = Some (sv', p)"
  shows "service_inv now sv' \<and> conn_at sv' p = HttpConnection_new cn now \<and> p < places sv'"
proof -
  let ?c = "HttpConnection_new cn now"
  have n: "nodes_inv sv" and o: "order_inv t sv" and cl: "closed_inv sv"
    using inv by (simp_all add: service_inv_def)
  show ?thesis
  proof (cases "closed_places sv")
    case Nil
    let ?a = "add_place ?c sv" and ?p = "places sv"
    have sv': "sv' = renewed ?p ?c ?a" "p = ?p" using e emplace_new[OF Nil] by auto
    have not: "\<forall>x\<in>set (timeod ?a). snd x \<noteq> ?p" using n by (auto simp: nodes_inv_def)
    have "nodes_but ?p ?a"
      unfolding nodes_but_def
    proof (intro conjI)
      show "\<forall>q<places ?a. \<forall>r<places ?a. \<forall>n. iter_at ?a q = Some n \<longrightarrow> iter_at ?a r = Some n \<longrightarrow> q = r"
        using n by (auto simp: nodes_inv_def less_Suc_eq)
    qed (use n not in \<open>auto simp: nodes_inv_def less_Suc_eq\<close>)
    then have "nodes_inv sv'" unfolding sv' by (rule renewed_nodes) simp
    moreover have "order_inv t ?a"
    proof -
      have "map (\<lambda>x. start (conn_at ?a (snd x))) (timeod sv) = map (\<lambda>x. start (conn_at sv (snd x))) (timeod sv)"
        using n by (intro map_cong) (auto simp: nodes_inv_def)
      then have "sorted (map (\<lambda>x. start (conn_at ?a (snd x))) (timeod ?a))"
        using o by (simp only: order_inv_def add_place_simps(2))
      moreover have "\<forall>x\<in>set (timeod ?a). start (conn_at ?a (snd x)) \<le> t"
        using o n by (auto simp: order_inv_def nodes_inv_def)
      ultimately show ?thesis by (simp only: order_inv_def)
    qed
    then have "order_inv now sv'"
      unfolding sv' using renewed_order[of t ?a ?p now ?c] not assms(2) by simp
    moreover have "closed_inv sv'"
      using cl Nil assms(3) by (auto simp: closed_inv_def sv' less_Suc_eq)
    ultimately show ?thesis by (simp add: service_inv_def sv')
  next
    case (Cons q rest)
    let ?d = "sv\<lparr>closed_places := rest\<rparr>"
    have q: "q < places sv" "\<not> is_open (conn_at sv q)" "q \<notin> set rest"
      using cl Cons unfolding closed_inv_def by auto
    note em = emplace_reused[OF Cons q(1) n, of cn now]
    have p: "p = q" using e unfolding em by (auto split: if_splits)
    have d: "nodes_inv ?d" "order_inv t ?d" using n o by (simp_all add: nodes_inv_def order_inv_def)
    have cl': "closed_inv sv'" if "closed_places sv' = rest" "places sv' = places sv"
        "\<And>r. is_open (conn_at sv' r) = (if r = q then True else is_open (conn_at sv r))"
      using that cl Cons q unfolding closed_inv_def by auto
    show ?thesis
    proof (cases "timeod sv = []")
      case True
      then have sv': "sv' = renewed q ?c ?d" using e em by auto
      have "nodes_inv sv'"
        unfolding sv' using True q(1) by (intro renewed_nodes nodes_but_weaken[OF d(1)]) auto
      moreover have "order_inv now sv'"
        unfolding sv' using True q(1) assms(2) by (intro renewed_order[OF d(2)]) auto
      moreover have "closed_inv sv'" using cl' q(1) assms(3) by (simp add: sv')
      ultimately show ?thesis using q(1) by (simp add: service_inv_def sv' p)
    next
      case False
      then have ex: "\<exists>x\<in>set (timeod sv). snd x = q" and
          sv': "sv' = touched q (the (iter_at sv q)) ?c ?d"
        using e em by (auto split: if_splits)
      then have mem: "(the (iter_at sv q), q) \<in> set (timeod ?d)"
        using n by (fastforce simp: nodes_inv_def)
      have "nodes_inv sv'" unfolding sv' using touched_nodes[OF d(1) _ mem] q(1) by simp
      moreover have "order_inv now sv'"
        unfolding sv' using touched_order[OF d(2), of q now ?c] q(1) assms(2) by simp
      moreover have "closed_inv sv'" using cl' q(1) assms(3) by (simp add: sv' touched_def)
      ultimately show ?thesis using q(1) by (simp add: service_inv_def sv' p touched_def)
    qed
  qed
qed

lemma conn_change_inv:
  assumes "service_inv t sv" "p < places sv" "is_open c = is_open (conn_at sv p)"
    "start c = start (conn_at sv p)"
  shows "service_inv t (set_conn p c sv)"
proof -
  have "is_open (conn_at (set_conn p c sv) q) = is_open (conn_at sv q)"
      "start (conn_at (set_conn p c sv) q) = start (conn_at sv q)"
      "iter_at (set_conn p c sv) q = iter_at sv q" for q
    using assms by simp_all
  then show ?thesis using assms(1) unfolding inv_defs by simp
qed

lemma close_client_eq:
  assumes "p < places sv"
  shows "close_client p sv = (if is_open (conn_at sv p)
    then closed_state p (fst (Http_close (conn_at sv p))) sv else sv)"
  by (simp add: close_client_def closed_state_def)

lemma close_client_inv:
  assumes "service_inv t sv" "p < places sv"
  shows "service_inv t (close_client p sv)"
  using closed_state_inv[OF assms(1,2), of "fst (Http_close (conn_at sv p))"] assms
  by (simp add: close_client_eq)

lemma close_if_inv:
  assumes "service_inv t sv" "p < places sv"
  shows "service_inv t (fst (close_if_timed_out p now sv)) \<and>
    (snd (close_if_timed_out p now sv) \<longrightarrow>
       \<not> is_open (conn_at (fst (close_if_timed_out p now sv)) p))"
proof -
  let ?c = "conn_at sv p"
  have "close_if_timed_out p now sv =
      (if is_open ?c \<and> is_timed_out (if keep_alive ?c then ka_conn_timeo sv else conn_timeo sv) now ?c
       then (closed_state p (fst (Http_close ?c)) sv, True) else (sv, False))"
    by (simp add: close_if_timed_out_def closed_state_def Let_def)
  then show ?thesis
    using closed_state_inv[OF assms, of "fst (Http_close ?c)"] assms by (simp add: closed_state_def)
qed

lemma dump_inv:
  "service_inv t sv \<Longrightarrow> service_inv t (dump_timed_out_connections now sv)"
proof (induction now sv rule: dump_timed_out_connections.induct)
  case (1 now sv)
  show ?case
  proof (cases "timeod sv")
    case Nil
    with "1.prems" show ?thesis by (simp add: dump_timed_out_connections.simps)
  next
    case (Cons x xs)
    obtain n p where x: "x = (n, p)" by (cases x)
    let ?r = "close_if_timed_out p now sv"
    have p: "p < places sv" using "1.prems" Cons x by (simp add: service_inv_def nodes_inv_def)
    have inv: "service_inv t (fst ?r)" "snd ?r \<Longrightarrow> \<not> is_open (conn_at (fst ?r) p)"
      using close_if_inv[OF "1.prems" p] by auto
    have dump: "dump_timed_out_connections now sv =
        (if snd ?r then dump_timed_out_connections now ((fst ?r)\<lparr>timeod := xs\<rparr>) else fst ?r)"
      using Cons x by (simp add: dump_timed_out_connections.simps[of now sv])
    show ?thesis
    proof (cases "snd ?r")
      case True
      have "service_inv t ((fst ?r)\<lparr>timeod := xs\<rparr>)"
        using pop_inv[OF inv(1), of x xs] inv(2)[OF True] Cons x by simp
      then show ?thesis using "1.IH"[OF Cons x[symmetric] True] True Cons dump by simp
    next
      case False
      then show ?thesis using dump inv(1) by simp
    qed
  qed
qed

lemma reset_cases:
  assumes "service_inv t sv" "p < places sv" "is_open (conn_at sv p)"
  shows "\<exists>n. (n, p) \<in> set (timeod sv) \<and> reset_last_activity_time p now sv =
    Some (touched p n (reset_time_of_last_activity now (conn_at sv p)) sv)"
proof -
  let ?c = "reset_time_of_last_activity now (conn_at sv p)"
  have n: "nodes_inv sv" using assms(1) by (simp add: service_inv_def)
  obtain m where m: "iter_at sv p = Some m" "(m, p) \<in> set (timeod sv)"
    using open_node[OF n assms(2,3)] by blast
  have it: "timeout_iter (connections (set_conn p ?c sv) ! p) = iter_at sv p"
    using set_conn_at(2)[of p ?c sv p] by (simp only: iter_at_def)
  have "m \<in> fst ` set (timeod sv)" using m(2) by (rule rev_image_eqI) simp
  then obtain cont where c: "splice_to_end (iter_at sv p) (timeod sv) = Some cont"
    using m(1) splice_None[of "iter_at sv p" "timeod sv"] by fastforce
  from splice_Some[OF n assms(2) c] m(1)
  have "cont = filter (\<lambda>x. snd x \<noteq> p) (timeod sv) @ [(m, p)]" by auto
  then show ?thesis
    using m c it by (intro exI[of _ m]) (simp add: reset_last_activity_time_def Let_def touched_def)
qed

lemma reset_inv:
  assumes "service_inv t sv" "p < places sv" "is_open (conn_at sv p)" "t \<le> now"
    and "reset_last_activity_time p now sv = Some sv'"
  shows "service_inv now sv'"
proof -
  let ?c = "reset_time_of_last_activity now (conn_at sv p)"
  obtain n where n: "(n, p) \<in> set (timeod sv)" and sv': "sv' = touched p n ?c sv"
    using reset_cases[OF assms(1-3), of now] assms(5) by auto
  have "nodes_inv sv" "order_inv t sv" "closed_inv sv" using assms(1) by (simp_all add: service_inv_def)
  moreover have "closed_inv sv'"
    using \<open>closed_inv sv\<close> assms(2,3) by (auto simp: closed_inv_def sv' touched_def split: if_splits)
  ultimately show ?thesis
    using touched_nodes[OF _ assms(2) n] touched_order[OF _ assms(2,4), of ?c]
    by (simp add: service_inv_def sv')
qed

lemma service_step_inv:
  assumes "service_step (t, sv) (t', sv')" "service_inv t sv"
  shows "service_inv t' sv'"
  using assms(1)
proof (rule service_stepE)
  fix now cn sv1 p
  assume "(t', sv') = (now, sv1)" "t \<le> now" "is_open cn" "emplace_connection cn now sv = Some (sv1, p)"
  then show ?thesis using emplace_inv assms(2) by blast
next
  fix now
  assume "(t', sv') = (now, dump_timed_out_connections now sv)" "t \<le> now"
  then show ?thesis using dump_inv service_inv_later assms(2) by blast
next
  fix now p sv1
  assume "(t', sv') = (now, sv1)" "t \<le> now" "p < length (connections sv)" "is_open (conn_at sv p)"
    "reset_last_activity_time p now sv = Some sv1"
  then show ?thesis using reset_inv[OF assms(2)] by (simp add: places_def)
next
  fix p
  assume "(t', sv') = (t, close_client p sv)" "p < length (connections sv)"
  then show ?thesis using close_client_inv[OF assms(2)] by (simp add: places_def)
next
  fix p c
  assume "(t', sv') = (t, set_conn p c sv)" "p < length (connections sv)"
    "is_open c = is_open (conn_at sv p)" "start c = start (conn_at sv p)"
  then show ?thesis using conn_change_inv[OF assms(2)] by (simp add: places_def)
qed

lemma service_reachable_inv: "service_reachable ct kt (t, sv) \<Longrightarrow> service_inv t sv"
  by (induction "(t, sv)" arbitrary: t sv rule: rtranclp_induct)
    (auto simp: service_inv_start intro: service_step_inv)

section \<open>Dumping\<close>

lemma close_if_cases:
  assumes "p < places sv" "conn_timeo sv = ka_conn_timeo sv"
  shows "close_if_timed_out p now sv =
    (if is_open (conn_at sv p) \<and> is_timed_out (conn_timeo sv) now (conn_at sv p)
     then (closed_state p (fst (Http_close (conn_at sv p))) sv, True) else (sv, False))"
  using assms by (simp add: close_if_timed_out_def closed_state_def Let_def)

lemma dump_closes:
  assumes "service_inv t sv" "conn_timeo sv = ka_conn_timeo sv"
    and "\<forall>x\<in>set (timeod sv). is_open (conn_at sv (snd x))" "q < places sv"
  shows "is_open (conn_at (dump_timed_out_connections now sv) q) \<longleftrightarrow>
    is_open (conn_at sv q) \<and> \<not> is_timed_out (conn_timeo sv) now (conn_at sv q)"
  using assms
proof (induction now sv arbitrary: q rule: dump_timed_out_connections.induct)
  case (1 now sv)
  have inv: "nodes_inv sv" "order_inv t sv" using "1.prems"(1) by (simp_all add: service_inv_def)
  show ?case
  proof (cases "timeod sv")
    case Nil
    then have "\<not> is_open (conn_at sv q)" using open_node[OF inv(1) "1.prems"(4)] by auto
    with Nil show ?thesis by (simp add: dump_timed_out_connections.simps)
  next
    case (Cons x xs)
    obtain n p where x: "x = (n, p)" by (cases x)
    have p: "p < places sv" "is_open (conn_at sv p)" "iter_at sv p = Some n"
      using inv(1) "1.prems"(3) Cons x by (auto simp: nodes_inv_def)
    let ?c = "fst (Http_close (conn_at sv p))"
    note ci = close_if_cases[OF p(1) "1.prems"(2), of now]
    show ?thesis
    proof (cases "is_timed_out (conn_timeo sv) now (conn_at sv p)")
      case False
      have "\<not> is_timed_out (conn_timeo sv) now (conn_at sv q)" if op: "is_open (conn_at sv q)"
      proof -
        obtain m where "(m, q) \<in> set (timeod sv)" using open_node[OF inv(1) "1.prems"(4) op] by blast
        then have "start (conn_at sv p) \<le> start (conn_at sv q)"
          using inv(2) Cons x by (auto simp: order_inv_def)
        with False show ?thesis by (simp add: is_timed_out_def)
      qed
      then show ?thesis using False ci Cons x by (auto simp: dump_timed_out_connections.simps[of now sv])
    next
      case True
      let ?s = "(closed_state p ?c sv)\<lparr>timeod := xs\<rparr>"
      have dump: "dump_timed_out_connections now sv = dump_timed_out_connections now ?s"
        using True ci Cons x p(2) by (simp add: dump_timed_out_connections.simps[of now sv])
      have conn: "conn_at (closed_state p ?c sv) r = (if r = p then ?c else conn_at sv r)" for r
        using p(1) by (simp add: closed_state_def)
      have s: "timeod ?s = xs" "places ?s = places sv" "conn_timeo ?s = conn_timeo sv"
          "ka_conn_timeo ?s = ka_conn_timeo sv"
        by (simp_all add: closed_state_def)
      have "service_inv t (closed_state p ?c sv)"
        using "1.prems"(1) p by (intro closed_state_inv) simp_all
      then have "service_inv t ?s"
        using Cons x p(1) by (intro pop_inv[of t _ x]) (simp_all add: closed_state_def)
      moreover have "\<forall>y\<in>set xs. is_open (conn_at ?s (snd y))"
      proof
        fix y
        assume y: "y \<in> set xs"
        then have "fst y \<noteq> n" "iter_at sv (snd y) = Some (fst y)" "is_open (conn_at sv (snd y))"
          using inv(1) "1.prems"(3) Cons x by (auto simp: nodes_inv_def)
        then have "snd y \<noteq> p" using p(3) by auto
        with conn[of "snd y"] show "is_open (conn_at ?s (snd y))"
          using \<open>is_open (conn_at sv (snd y))\<close> by simp
      qed
      moreover have step: "snd (close_if_timed_out p now sv)"
          "(fst (close_if_timed_out p now sv))\<lparr>timeod := tl (timeod sv)\<rparr> = ?s"
        using True ci Cons p(2) by simp_all
      ultimately have "is_open (conn_at (dump_timed_out_connections now ?s) q) \<longleftrightarrow>
          is_open (conn_at ?s q) \<and> \<not> is_timed_out (conn_timeo ?s) now (conn_at ?s q)"
        using "1.IH"[OF Cons x[symmetric] step(1), of q, unfolded step(2)] "1.prems"(2,4) s by simp
      then show ?thesis using True by (auto simp: dump conn s)
    qed
  qed
qed

section \<open>A closed place at the front\<close>

lemma dump_blocked:
  assumes "timeod sv = (n, p) # rest" "\<not> is_open (conn_at sv p)"
  shows "dump_timed_out_connections now sv = sv"
  using assms by (simp add: dump_timed_out_connections.simps close_if_timed_out_def Let_def)

lemma touched_front:
  assumes "timeod sv = (n, p) # rest" "q \<noteq> p"
  shows "\<exists>rest'. timeod (touched q m c sv) = (n, p) # rest'"
  using assms by (simp add: touched_def)

lemma emplace_front:
  assumes "service_inv t sv" "t \<le> now" "is_open cn" "emplace_connection cn now sv = Some (sv', q)"
    and "timeod sv = (n, p) # rest" "\<not> is_open (conn_at sv' p)"
  shows "\<exists>rest'. timeod sv' = (n, p) # rest'"
proof (cases "closed_places sv")
  case Nil
  then show ?thesis using assms(4,5) emplace_new[OF Nil, of cn now] by auto
next
  case (Cons r cl)
  have inv: "closed_inv sv" "nodes_inv sv" using assms(1) by (simp_all add: service_inv_def)
  then have "r < places sv" using Cons by (auto simp: closed_inv_def)
  from emplace_reused[OF Cons this inv(2), of cn now] assms(4,5)
  have q: "q = r" and sv': "sv' = touched r (the (iter_at sv r)) (HttpConnection_new cn now) (sv\<lparr>closed_places := cl\<rparr>)"
    by (auto split: if_splits)
  have "conn_at sv' q = HttpConnection_new cn now" using emplace_inv[OF assms(1-4)] by blast
  then have "q \<noteq> p" using assms(3,6) by auto
  then show ?thesis using touched_front[of "sv\<lparr>closed_places := cl\<rparr>" n p rest r] assms(5) q sv' by simp
qed

lemma blocked_step:
  assumes "service_step (t, sv) (t', sv')" "service_inv t sv" "timeod sv = (n, p) # rest"
    and "\<not> is_open (conn_at sv p)" "\<not> is_open (conn_at sv' p)"
  shows "\<exists>rest'. timeod sv' = (n, p) # rest'"
  using assms(1)
proof (rule service_stepE)
  fix now cn sv1 q
  assume "(t', sv') = (now, sv1)" "t \<le> now" "is_open cn" "emplace_connection cn now sv = Some (sv1, q)"
  then show ?thesis using emplace_front[OF assms(2)] assms(3,5) by simp
next
  fix now
  assume "(t', sv') = (now, dump_timed_out_connections now sv)"
  then show ?thesis using dump_blocked[OF assms(3,4)] assms(3) by simp
next
  fix now q sv1
  assume r: "(t', sv') = (now, sv1)" "q < length (connections sv)" "is_open (conn_at sv q)"
    "reset_last_activity_time q now sv = Some sv1"
  then have "q \<noteq> p" using assms(4) by auto
  moreover obtain m c where "sv1 = touched q m c sv"
    using reset_cases[OF assms(2) _ r(3), of now] r(2,4) by (auto simp: places_def)
  ultimately show ?thesis using touched_front[OF assms(3)] r(1) by simp
next
  fix q
  assume "(t', sv') = (t, close_client q sv)"
  then show ?thesis using assms(3) by (simp add: close_client_def)
next
  fix q c
  assume "(t', sv') = (t, set_conn q c sv)"
  then show ?thesis using assms(3) by simp
qed

lemma blocked_run:
  assumes "(\<lambda>s s'. service_step s s' \<and> \<not> is_open (conn_at (snd s') p))\<^sup>*\<^sup>* s s'"
    and "service_inv (fst s) (snd s)" "timeod (snd s) = (n, p) # rest" "\<not> is_open (conn_at (snd s) p)"
  shows "service_inv (fst s') (snd s') \<and> \<not> is_open (conn_at (snd s') p) \<and>
    (\<exists>rest'. timeod (snd s') = (n, p) # rest')"
  using assms
proof (induction rule: rtranclp_induct)
  case (step s1 s2)
  then have "service_step (fst s1, snd s1) (fst s2, snd s2)" by simp
  with step show ?case using service_step_inv blocked_step by blast
qed blast

section \<open>A run with two clients\<close>

definition client :: "int \<Rightarrow> NonBlockConnection" where
  "client fd = \<lparr>c_address = Address_default, c_socket = \<lparr>d_fd = fd\<rparr>\<rparr>"

definition accepted :: "nat \<Rightarrow> int \<Rightarrow> HttpService \<Rightarrow> HttpService" where
  "accepted now fd sv = fst (the (emplace_connection (client fd) now sv))"

text \<open>Two clients connect at seconds 0 and 30.\<close>

definition two_clients :: HttpService where
  "two_clients = accepted 30 6 (accepted 0 5 (HttpService_new 20 60))"

lemma client_open: "0 \<le> fd \<Longrightarrow> is_open (client fd)"
  by (simp add: client_def is_open_def Descriptor_valid_def)

lemma two_clients_reachable: "service_reachable 20 60 (30, two_clients)"
proof -
  let ?s0 = "HttpService_new 20 60" and ?s1 = "accepted 0 5 (HttpService_new 20 60)"
  have "emplace_connection (client 5) 0 ?s0 = Some (?s1, 0)" by code_simp
  then have "service_step (0, ?s0) (0, ?s1)"
    using step_emplace[of 0 0 "client 5" ?s0 ?s1 0] client_open by simp
  moreover have "emplace_connection (client 6) 30 ?s1 = Some (two_clients, 1)" by code_simp
  then have "service_step (0, ?s1) (30, two_clients)"
    using step_emplace[of 0 30 "client 6" ?s1 two_clients 1] client_open by simp
  ultimately show ?thesis by simp
qed

lemmas two_clients_step = rtranclp.rtrancl_into_rtrancl[OF two_clients_reachable]

definition one_dumped :: HttpService where
  "one_dumped = dump_timed_out_connections 30 two_clients"

definition one_closed :: HttpService where
  "one_closed = close_client 0 two_clients"

lemma two_clients_eval:
  "length (connections two_clients) = 2" "timeod two_clients = [(0, 0), (1, 1)]"
  "closed_places two_clients = []" "is_open (conn_at two_clients 0)"
  "is_open (conn_at two_clients 1)" "conn_timeo two_clients = 20"
  by code_simp+

lemma one_dumped_eval:
  "closed_places one_dumped = [0]" "timeod one_dumped = [(1, 1)]"
  by code_simp+

lemma one_closed_eval:
  "timeod one_closed = [(0, 0), (1, 1)]" "\<not> is_open (conn_at one_closed 0)"
  by code_simp+

lemma one_dumped_reachable: "service_reachable 20 60 (30, one_dumped)"
  unfolding one_dumped_def by (rule two_clients_step) (rule step_dump, simp)

lemma one_closed_reachable: "service_reachable 20 60 (30, one_closed)"
  unfolding one_closed_def
  by (rule two_clients_step) (rule step_close, simp add: two_clients_eval)

text \<open>One client of a service whose two timeouts are equal.\<close>

definition equal_timeouts :: HttpService where
  "equal_timeouts = accepted 0 5 (HttpService_new 20 20)"

lemma equal_timeouts_eval:
  "conn_timeo equal_timeouts = ka_conn_timeo equal_timeouts" "length (connections equal_timeouts) = 1"
  "\<forall>x\<in>set (timeod equal_timeouts). is_open (conn_at equal_timeouts (snd x))"
  "is_timed_out (conn_timeo equal_timeouts) 30 (conn_at equal_timeouts 0)"
  by code_simp+

lemma equal_timeouts_reachable: "service_reachable 20 20 (0, equal_timeouts)"
proof -
  have "emplace_connection (client 5) 0 (HttpService_new 20 20) = Some (equal_timeouts, 0)" by code_simp
  then have "service_step (0, HttpService_new 20 20) (0, equal_timeouts)"
    using step_emplace[of 0 0 "client 5" _ equal_timeouts 0] client_open by simp
  then show ?thesis by simp
qed

section \<open>Properties\<close>

text \<open>
  C20: The queue of closed places is exact. Under every interleaving of accepting, dumping,
  serving, resetting and closing, the queue holds each place whose socket is closed exactly
  once and no other, so that the number of connections the service reports, a difference of
  two sizes, is the number of open ones and never wraps.
\<close>

theorem closed_queue_exact:
  assumes "service_reachable ct kt (t, sv)"
  shows "distinct (closed_places sv) \<and>
    set (closed_places sv) = {p. p < length (connections sv) \<and> \<not> is_open (conn_at sv p)} \<and>
    connections_size sv = card {p. p < length (connections sv) \<and> is_open (conn_at sv p)} \<and>
    length (closed_places sv) \<le> length (connections sv)"
proof -
  let ?C = "{p. p < places sv \<and> \<not> is_open (conn_at sv p)}"
    and ?O = "{p. p < places sv \<and> is_open (conn_at sv p)}"
  have c: "distinct (closed_places sv)" "set (closed_places sv) = ?C"
    using service_reachable_inv[OF assms] by (simp_all add: service_inv_def closed_inv_def)
  have "?O \<union> ?C = {..<places sv}" "?O \<inter> ?C = {}" by auto
  then have "card ?O + card ?C = places sv" by (metis card_Un_disjoint card_lessThan finite_Un finite_lessThan)
  moreover have "card ?C = length (closed_places sv)" using c distinct_card by metis
  ultimately show ?thesis using c by (simp add: connections_size_def places_def)
qed

theorem closed_queue_exact_witness: "set (closed_places one_dumped) =
    {p. p < length (connections one_dumped) \<and> \<not> is_open (conn_at one_dumped p)}"
  using closed_queue_exact[OF one_dumped_reachable] by blast


text \<open>
  A worker never touches a dangling iterator. Whatever happened before, for an open
  connection the splice of its node is defined; the connection then is the last of the
  activity list, and the list stays ordered by the time of the last activity, each open
  connection on it.
\<close>

lemma reset_activity_defined:
  assumes "service_reachable ct kt (t, sv)" "p < length (connections sv)" "is_open (conn_at sv p)"
    and "t \<le> now"
  shows "\<exists>sv'. reset_last_activity_time p now sv = Some sv' \<and> snd (last (timeod sv')) = p \<and>
    start (conn_at sv' p) = now \<and>
    sorted (map (\<lambda>x. start (conn_at sv' (snd x))) (timeod sv')) \<and>
    (\<forall>q<length (connections sv'). is_open (conn_at sv' q) \<longrightarrow> q \<in> snd ` set (timeod sv'))"
proof -
  have inv: "service_inv t sv" by (rule service_reachable_inv[OF assms(1)])
  have p: "p < places sv" using assms(2) by (simp add: places_def)
  obtain n where r: "reset_last_activity_time p now sv =
      Some (touched p n (reset_time_of_last_activity now (conn_at sv p)) sv)"
    using reset_cases[OF inv p assms(3)] by blast
  let ?s = "touched p n (reset_time_of_last_activity now (conn_at sv p)) sv"
  have s: "service_inv now ?s" using reset_inv[OF inv p assms(3,4) r] .
  then have "sorted (map (\<lambda>x. start (conn_at ?s (snd x))) (timeod ?s))"
    by (simp add: service_inv_def order_inv_def)
  moreover have "q \<in> snd ` set (timeod ?s)" if "q < length (connections ?s)" "is_open (conn_at ?s q)" for q
    using open_node[of ?s q] s that by (force simp: service_inv_def places_def)
  ultimately show ?thesis using r p by (simp add: touched_def)
qed


text \<open>
  C21: Reusing a place that timed out is undefined behaviour. In a reachable state accepting a
  connection has undefined behaviour exactly when the first closed place has no node left in
  the activity list and the list is not empty: the dump has taken its node away, and
  \<^verbatim>\<open>try_replace_closed_with_new_conn\<close> splices the dangling iterator.
\<close>

theorem reuse_undefined_iff:
  assumes "service_reachable ct kt (t, sv)"
  shows "emplace_connection cn now sv = None \<longleftrightarrow>
    closed_places sv \<noteq> [] \<and> timeod sv \<noteq> [] \<and> hd (closed_places sv) \<notin> snd ` set (timeod sv)"
proof (cases "closed_places sv")
  case Nil
  then show ?thesis by (simp add: emplace_new)
next
  case (Cons p rest)
  have inv: "closed_inv sv" "nodes_inv sv"
    using service_reachable_inv[OF assms] by (simp_all add: service_inv_def)
  have "p < places sv" using inv(1) Cons by (auto simp: closed_inv_def)
  from emplace_reused[OF Cons this inv(2)] show ?thesis using Cons by (auto simp: image_iff)
qed

theorem reuse_undefined_iff_witness: "emplace_connection (client 7) 30 one_dumped = None"
  using reuse_undefined_iff[OF one_dumped_reachable, of "client 7" 30] one_dumped_eval by auto


text \<open>
  C22: A dump closes exactly the connections that timed out. When both timeouts are equal and no
  place on the activity list is closed, then after \<^verbatim>\<open>dump_timed_out_connections\<close> a connection is
  open if and only if it was and has not timed out: the list is in the order of last activity,
  so stopping at the first connection that has not timed out misses none.
\<close>

theorem dump_closes_timed_out:
  assumes "service_reachable ct kt (t, sv)" "conn_timeo sv = ka_conn_timeo sv"
    and "\<forall>x\<in>set (timeod sv). is_open (conn_at sv (snd x))" "q < length (connections sv)"
  shows "is_open (conn_at (dump_timed_out_connections now sv) q) \<longleftrightarrow>
    is_open (conn_at sv q) \<and> \<not> is_timed_out (conn_timeo sv) now (conn_at sv q)"
  using dump_closes[OF service_reachable_inv[OF assms(1)] assms(2,3)] assms(4)
  by (simp add: places_def)

theorem dump_closes_timed_out_witness:
  "\<not> is_open (conn_at (dump_timed_out_connections 30 equal_timeouts) 0)"
  using dump_closes_timed_out[OF equal_timeouts_reachable, of 0 30] equal_timeouts_eval by simp

text \<open>
  C23: A closed place at the front of the activity list stops the dump. A worker that closes a
  connection leaves its place in the list; from then on, in every run of the service in which
  this place is not used again, it stays at the front, and \<^verbatim>\<open>dump_timed_out_connections\<close>
  changes nothing at any time, however long the other connections have been idle.
\<close>

theorem closed_front_blocks_dump:
  assumes "service_reachable ct kt (t, sv)" "timeod sv = (n, p) # rest" "\<not> is_open (conn_at sv p)"
    and "(\<lambda>s s'. service_step s s' \<and> \<not> is_open (conn_at (snd s') p))\<^sup>*\<^sup>* (t, sv) (t', sv')"
  shows "(\<exists>rest'. timeod sv' = (n, p) # rest') \<and> dump_timed_out_connections now sv' = sv'"
  using blocked_run[OF assms(4)] service_reachable_inv[OF assms(1)] assms(2,3) dump_blocked by auto

text \<open>The first client was closed by a worker; the second has been idle for 970 seconds.\<close>

theorem closed_front_blocks_dump_witness:
  "dump_timed_out_connections 1000 one_closed = one_closed \<and> is_open (conn_at one_closed 1) \<and>
   is_timed_out (conn_timeo one_closed) 1000 (conn_at one_closed 1)"
proof -
  have "is_open (conn_at one_closed 1)" "is_timed_out (conn_timeo one_closed) 1000 (conn_at one_closed 1)"
    by code_simp+
  then show ?thesis
    using closed_front_blocks_dump[OF one_closed_reachable one_closed_eval rtranclp.rtrancl_refl, of 1000]
    by simp
qed

end
