(* ===== verification/Http_Worker_Props.thy ===== *)
theory Http_Worker_Props
  imports Http_Worker Http_Service_Props Http_Message_Props
begin

text \<open>
  What a worker does with an event, seen from the service: a sequence of its steps that touches
  one connection; and seen from the client: a request is handed to the listener when it is
  complete, however it was cut, and the response is written.
\<close>

section \<open>Changes of one connection\<close>

definition worked :: "nat \<Rightarrow> nat \<Rightarrow> HttpService \<Rightarrow> HttpService \<Rightarrow> bool" where
  "worked p t sv sv' \<longleftrightarrow> service_step\<^sup>*\<^sup>* (t, sv) (t, sv') \<and> places sv' = places sv \<and>
     (\<forall>q. q \<noteq> p \<longrightarrow> conn_at sv' q = conn_at sv q)"

named_theorems worked_intros "an operation of a worker is a sequence of the service's steps"

lemma worked_refl [worked_intros]: "worked p t sv sv"
  by (simp add: worked_def)

lemma worked_trans: "worked p t sv sv' \<Longrightarrow> worked p t sv' sv'' \<Longrightarrow> worked p t sv sv''"
  by (auto simp: worked_def)

lemma worked_places: "worked p t sv sv' \<Longrightarrow> places sv' = places sv"
  by (simp add: worked_def)

lemma worked_set_conn [worked_intros]:
  assumes "p < places sv" "is_open c = is_open (conn_at sv p)" "start c = start (conn_at sv p)"
  shows "worked p t sv (set_conn p c sv)"
  using assms step_serve[of p sv c t] by (simp add: worked_def places_def[symmetric])

lemma close_client_conn:
  "p < places sv \<Longrightarrow> conn_at (close_client p sv) q =
    (if q = p \<and> is_open (conn_at sv p) then fst (Http_close (conn_at sv p)) else conn_at sv q)"
  "places (close_client p sv) = places sv"
  by (simp_all add: close_client_def)

lemma worked_close [worked_intros]:
  assumes "p < places sv"
  shows "worked p t sv (close_client p sv)"
  using assms step_close[of p sv t] by (simp add: worked_def places_def[symmetric] close_client_conn)

section \<open>The loops change one buffer\<close>

lemma read_to_buffer_conn: "read_to_buffer rd c w = (w', c', r) \<Longrightarrow> \<exists>b. c' = c\<lparr>b_read := b\<rparr>"
  by (auto simp: read_to_buffer_def split: prod.splits sum.splits) (metis BufferedConnection.surjective BufferedConnection.update_convs(1))

lemma write_from_buffer_conn:
  "write_from_buffer wr c w = (w', c', r) \<Longrightarrow> \<exists>b. c' = c\<lparr>b_write := b\<rparr>"
  by (auto simp: write_from_buffer_def split: prod.splits sum.splits) (metis BufferedConnection.surjective BufferedConnection.update_convs(2))

lemma read_requests_conn:
  assumes "read_requests os_read c w = Some y"
  shows "\<exists>b. fst (snd y) = c\<lparr>b_read := b\<rparr>"
  by (rule read_requests.raw_induct[where P = "\<lambda>os c w y. \<exists>b. fst (snd y) = c\<lparr>b_read := b\<rparr>", OF _ assms])
    (fastforce split: prod.splits sum.splits if_splits dest!: read_to_buffer_conn)

lemma write_responces_conn:
  assumes "write_responces os_write c w = Some y"
  shows "\<exists>b. fst (snd y) = c\<lparr>b_write := b\<rparr>"
  by (rule write_responces.raw_induct[where P = "\<lambda>os c w y. \<exists>b. fst (snd y) = c\<lparr>b_write := b\<rparr>", OF _ assms])
    (fastforce split: prod.splits sum.splits if_splits dest!: write_from_buffer_conn)

section \<open>An event is a sequence of steps\<close>

lemma worked_subscribe [worked_intros]:
  assumes "p < places sv" "worker_subscribe env p opt sv w = (w', sv', r)"
  shows "worked p t sv sv' \<and> is_open (conn_at sv' p) = is_open (conn_at sv p)"
  using assms worked_set_conn[OF assms(1), of "(conn_at sv p)\<lparr>epoll_option := _\<rparr>"]
  by (auto simp: worker_subscribe_def EPoll_mod_eq Let_def is_open_def split: prod.splits sum.splits)

lemma worked_read:
  assumes "p < places sv" "try_read_request env p sv w = Some (w', sv', r)"
  shows "worked p t sv sv' \<and> r \<noteq> Inl DanglingIterator"
proof -
  obtain w1 c1 e where rd: "read_requests (env_read env) (conn_at sv p) w = Some (w1, c1, e)"
    using assms(2) by (auto simp: try_read_request_def split: option.splits)
  obtain b where c1: "c1 = (conn_at sv p)\<lparr>b_read := b\<rparr>" using read_requests_conn[OF rd] by auto
  let ?sv = "set_conn p c1 sv"
  have 1: "worked p t sv ?sv" "places ?sv = places sv" "p < places ?sv"
    using assms(1) by (auto intro!: worked_set_conn simp: c1 is_open_def)
  have close: "worked p t sv (close_client p ?sv)"
    using 1 by (blast intro: worked_trans worked_close)
  have keep: "worked p t sv (set_conn p (c1\<lparr>keep_alive := k, h_req := q\<rparr>) ?sv)" for k q
    using 1 assms(1) by (intro worked_trans[OF 1(1)] worked_set_conn) (simp_all add: is_open_def)
  have sub: "worked p t sv sv2" if "worker_subscribe env p OPTION_READ ?sv w2 = (w3, sv2, r2)" for w2 w3 sv2 r2
    using worked_trans[OF 1(1)] worked_subscribe[OF 1(3) that, of t] by blast
  have err: "snd (snd (worker_subscribe env p opt sv2 w2)) \<noteq> Inl DanglingIterator" for opt sv2 w2
    by (auto simp: worker_subscribe_def EPoll_mod_eq Let_def split: prod.splits sum.splits)
  show ?thesis
    using assms(2) close keep 1(1)
    by (auto simp: try_read_request_def rd Let_def split: drained.splits tcp_error.splits
        sum.splits parse_error.splits prod.splits dest: sub)
      (metis err snd_conv)+
qed

lemma worked_write:
  assumes "p < places sv" "try_write_responce env p sv w = Some (w', sv', r)"
  shows "worked p t sv sv' \<and> r \<noteq> Inl DanglingIterator"
proof -
  obtain w1 c1 e where wr: "write_responces (env_write env) (conn_at sv p) w = Some (w1, c1, e)"
    using assms(2) by (auto simp: try_write_responce_def split: option.splits)
  obtain b where c1: "c1 = (conn_at sv p)\<lparr>b_write := b\<rparr>" using write_responces_conn[OF wr] by auto
  let ?sv = "set_conn p c1 sv"
  have 1: "worked p t sv ?sv" "p < places ?sv"
    using assms(1) by (auto intro!: worked_set_conn simp: c1 is_open_def)
  have "worked p t sv (close_client p ?sv)" using 1 by (blast intro: worked_trans worked_close)
  then show ?thesis
    using assms(2) 1(1)
    by (auto simp: try_write_responce_def wr Let_def split: drained.splits tcp_error.splits)
qed

lemma worked_finish:
  assumes "p < places sv" "finish_event env p sv w = (w', sv', r)"
  shows "worked p t sv sv' \<and> r \<noteq> Inl DanglingIterator"
proof (cases "epoll_option (conn_at sv p) = OPTION_ET_ONESHOT")
  case True
  with assms show ?thesis by (auto simp: finish_event_def intro: worked_close)
next
  case False
  obtain w1 sv1 r1 where sub: "worker_subscribe env p OPTION_UNKNOWN sv w = (w1, sv1, r1)"
    by (metis prod_cases3)
  have "r1 \<noteq> Inl DanglingIterator"
    using sub by (auto simp: worker_subscribe_def EPoll_mod_eq Let_def split: prod.splits sum.splits)
  then show ?thesis using worked_subscribe[OF assms(1) sub, of t] assms(2) False sub
    by (auto simp: finish_event_def split: sum.splits)
qed

text \<open>A listener that reads and fills the buffers of the connection and stores in it what it likes.\<close>

definition listener_ok :: "(HttpConnection \<Rightarrow> 'w \<Rightarrow> 'w \<times> HttpConnection) \<Rightarrow> bool" where
  "listener_ok on_request \<longleftrightarrow> (\<forall>c w. let c' = snd (on_request c w) in
     c_socket c' = c_socket c \<and> epoll_option c' = epoll_option c \<and>
     keep_alive c' = keep_alive c \<and> start c' = start c)"

lemma listener_okD:
  assumes "listener_ok on_request" "on_request c w = (w', c')"
  shows "c_socket c' = c_socket c" "epoll_option c' = epoll_option c" "keep_alive c' = keep_alive c"
    "start c' = start c" "is_open c' = is_open c"
proof -
  have "let c' = snd (on_request c w) in c_socket c' = c_socket c \<and> epoll_option c' = epoll_option c \<and>
     keep_alive c' = keep_alive c \<and> start c' = start c"
    using assms(1) unfolding listener_ok_def by blast
  then show "c_socket c' = c_socket c" "epoll_option c' = epoll_option c" "keep_alive c' = keep_alive c"
      "start c' = start c" "is_open c' = is_open c"
    by (simp_all add: assms(2) is_open_def Let_def)
qed

lemma worked_readable:
  assumes "p < places sv" "listener_ok (env_OnRequest env)"
    and "on_readable env p sv w = Some (w', sv', r)"
  shows "worked p t sv sv' \<and> r \<noteq> Inl DanglingIterator"
proof -
  obtain w1 sv1 r1 where rd: "try_read_request env p sv w = Some (w1, sv1, r1)"
    using assms(3) by (auto simp: on_readable_def split: option.splits)
  note 1 = worked_read[OF assms(1) rd, of t]
  show ?thesis
  proof (cases "r1 = Inr True")
    case False
    with assms(3) 1 show ?thesis
      by (cases r1) (auto simp: on_readable_def rd split: sum.splits)
  next
    case True
    obtain w2 c2 where lis: "env_OnRequest env (conn_at sv1 p) w1 = (w2, c2)" by (cases "env_OnRequest env (conn_at sv1 p) w1")
    define c3 where "c3 = Http_subscribe OPTION_WRITE
      (if \<not> keep_alive c2 then Http_unsubscribe OPTION_READ c2 else c2\<lparr>b_read := []\<rparr>)"
    have p: "p < places sv1" using 1 assms(1) by (simp add: worked_def)
    have "is_open c3 = is_open (conn_at sv1 p)" "start c3 = start (conn_at sv1 p)"
      using listener_okD[OF assms(2) lis] by (auto simp: c3_def)
    then have 2: "worked p t sv1 (set_conn p c3 sv1)" using p by (intro worked_set_conn)
    have "finish_event env p (set_conn p c3 sv1) w2 = (w', sv', r)"
      using assms(3) by (simp add: on_readable_def rd True lis c3_def Let_def)
    then have "worked p t (set_conn p c3 sv1) sv' \<and> r \<noteq> Inl DanglingIterator"
      using p by (intro worked_finish) simp
    then show ?thesis using 1 2 worked_trans by blast
  qed
qed

lemma worked_writable:
  assumes "p < places sv" "on_writable env p sv w = Some (w', sv', r)"
  shows "worked p t sv sv' \<and> r \<noteq> Inl DanglingIterator"
proof -
  obtain w1 sv1 r1 where wr: "try_write_responce env p sv w = Some (w1, sv1, r1)"
    using assms(2) by (auto simp: on_writable_def split: option.splits)
  note 1 = worked_write[OF assms(1) wr, of t]
  show ?thesis
  proof (cases r1)
    case (Inl e)
    with assms(2) 1 show ?thesis by (auto simp: on_writable_def wr)
  next
    case (Inr b)
    define sv2 where "sv2 =
      (if b then set_conn p (Http_unsubscribe OPTION_WRITE (conn_at sv1 p)) sv1 else sv1)"
    have p: "p < places sv1" using 1 assms(1) by (simp add: worked_def)
    then have 2: "worked p t sv1 sv2" "p < places sv2"
      by (auto simp: sv2_def intro!: worked_intros)
    have "finish_event env p sv2 w1 = (w', sv', r)"
      using assms(2) by (simp add: on_writable_def wr Inr sv2_def Let_def)
    then show ?thesis using 1 2 worked_trans worked_finish[OF 2(2), of env w1 w' sv' r t] by blast
  qed
qed

text \<open>After the reset the event's work is a sequence of steps at the time of the event.\<close>

lemma worker_event_cases:
  assumes "service_inv t sv" "p < places sv" "is_open (conn_at sv p)" "t \<le> now"
  obtains sv1 where "reset_last_activity_time p now sv = Some sv1" "service_step (t, sv) (now, sv1)"
    "places sv1 = places sv" "conn_at sv1 p = (conn_at sv p)\<lparr>start := now\<rparr>"
    "\<And>q. q \<noteq> p \<Longrightarrow> conn_at sv1 q = conn_at sv q" "closed_places sv1 = closed_places sv"
    "worker_event env p evs now sv w =
      (if evs AND EPOLLIN \<noteq> 0 then on_readable env p sv1 w
       else if evs AND EPOLLOUT \<noteq> 0 then on_writable env p sv1 w
       else Some (finish_event env p sv1 w))"
proof -
  obtain n where r: "reset_last_activity_time p now sv =
      Some (touched p n (reset_time_of_last_activity now (conn_at sv p)) sv)"
    using reset_cases[OF assms(1-3)] by blast
  show thesis
    by (rule that[OF r])
      (use assms r in \<open>auto simp: worker_event_def touched_def reset_time_of_last_activity_def
        places_def[symmetric] intro!: step_reset\<close>)
qed

section \<open>A peer that sends a piece and pauses\<close>

text \<open>
  Successive reads deliver the bytes \<^verbatim>\<open>s\<close>, then the call would block.
\<close>

inductive delivers :: "'w read_call \<Rightarrow> int \<Rightarrow> 'w \<Rightarrow> string \<Rightarrow> 'w \<Rightarrow> bool" for os_read fd where
  pauses: "os_read fd BUF_SIZE w = (w', Inl EAGAIN) \<Longrightarrow> delivers os_read fd w [] w'"
| sends: "os_read fd BUF_SIZE w = (w1, Inr bs) \<Longrightarrow> bs \<noteq> [] \<Longrightarrow> delivers os_read fd w1 s w' \<Longrightarrow>
    delivers os_read fd w (bs @ s) w'"

lemma read_requests_delivers:
  assumes "delivers os_read fd w s w'" "d_fd (c_socket c) = fd"
  shows "read_requests os_read c w =
    Some (w', c\<lparr>b_read := b_read c @ s\<rparr>, Raised (TimeOutError (Strerror EAGAIN)))"
  using assms
proof (induction arbitrary: c rule: delivers.induct)
  case (pauses w w')
  then have "read_to_buffer os_read c w = (w', c, Inl (TimeOutError (Strerror EAGAIN)))"
    by (simp add: read_to_buffer_def NonBlockConnection_read_def handle_error_def)
  then show ?case by (simp add: http_reader.loop_eq[of os_read c w])
next
  case (sends w w1 bs s w')
  let ?c = "c\<lparr>b_read := b_read c @ bs\<rparr>"
  have "read_to_buffer os_read c w = (w1, ?c, Inr (length bs))"
    using sends.hyps(1) sends.prems
    by (simp add: read_to_buffer_def NonBlockConnection_read_def handle_error_def)
  moreover have "length bs \<noteq> 0" using sends.hyps(2) by simp
  ultimately have "read_requests os_read c w = read_requests os_read ?c w1"
    by (simp add: http_reader.loop_eq[of os_read c w])
  then show ?case using sends.IH[of ?c] sends.prems by simp
qed

lemma set_conn_twice [simp]: "set_conn p d (set_conn p c sv) = set_conn p d sv"
  by (cases "p < length (connections sv)") (simp_all add: update_place_def list_update_beyond)

lemma try_read_complete:
  assumes "delivers (env_read env) (d_fd (c_socket (conn_at sv p))) w s w1"
    and "Request_new (b_read (conn_at sv p) @ s) = Inr req"
  shows "try_read_request env p sv w = Some (w1, set_conn p ((conn_at sv p)\<lparr>
    b_read := b_read (conn_at sv p) @ s, keep_alive := is_keep_alive (m_headers req), h_req := req\<rparr>) sv, Inr True)"
  using read_requests_delivers[OF assms(1) refl] assms(2)
  by (simp add: try_read_request_def Let_def)

text \<open>
  The kernel watches the descriptor \<^verbatim>\<open>fd\<close>: in the worlds of \<^verbatim>\<open>watched\<close> it is open and in the
  interest list of the \<^verbatim>\<open>epoll\<close> object, so that a change of its mask succeeds. The worker's own
  reads and writes on it, the listener and the change itself leave it watched; only closing the
  descriptor or deleting it from the list ends this.
\<close>

definition epoll_ok :: "'w worker_env \<Rightarrow> int \<Rightarrow> ('w \<Rightarrow> bool) \<Rightarrow> bool" where
  "epoll_ok env fd watched \<longleftrightarrow>
     (\<forall>n w. watched w \<longrightarrow> watched (fst (env_read env fd n w))) \<and>
     (\<forall>bs w. watched w \<longrightarrow> watched (fst (env_write env fd bs w))) \<and>
     (\<forall>c w. watched w \<longrightarrow> watched (fst (env_OnRequest env c w))) \<and>
     (\<forall>p opt w. watched w \<longrightarrow> (\<exists>w'. env_epoll_mod env p fd opt w = (w', Inr ()) \<and> watched w'))"

lemma epoll_okD:
  assumes "epoll_ok env fd watched" "watched w"
  shows "env_read env fd n w = (w', r1) \<Longrightarrow> watched w'" "env_write env fd bs w = (w', r2) \<Longrightarrow> watched w'"
    "env_OnRequest env c w = (w', c') \<Longrightarrow> watched w'"
    "\<exists>w'. env_epoll_mod env p fd opt w = (w', Inr ()) \<and> watched w'"
  using assms unfolding epoll_ok_def by (metis fst_conv)+

text \<open>
  It holds of a kernel that refuses changes of descriptors that it does not watch, for the worlds
  in which the descriptor is watched, and not for all worlds.
\<close>

definition kernel_env :: "(int \<rightharpoonup> epoll_event) worker_env" where
  "kernel_env = \<lparr>env_read = (\<lambda>fd n w. (w, Inl EAGAIN)), env_write = (\<lambda>fd bs w. (w, Inr (length bs))),
     env_epoll = \<lparr>events_queue_size = MAX_EVENTS, epoll_fd = \<lparr>d_fd = 4\<rparr>\<rparr>, env_epoll_ctl = kernel_ctl,
     env_OnRequest = (\<lambda>c w. (w, c))\<rparr>"

lemma kernel_env_mod: "env_epoll_mod kernel_env p fd opt w =
    (if w fd = None then (w, Inl (Errno 17))
     else (w(fd \<mapsto> \<lparr>ev_events = ucast opt, ev_data = Ptr p\<rparr>), Inr ()))"
  by (simp add: kernel_env_def env_epoll_mod_def kernel_ctl_def)

lemma kernel_epoll_ok: "epoll_ok kernel_env fd (\<lambda>w. w fd \<noteq> None)" "\<not> epoll_ok kernel_env fd (\<lambda>w. True)"
proof -
  show "epoll_ok kernel_env fd (\<lambda>w. w fd \<noteq> None)"
    unfolding epoll_ok_def kernel_env_mod by (simp add: kernel_env_def)
  have "snd (env_epoll_mod kernel_env 0 fd 0 (\<lambda>_. None)) = Inl (Errno 17)" by (simp add: kernel_env_mod)
  then show "\<not> epoll_ok kernel_env fd (\<lambda>w. True)"
    unfolding epoll_ok_def by (metis Inl_Inr_False snd_conv)
qed

lemma delivers_watched:
  assumes "delivers (env_read env) fd w s w'" "epoll_ok env fd watched" "watched w"
  shows "watched w'"
  using assms by (induction rule: delivers.induct) (blast dest: epoll_okD(1))+

lemma subscribe_ok:
  assumes "epoll_ok env (d_fd (c_socket (conn_at sv p))) watched" "watched w" "p < places sv"
  shows "\<exists>w'. worker_subscribe env p opt sv w = (w', set_conn p ((conn_at sv p)\<lparr>epoll_option :=
    opt_plus (opt_plus (epoll_option (conn_at sv p)) opt) OPTION_ET_ONESHOT\<rparr>) sv, Inr ()) \<and>
    w' = fst (env_epoll_mod env p (d_fd (c_socket (conn_at sv p)))
      (opt_plus (opt_plus (epoll_option (conn_at sv p)) opt) OPTION_ET_ONESHOT) w) \<and> watched w'"
proof -
  let ?c = "(conn_at sv p)\<lparr>epoll_option :=
    opt_plus (opt_plus (epoll_option (conn_at sv p)) opt) OPTION_ET_ONESHOT\<rparr>"
  obtain w' where "env_epoll_mod env p (d_fd (c_socket ?c)) (epoll_option ?c) w = (w', Inr ())" "watched w'"
    using epoll_okD(4)[OF assms(1,2), of p "epoll_option ?c"] by auto
  then show ?thesis using assms(3) by (simp add: worker_subscribe_def EPoll_mod_eq Let_def)
qed

lemma try_read_incomplete:
  assumes "delivers (env_read env) (d_fd (c_socket (conn_at sv p))) w s w1"
    and "Request_new (b_read (conn_at sv p) @ s) = Inl (ExpectingData m)"
    and "epoll_ok env (d_fd (c_socket (conn_at sv p))) watched" "watched w" "p < places sv"
  shows "\<exists>w'. try_read_request env p sv w = Some (w', set_conn p ((conn_at sv p)\<lparr>
    b_read := b_read (conn_at sv p) @ s, epoll_option := opt_plus
      (opt_plus (epoll_option (conn_at sv p)) OPTION_READ) OPTION_ET_ONESHOT\<rparr>) sv, Inr False)"
proof -
  let ?sv = "set_conn p ((conn_at sv p)\<lparr>b_read := b_read (conn_at sv p) @ s\<rparr>) sv"
  obtain w' where "worker_subscribe env p OPTION_READ ?sv w1 = (w', set_conn p ((conn_at ?sv p)\<lparr>epoll_option :=
      opt_plus (opt_plus (epoll_option (conn_at ?sv p)) OPTION_READ) OPTION_ET_ONESHOT\<rparr>) ?sv, Inr ())"
    using subscribe_ok[where sv = ?sv and p = p and env = env and watched = watched and w = w1 and opt = OPTION_READ]
      delivers_watched[OF assms(1,3,4)] assms(3,5) by auto
  then show ?thesis
    using read_requests_delivers[OF assms(1) refl] assms(2,5)
    by (simp add: try_read_request_def Let_def)
qed

text \<open>With an event besides the two of \<^verbatim>\<open>ET_ONESHOT\<close> the connection is armed again.\<close>

lemma finish_armed:
  assumes "epoll_ok env (d_fd (c_socket (conn_at sv p))) watched" "watched w" "p < places sv"
    and "k \<in> events (epoll_option (conn_at sv p))" "k < 30"
  obtains w' opt where "finish_event env p sv w =
      (w', set_conn p ((conn_at sv p)\<lparr>epoll_option := opt\<rparr>) sv, Inr True)"
    "events opt = events (epoll_option (conn_at sv p)) \<union> {30, 31}"
    "w' = fst (env_epoll_mod env p (d_fd (c_socket (conn_at sv p))) opt w)" "watched w'"
proof -
  let ?opt = "opt_plus (opt_plus (epoll_option (conn_at sv p)) OPTION_UNKNOWN) OPTION_ET_ONESHOT"
  have ne: "epoll_option (conn_at sv p) \<noteq> OPTION_ET_ONESHOT" using assms(4,5) by auto
  obtain w' where "worker_subscribe env p OPTION_UNKNOWN sv w =
      (w', set_conn p ((conn_at sv p)\<lparr>epoll_option := ?opt\<rparr>) sv, Inr ())"
      "w' = fst (env_epoll_mod env p (d_fd (c_socket (conn_at sv p))) ?opt w)" "watched w'"
    using subscribe_ok[OF assms(1-3), of OPTION_UNKNOWN] by blast
  then show thesis using ne by (intro that[of w' ?opt]) (simp_all add: finish_event_def)
qed

text \<open>A complete request: what the listener leaves, armed for writing.\<close>

lemma on_readable_run:
  assumes "p < places sv" "is_open (conn_at sv p)"
    and "delivers (env_read env) (d_fd (c_socket (conn_at sv p))) w s w1"
    and "Request_new (b_read (conn_at sv p) @ s) = Inr req"
    and "listener_ok (env_OnRequest env)" "epoll_ok env (d_fd (c_socket (conn_at sv p))) watched" "watched w"
  obtains w' opt w2 c2 where
    "env_OnRequest env ((conn_at sv p)\<lparr>b_read := b_read (conn_at sv p) @ s,
      keep_alive := is_keep_alive (m_headers req), h_req := req\<rparr>) w1 = (w2, c2)"
    "on_readable env p sv w = Some (w', set_conn p (c2\<lparr>b_read :=
      (if is_keep_alive (m_headers req) then [] else b_read c2), epoll_option := opt\<rparr>) sv, Inr True)"
    "events opt = (if is_keep_alive (m_headers req)
      then events (epoll_option (conn_at sv p)) \<union> {2, 30, 31}
      else events (epoll_option (conn_at sv p)) - {0} \<union> {2, 30, 31})"
    "w' = fst (env_epoll_mod env p (d_fd (c_socket (conn_at sv p))) opt w2)" "watched w'"
proof -
  define c where "c = (conn_at sv p)\<lparr>b_read := b_read (conn_at sv p) @ s,
    keep_alive := is_keep_alive (m_headers req), h_req := req\<rparr>"
  obtain w2 c2 where lis: "env_OnRequest env c w1 = (w2, c2)" by (cases "env_OnRequest env c w1")
  note keeps = listener_okD[OF assms(5) lis]
  define c3 where "c3 = Http_subscribe OPTION_WRITE
    (if \<not> keep_alive c2 then Http_unsubscribe OPTION_READ c2 else c2\<lparr>b_read := []\<rparr>)"
  have c3: "events (epoll_option c3) = (if is_keep_alive (m_headers req)
      then events (epoll_option (conn_at sv p)) \<union> {2, 30, 31}
      else events (epoll_option (conn_at sv p)) - {0} \<union> {2, 30, 31})"
      "c_socket c3 = c_socket (conn_at sv p)"
    using keeps by (auto simp: c3_def c_def Http_subscribe_def Http_unsubscribe_def)
  have p: "p < places (set_conn p c3 sv)" using assms(1) by simp
  have two: "2 \<in> events (epoll_option (conn_at (set_conn p c3 sv) p))" using assms(1) c3 by simp
  have lt: "(2 :: nat) < 30" by simp
  have "watched w2" using epoll_okD(3)[OF assms(6) delivers_watched[OF assms(3,6,7)] lis] .
  moreover have "epoll_ok env (d_fd (c_socket (conn_at (set_conn p c3 sv) p))) watched"
    using assms(1,6) c3(2) by simp
  ultimately obtain w' opt where
    fin: "finish_event env p (set_conn p c3 sv) w2 =
      (w', set_conn p ((conn_at (set_conn p c3 sv) p)\<lparr>epoll_option := opt\<rparr>) (set_conn p c3 sv), Inr True)"
    and opt: "events opt = events (epoll_option (conn_at (set_conn p c3 sv) p)) \<union> {30, 31}"
      "w' = fst (env_epoll_mod env p (d_fd (c_socket (conn_at (set_conn p c3 sv) p))) opt w2)" "watched w'"
    using finish_armed[OF _ _ p two lt] by metis
  have "on_readable env p sv w = Some (w', set_conn p (c3\<lparr>epoll_option := opt\<rparr>) sv, Inr True)"
    using try_read_complete[OF assms(3,4)] lis fin assms(1)
    by (simp add: on_readable_def c_def[symmetric] c3_def[symmetric] Let_def)
  moreover have "c3\<lparr>epoll_option := opt\<rparr> = c2\<lparr>b_read :=
      (if is_keep_alive (m_headers req) then [] else b_read c2), epoll_option := opt\<rparr>"
    using keeps(3) by (simp add: c3_def c_def Http_subscribe_def Http_unsubscribe_def)
  ultimately show thesis
    by (intro that[OF lis[unfolded c_def], of w' opt]) (use opt c3 assms(1) in auto)
qed

lemma on_readable_serves:
  assumes "p < places sv" "is_open (conn_at sv p)"
    and "delivers (env_read env) (d_fd (c_socket (conn_at sv p))) w s w1"
    and "Request_new (b_read (conn_at sv p) @ s) = Inr req"
    and "listener_ok (env_OnRequest env)" "epoll_ok env (d_fd (c_socket (conn_at sv p))) watched" "watched w"
  shows "\<exists>w' sv' c. on_readable env p sv w = Some (w', sv', Inr True) \<and>
    h_req c = req \<and> keep_alive c = is_keep_alive (m_headers req) \<and> start c = start (conn_at sv p) \<and>
    is_open (conn_at sv' p) \<and> b_write (conn_at sv' p) = b_write (snd (env_OnRequest env c w1)) \<and>
    (if is_keep_alive (m_headers req)
     then b_read (conn_at sv' p) = [] \<and>
       events (epoll_option (conn_at sv' p)) = events (epoll_option (conn_at sv p)) \<union> {2, 30, 31}
     else events (epoll_option (conn_at sv' p)) =
       events (epoll_option (conn_at sv p)) - {0} \<union> {2, 30, 31})"
proof -
  let ?c = "(conn_at sv p)\<lparr>b_read := b_read (conn_at sv p) @ s,
    keep_alive := is_keep_alive (m_headers req), h_req := req\<rparr>"
  obtain w' opt w2 c2 where lis: "env_OnRequest env ?c w1 = (w2, c2)"
    and run: "on_readable env p sv w = Some (w', set_conn p (c2\<lparr>b_read :=
      (if is_keep_alive (m_headers req) then [] else b_read c2), epoll_option := opt\<rparr>) sv, Inr True)"
    and opt: "events opt = (if is_keep_alive (m_headers req)
      then events (epoll_option (conn_at sv p)) \<union> {2, 30, 31}
      else events (epoll_option (conn_at sv p)) - {0} \<union> {2, 30, 31})"
    by (rule on_readable_run[OF assms])
  show ?thesis
    by (rule exI[of _ w'], rule exI, rule exI[of _ ?c], intro conjI, rule run)
      (use assms(1,2) listener_okD[OF assms(5) lis] lis opt in auto)
qed

text \<open>The event on an open connection of a reachable state, by the event's mask.\<close>

lemma event_readable:
  assumes "service_reachable ct kt (t, sv)" "p < length (connections sv)"
    and "is_open (conn_at sv p)" "t \<le> now" "evs AND EPOLLIN \<noteq> 0"
  obtains sv1 where "worker_event env p evs now sv w = on_readable env p sv1 w"
    "p < places sv1" "conn_at sv1 p = (conn_at sv p)\<lparr>start := now\<rparr>"
    "reset_last_activity_time p now sv = Some sv1"
proof -
  have p: "p < places sv" using assms(2) by (simp add: places_def)
  show thesis
    by (rule worker_event_cases[OF service_reachable_inv[OF assms(1)] p assms(3,4), of env evs w])
      (rule that, use p assms(5) in simp_all)
qed

lemma worker_event_run:
  assumes "service_reachable ct kt (t, sv)" "p < length (connections sv)" "t \<le> now"
    and "listener_ok (env_OnRequest env)" "worker_event env p evs now sv w = Some (w', sv', r)"
  shows "r \<noteq> Inl DanglingIterator \<and> (\<exists>t'. t \<le> t' \<and> t' \<le> now \<and> service_reachable ct kt (t', sv')) \<and>
    (\<forall>q. q \<noteq> p \<longrightarrow> conn_at sv' q = conn_at sv q) \<and> places sv' = places sv"
proof (cases "is_open (conn_at sv p)")
  case False
  then have "sv' = sv" "r = Inr False" using assms(5) by (simp_all add: worker_event_def)
  then show ?thesis using assms(1,3) by auto
next
  case True
  have p: "p < places sv" using assms(2) by (simp add: places_def)
  from worker_event_cases[OF service_reachable_inv[OF assms(1)] p True assms(3), of env evs w]
  obtain sv1 where sv1: "service_step (t, sv) (now, sv1)" "places sv1 = places sv"
      "\<And>q. q \<noteq> p \<Longrightarrow> conn_at sv1 q = conn_at sv q"
    and ev: "worker_event env p evs now sv w =
      (if evs AND EPOLLIN \<noteq> 0 then on_readable env p sv1 w
       else if evs AND EPOLLOUT \<noteq> 0 then on_writable env p sv1 w
       else Some (finish_event env p sv1 w))" by metis
  have "p < places sv1" using p sv1(2) by simp
  then have "worked p now sv1 sv' \<and> r \<noteq> Inl DanglingIterator"
    using assms(5) worked_readable[OF _ assms(4), of p sv1 w w' sv' r now]
      worked_writable[of p sv1 env w w' sv' r now] worked_finish[of p sv1 env w w' sv' r now]
    by (simp add: ev split: if_splits)
  then show ?thesis
    using assms(1,3) sv1 rtranclp_trans[OF rtranclp.rtrancl_into_rtrancl[OF assms(1) sv1(1)]]
    unfolding worked_def by fastforce
qed

lemma on_readable_waits:
  assumes "p < places sv"
    and "delivers (env_read env) (d_fd (c_socket (conn_at sv p))) w s w1"
    and "Request_new (b_read (conn_at sv p) @ s) = Inl (ExpectingData m)"
    and "epoll_ok env (d_fd (c_socket (conn_at sv p))) watched" "watched w"
  shows "\<exists>w' sv'. on_readable env p sv w = Some (w', sv', Inr False) \<and>
    is_open (conn_at sv' p) = is_open (conn_at sv p) \<and>
    c_socket (conn_at sv' p) = c_socket (conn_at sv p) \<and>
    b_read (conn_at sv' p) = b_read (conn_at sv p) @ s \<and> places sv' = places sv \<and>
    events (epoll_option (conn_at sv' p)) = events (epoll_option (conn_at sv p)) \<union> {0, 30, 31}"
  using try_read_incomplete[OF assms(2-5,1)] assms(1) by (auto simp: on_readable_def)

text \<open>The write branch after the buffer has been written, by what the connection waits for.\<close>

lemma finish_written_run:
  assumes "epoll_ok env (d_fd (c_socket (conn_at sv p))) watched" "watched w" "p < places sv"
    and "is_open (conn_at sv p)"
  shows "\<exists>w' sv'. finish_event env p
      (set_conn p (Http_unsubscribe OPTION_WRITE (conn_at sv p)) sv) w = (w', sv', Inr True) \<and>
    (w' = w \<or> (\<exists>fd opt. w' = fst (env_epoll_mod env p fd opt w))) \<and> watched w' \<and>
    (if events (epoll_option (conn_at sv p)) \<subseteq> {2, 30, 31}
     then \<not> is_open (conn_at sv' p) \<and> closed_places sv' = closed_places sv @ [p]
     else \<exists>opt. conn_at sv' p = (conn_at sv p)\<lparr>epoll_option := opt\<rparr> \<and> closed_places sv' = closed_places sv \<and>
       events opt = events (epoll_option (conn_at sv p)) - {2} \<union> {30, 31})"
proof -
  let ?c = "Http_unsubscribe OPTION_WRITE (conn_at sv p)"
  let ?sv = "set_conn p ?c sv"
  have ev: "events (epoll_option ?c) = events (epoll_option (conn_at sv p)) - {2} \<union> {30, 31}"
    by (simp add: Http_unsubscribe_def)
  have one: "epoll_option ?c = OPTION_ET_ONESHOT \<longleftrightarrow> events (epoll_option ?c) = {30, 31}"
    by (subst mask_eq_iff) (simp_all add: Http_unsubscribe_def)
  show ?thesis
  proof (cases "events (epoll_option (conn_at sv p)) \<subseteq> {2, 30, 31}")
    case True
    then have "epoll_option ?c = OPTION_ET_ONESHOT" using ev one by auto
    then have "finish_event env p ?sv w = (w, close_client p ?sv, Inr True)"
      using assms(3) by (simp add: finish_event_def)
    then show ?thesis using True assms(2-4) by (simp add: close_client_conn) (simp add: close_client_def)
  next
    case False
    then obtain k where k: "k \<in> events (epoll_option (conn_at sv p))" "k \<notin> {2, 30, 31}" by blast
    then have "k < 30" by (auto simp: events_def)
    moreover have "k \<in> events (epoll_option (conn_at ?sv p))" using k ev assms(3) by simp
    moreover have p: "p < places ?sv" using assms(3) by simp
    moreover have "epoll_ok env (d_fd (c_socket (conn_at ?sv p))) watched"
      using assms(1,3) by (simp add: Http_unsubscribe_def)
    ultimately obtain w' opt where
      fin: "finish_event env p ?sv w = (w', set_conn p ((conn_at ?sv p)\<lparr>epoll_option := opt\<rparr>) ?sv, Inr True)"
      and opt: "events opt = events (epoll_option (conn_at ?sv p)) \<union> {30, 31}"
        "w' = fst (env_epoll_mod env p (d_fd (c_socket (conn_at ?sv p))) opt w)" "watched w'"
      using finish_armed[where watched = watched and w = w and env = env, OF _ assms(2)] by metis
    have "conn_at (set_conn p ((conn_at ?sv p)\<lparr>epoll_option := opt\<rparr>) ?sv) p = (conn_at sv p)\<lparr>epoll_option := opt\<rparr>"
      using assms(3) by (simp add: Http_unsubscribe_def)
    moreover have "events opt = events (epoll_option (conn_at sv p)) - {2} \<union> {30, 31}"
      using opt(1) ev assms(3) by auto
    ultimately show ?thesis using False fin opt(2,3) by auto
  qed
qed

text \<open>
  A sequence of writes of the bytes \<^verbatim>\<open>bs\<close>: it ends when all are written or with the error of the
  last call, before which \<^verbatim>\<open>rest\<close> is left.
\<close>

inductive writes_out ::
  "'w write_call \<Rightarrow> int \<Rightarrow> string \<Rightarrow> 'w \<Rightarrow> 'w \<Rightarrow> string \<Rightarrow> errno option \<Rightarrow> bool" for os_write fd where
  write_fails: "os_write fd bs w = (w', Inl e) \<Longrightarrow> writes_out os_write fd bs w w' bs (Some e)"
| write_all: "os_write fd bs w = (w', Inr n) \<Longrightarrow> drop n bs = [] \<Longrightarrow> writes_out os_write fd bs w w' [] None"
| write_more: "os_write fd bs w = (w1, Inr n) \<Longrightarrow> drop n bs \<noteq> [] \<Longrightarrow>
    writes_out os_write fd (drop n bs) w1 w' rest stop \<Longrightarrow> writes_out os_write fd bs w w' rest stop"

definition drained_by :: "errno option \<Rightarrow> drained" where
  "drained_by stop =
     (case stop of None \<Rightarrow> Finished
      | Some e \<Rightarrow> Raised (if e \<in> {EAGAIN, EWOULDBLOCK, EINPROGRESS} then TimeOutError (Strerror e)
          else if e = EBADF then DescriptorError (Strerror e) else Error (Strerror e)))"

lemma write_responces_out:
  assumes "writes_out os_write fd bs w w' rest stop" "d_fd (c_socket c) = fd" "b_write c = bs"
  shows "write_responces os_write c w = Some (w', c\<lparr>b_write := rest\<rparr>, drained_by stop)"
  using assms
proof (induction arbitrary: c rule: writes_out.induct)
  case (write_fails bs w w' e)
  then show ?case
    by (simp add: http_writer.loop_eq[of os_write c w] write_from_buffer_def NonBlockConnection_write_def
        handle_error_def drained_by_def)
next
  case (write_all bs w w' n)
  then show ?case
    by (simp add: http_writer.loop_eq[of os_write c w] write_from_buffer_def NonBlockConnection_write_def
        handle_error_def drained_by_def)
next
  case (write_more bs w w1 n w' rest stop)
  let ?c = "c\<lparr>b_write := drop n bs\<rparr>"
  have "write_from_buffer os_write c w = (w1, ?c, Inr n)"
    using write_more.hyps(1) write_more.prems
    by (simp add: write_from_buffer_def NonBlockConnection_write_def handle_error_def)
  then have "write_responces os_write c w = write_responces os_write ?c w1"
    using write_more.hyps(2) by (simp add: http_writer.loop_eq[of os_write c w])
  then show ?case using write_more.IH[of ?c] write_more.prems by simp
qed

lemma writes_out_stream:
  assumes "writes_stream os_write fd sent" "writes_progress os_write fd" "bs \<noteq> []"
  shows "\<exists>w' rest stop. writes_out os_write fd bs w w' rest stop \<and> sent w' @ rest = sent w @ bs \<and>
    (stop = None \<longleftrightarrow> rest = [])"
  using assms(3)
proof (induction "length bs" arbitrary: bs w rule: less_induct)
  case less
  obtain w1 r where os: "os_write fd bs w = (w1, r)" by (cases "os_write fd bs w")
  note st = writes_streamD[OF assms(1) os]
  show ?case
  proof (cases r)
    case (Inl e)
    then show ?thesis using write_fails os st less.prems by fastforce
  next
    case (Inr n)
    then have n: "0 < n" "n \<le> length bs" "sent w1 = sent w @ take n bs"
      using st assms(2) less.prems os unfolding writes_progress_def by blast+
    show ?thesis
    proof (cases "drop n bs = []")
      case True
      then show ?thesis using write_all[of os_write fd bs w w1 n] os Inr n by fastforce
    next
      case False
      then obtain w' rest stop where "writes_out os_write fd (drop n bs) w1 w' rest stop"
          "sent w' @ rest = sent w1 @ drop n bs" "stop = None \<longleftrightarrow> rest = []"
        using less.hyps[of "drop n bs" w1] n less.prems by auto
      then show ?thesis using write_more[of os_write fd bs w w1 n] os Inr False n(3) by fastforce
    qed
  qed
qed

lemma writes_out_watched:
  assumes "writes_out (env_write env) fd bs w w' rest stop" "epoll_ok env fd watched" "watched w"
  shows "watched w'"
  using assms by (induction rule: writes_out.induct) (blast dest: epoll_okD(2))+

text \<open>What the write event leaves, by how the writes end; \<^verbatim>\<open>c\<close> is the connection before.\<close>

definition write_outcome ::
  "nat \<Rightarrow> HttpConnection \<Rightarrow> nat list \<Rightarrow> string \<Rightarrow> errno option \<Rightarrow> HttpService \<Rightarrow> worker_error + bool \<Rightarrow> bool"
where
  "write_outcome p c queue rest stop sv' r \<longleftrightarrow>
     (case stop of
        None \<Rightarrow> r = Inr True \<and>
          (if events (epoll_option c) \<subseteq> {2, 30, 31}
           then \<not> is_open (conn_at sv' p) \<and> closed_places sv' = queue @ [p]
           else is_open (conn_at sv' p) \<and> closed_places sv' = queue \<and> b_write (conn_at sv' p) = [] \<and>
             events (epoll_option (conn_at sv' p)) = events (epoll_option c) - {2} \<union> {30, 31})
      | Some e \<Rightarrow>
          if e \<in> {EAGAIN, EWOULDBLOCK, EINPROGRESS}
          then r = Inr True \<and> is_open (conn_at sv' p) \<and> closed_places sv' = queue \<and>
            b_write (conn_at sv' p) = rest \<and>
            events (epoll_option (conn_at sv' p)) = events (epoll_option c) \<union> {30, 31}
          else if e = EBADF
          then r = Inr True \<and> \<not> is_open (conn_at sv' p) \<and> closed_places sv' = queue @ [p]
          else r = Inl (Uncaught (Error (Strerror e))) \<and> is_open (conn_at sv' p) \<and>
            closed_places sv' = queue \<and> b_write (conn_at sv' p) = rest)"

lemma on_writable_out:
  assumes "p < places sv" "is_open (conn_at sv p)" "2 \<in> events (epoll_option (conn_at sv p))"
    and "writes_out (env_write env) (d_fd (c_socket (conn_at sv p))) (b_write (conn_at sv p)) w w1 rest stop"
    and "epoll_ok env (d_fd (c_socket (conn_at sv p))) watched" "watched w" "stop = None \<longleftrightarrow> rest = []"
  shows "\<exists>w' sv' r. on_writable env p sv w = Some (w', sv', r) \<and>
    (w' = w1 \<or> (\<exists>fd opt. w' = fst (env_epoll_mod env p fd opt w1))) \<and>
    write_outcome p (conn_at sv p) (closed_places sv) rest stop sv' r"
proof -
  let ?c = "conn_at sv p"
  have wr: "write_responces (env_write env) ?c w = Some (w1, ?c\<lparr>b_write := rest\<rparr>, drained_by stop)"
    using write_responces_out[OF assms(4)] by simp
  have w1: "watched w1" using writes_out_watched[OF assms(4-6)] .
  let ?sv = "set_conn p (?c\<lparr>b_write := rest\<rparr>) sv"
  have p: "p < places ?sv" and op: "is_open (conn_at ?sv p)"
    and ep: "epoll_ok env (d_fd (c_socket (conn_at ?sv p))) watched"
    using assms(1,2,5) by simp_all
  show ?thesis
  proof (cases stop)
    case None
    obtain w' sv' where fin: "finish_event env p (set_conn p (Http_unsubscribe OPTION_WRITE (conn_at ?sv p)) ?sv) w1
        = (w', sv', Inr True)" "w' = w1 \<or> (\<exists>fd opt. w' = fst (env_epoll_mod env p fd opt w1))"
      and out: "if events (epoll_option (conn_at ?sv p)) \<subseteq> {2, 30, 31}
        then \<not> is_open (conn_at sv' p) \<and> closed_places sv' = closed_places ?sv @ [p]
        else \<exists>opt. conn_at sv' p = (conn_at ?sv p)\<lparr>epoll_option := opt\<rparr> \<and> closed_places sv' = closed_places ?sv \<and>
          events opt = events (epoll_option (conn_at ?sv p)) - {2} \<union> {30, 31}"
      using finish_written_run[OF ep w1 p op] by blast
    have "on_writable env p sv w = Some (w', sv', Inr True)"
      using fin(1) by (simp add: on_writable_def try_write_responce_def wr None drained_by_def Let_def)
    moreover have "write_outcome p ?c (closed_places sv) rest stop sv' (Inr True)"
    proof (cases "events (epoll_option ?c) \<subseteq> {2, 30, 31}")
      case True
      then show ?thesis using out None assms(1) by (simp add: write_outcome_def)
    next
      case False
      have at: "conn_at ?sv p = ?c\<lparr>b_write := rest\<rparr>" using assms(1) by simp
      from False obtain opt where "conn_at sv' p = ?c\<lparr>b_write := rest, epoll_option := opt\<rparr>"
          "closed_places sv' = closed_places sv" "events opt = events (epoll_option ?c) - {2} \<union> {30, 31}"
        using out unfolding at by (auto simp del: insert_subset)
      then show ?thesis using None False assms(2,7) by (simp add: write_outcome_def)
    qed
    ultimately show ?thesis using fin(2) by blast
  next
    case (Some e)
    then have "rest \<noteq> []" using assms(7) by auto
    consider (block) "e \<in> {EAGAIN, EWOULDBLOCK, EINPROGRESS}" | (bad) "e = EBADF"
      | (other) "e \<notin> {EAGAIN, EWOULDBLOCK, EINPROGRESS, EBADF}" by blast
    then show ?thesis
    proof cases
      case block
      have two: "2 \<in> events (epoll_option (conn_at ?sv p))" using assms(1,3) by simp
      have lt: "(2 :: nat) < 30" by simp
      obtain w' opt where fin: "finish_event env p ?sv w1 =
          (w', set_conn p ((conn_at ?sv p)\<lparr>epoll_option := opt\<rparr>) ?sv, Inr True)"
        "events opt = events (epoll_option (conn_at ?sv p)) \<union> {30, 31}"
        "w' = fst (env_epoll_mod env p (d_fd (c_socket (conn_at ?sv p))) opt w1)"
        by (rule finish_armed[OF ep w1 p two lt])
      let ?sv' = "set_conn p ((conn_at ?sv p)\<lparr>epoll_option := opt\<rparr>) ?sv"
      have "on_writable env p sv w = Some (w', ?sv', Inr True)"
        using fin(1) block by (auto simp: on_writable_def try_write_responce_def wr Some drained_by_def Let_def)
      moreover have "write_outcome p ?c (closed_places sv) rest stop ?sv' (Inr True)"
        using fin(2) block Some assms(1,2) by (auto simp: write_outcome_def)
      ultimately show ?thesis using fin(3) by blast
    next
      case bad
      let ?sv' = "close_client p ?sv"
      have cl: "\<not> is_open (conn_at ?sv' p)" "epoll_option (conn_at ?sv' p) = OPTION_ET_ONESHOT"
          "closed_places ?sv' = closed_places sv @ [p]"
        using p op by (simp_all add: close_client_conn) (simp add: close_client_def)
      then have "close_client p ?sv' = ?sv'" by (simp add: close_client_def)
      then have "on_writable env p sv w = Some (w1, ?sv', Inr True)" using cl(2)
        by (simp add: on_writable_def try_write_responce_def wr Some bad drained_by_def Let_def finish_event_def)
      moreover have "write_outcome p ?c (closed_places sv) rest stop ?sv' (Inr True)"
        using cl bad Some by (simp add: write_outcome_def)
      ultimately show ?thesis by blast
    next
      case other
      then have "on_writable env p sv w = Some (w1, ?sv, Inl (Uncaught (Error (Strerror e))))"
        by (simp add: on_writable_def try_write_responce_def wr Some drained_by_def Let_def)
      moreover have "write_outcome p ?c (closed_places sv) rest stop ?sv (Inl (Uncaught (Error (Strerror e))))"
        using other Some assms(1) op by (simp add: write_outcome_def)
      ultimately show ?thesis by blast
    qed
  qed
qed

lemma event_writable:
  assumes "service_reachable ct kt (t, sv)" "p < length (connections sv)"
    and "is_open (conn_at sv p)" "t \<le> now" "evs AND EPOLLIN = 0" "evs AND EPOLLOUT \<noteq> 0"
  obtains sv1 where "worker_event env p evs now sv w = on_writable env p sv1 w"
    "p < places sv1" "conn_at sv1 p = (conn_at sv p)\<lparr>start := now\<rparr>"
    "closed_places sv1 = closed_places sv"
proof -
  have p: "p < places sv" using assms(2) by (simp add: places_def)
  obtain sv1 where "places sv1 = places sv" "conn_at sv1 p = (conn_at sv p)\<lparr>start := now\<rparr>"
      "closed_places sv1 = closed_places sv" "worker_event env p evs now sv w =
        (if evs AND EPOLLIN \<noteq> 0 then on_readable env p sv1 w
         else if evs AND EPOLLOUT \<noteq> 0 then on_writable env p sv1 w
         else Some (finish_event env p sv1 w))"
    by (rule worker_event_cases[OF service_reachable_inv[OF assms(1)] p assms(3,4)])
  then show thesis using p assms(5,6) by (intro that[of sv1]) simp_all
qed

lemma event_serves:
  assumes "service_reachable ct kt (t, sv)" "p < length (connections sv)"
    and "is_open (conn_at sv p)" "t \<le> now" "evs AND EPOLLIN \<noteq> 0"
    and "delivers (env_read env) (d_fd (c_socket (conn_at sv p))) w s w1"
    and "Request_new (b_read (conn_at sv p) @ s) = Inr req"
    and "listener_ok (env_OnRequest env)" "epoll_ok env (d_fd (c_socket (conn_at sv p))) watched" "watched w"
  shows "\<exists>w' sv' c. worker_event env p evs now sv w = Some (w', sv', Inr True) \<and>
    h_req c = req \<and> keep_alive c = is_keep_alive (m_headers req) \<and> start c = now \<and>
    is_open (conn_at sv' p) \<and> b_write (conn_at sv' p) = b_write (snd (env_OnRequest env c w1)) \<and>
    (if is_keep_alive (m_headers req)
     then b_read (conn_at sv' p) = [] \<and>
       events (epoll_option (conn_at sv' p)) = events (epoll_option (conn_at sv p)) \<union> {2, 30, 31}
     else events (epoll_option (conn_at sv' p)) =
       events (epoll_option (conn_at sv p)) - {0} \<union> {2, 30, 31})"
proof -
  obtain sv1 where sv1: "worker_event env p evs now sv w = on_readable env p sv1 w" "p < places sv1"
      "conn_at sv1 p = (conn_at sv p)\<lparr>start := now\<rparr>"
    using event_readable[OF assms(1-5)] by metis
  have f: "is_open (conn_at sv1 p)" "c_socket (conn_at sv1 p) = c_socket (conn_at sv p)"
      "b_read (conn_at sv1 p) = b_read (conn_at sv p)" "start (conn_at sv1 p) = now"
      "epoll_option (conn_at sv1 p) = epoll_option (conn_at sv p)"
    using assms(3) by (simp_all add: sv1(3))
  show ?thesis
    using on_readable_serves[OF sv1(2) f(1) _ _ assms(8), of w s w1 req, unfolded f(2-5)]
      assms(6,7,9,10) unfolding sv1(1) by blast
qed

section \<open>A scripted environment\<close>

text \<open>A peer as in \<^verbatim>\<open>Posix\<close>, an \<^verbatim>\<open>epoll\<close> that never fails and a listener that answers OK.\<close>

definition peer_env :: "peer worker_env" where
  "peer_env = \<lparr>env_read = peer_read, env_write = peer_write,
     env_epoll = \<lparr>events_queue_size = MAX_EVENTS, epoll_fd = \<lparr>d_fd = 4\<rparr>\<rparr>,
     env_epoll_ctl = (\<lambda>epfd op fd ev w. (w, Inr ())),
     env_OnRequest = (\<lambda>c w. (w, c\<lparr>b_write := ''OK''\<rparr>))\<rparr>"

lemma peer_env_ok: "listener_ok (env_OnRequest peer_env)" "epoll_ok peer_env fd (\<lambda>w. True)"
  by (simp_all add: peer_env_def listener_ok_def epoll_ok_def env_epoll_mod_def Let_def)

lemma peer_env_write: "env_write peer_env = peer_write"
  by (simp add: peer_env_def)

lemma peer_epoll_keeps: "received (fst (env_epoll_mod peer_env p fd opt w)) = received w"
  by (simp add: peer_env_def env_epoll_mod_def)

lemma peer_writes_out: "writes_out peer_write fd bs w w' rest stop \<Longrightarrow> stop = None"
  by (induction rule: writes_out.induct) (simp_all add: peer_write_def)

lemma peer_delivers:
  assumes "bs \<noteq> []" "length bs \<le> BUF_SIZE"
  shows "delivers (env_read peer_env) fd \<lparr>to_deliver = Inr bs # Inl EAGAIN # cs, received = r\<rparr> bs
    \<lparr>to_deliver = cs, received = r\<rparr>"
proof -
  have "delivers peer_read fd \<lparr>to_deliver = Inl EAGAIN # cs, received = r\<rparr> [] \<lparr>to_deliver = cs, received = r\<rparr>"
    by (rule pauses) (simp add: peer_read_def)
  then have "delivers peer_read fd \<lparr>to_deliver = Inr bs # Inl EAGAIN # cs, received = r\<rparr> (bs @ [])
      \<lparr>to_deliver = cs, received = r\<rparr>"
    using assms by (intro sends) (simp_all add: peer_read_def)
  then show ?thesis by (simp add: peer_env_def)
qed

text \<open>A request of a client that keeps its connection.\<close>

definition sample_keep :: Request where
  "sample_keep = \<lparr>m_version = ''1.1'',
     m_headers = [\<lparr>header_name = ''Connection'', header_value = ''Keep-Alive''\<rparr>], m_body = [],
     req_method = ''GET'', req_target = ''/''\<rparr>"

lemma sample_keep_parsed: "Request_new (Request_str sample_keep) = Inr sample_keep"
    "is_keep_alive (m_headers sample_keep)" "Request_str sample_keep \<noteq> []"
    "length (Request_str sample_keep) \<le> BUF_SIZE"
  by code_simp+

lemma sample_post_length: "length (Request_str sample_post) \<le> BUF_SIZE" "Request_str sample_post \<noteq> []"
    "length (m_body sample_post) = 2" "2 < length (Request_str sample_post)"
  by code_simp+

lemma two_clients_conn:
  "0 < length (connections two_clients)" "b_read (conn_at two_clients 0) = []"
  "d_fd (c_socket (conn_at two_clients 0)) = 5" "epoll_option (conn_at two_clients 0) = 0"
  by code_simp+

text \<open>The first client has a response to be written and is armed for it.\<close>

definition answered :: HttpService where
  "answered = set_conn 0 ((conn_at two_clients 0)\<lparr>b_write := ''Hello'', epoll_option := OPTION_WRITE\<rparr>) two_clients"

lemma answered_conn:
  "0 < length (connections answered)" "is_open (conn_at answered 0)"
  "b_write (conn_at answered 0) = ''Hello''" "epoll_option (conn_at answered 0) = OPTION_WRITE"
  by code_simp+

lemma answered_reachable: "service_reachable 20 60 (30, answered)"
  unfolding answered_def
  by (rule two_clients_step) (rule step_serve, simp_all add: two_clients_eval)

lemma answered_armed: "2 \<in> events (epoll_option (conn_at answered 0))" "b_write (conn_at answered 0) \<noteq> []"
  by (simp_all add: answered_conn)

lemma peer_env_writes: "writes_stream (env_write peer_env) fd received" "writes_progress (env_write peer_env) fd"
  by (simp_all add: peer_env_def peer_writes_stream peer_writes_progress)

lemma peer_answers: "snd (env_OnRequest peer_env c w) = c\<lparr>b_write := ''OK''\<rparr>"
  by (simp add: peer_env_def)

lemma readable_mask: "EPOLLIN AND EPOLLIN \<noteq> 0"
  by (simp add: epoll_defs)

text \<open>The first client sends a request with a body.\<close>

definition post_sent :: peer where
  "post_sent = \<lparr>to_deliver = [Inr (Request_str sample_post), Inl EAGAIN], received = []\<rparr>"

lemma post_delivered: "delivers (env_read peer_env) (d_fd (c_socket (conn_at two_clients 0))) post_sent
    (Request_str sample_post) \<lparr>to_deliver = [], received = []\<rparr>"
  using peer_delivers[OF sample_post_length(2,1)] by (simp add: post_sent_def)

lemma post_parsed: "Request_new (b_read (conn_at two_clients 0) @ Request_str sample_post) = Inr sample_post"
  using Request_new_str[OF sample_post_ok] by (simp add: two_clients_conn)

lemma worker_events_run:
  assumes "service_reachable ct kt (t, sv)" "\<forall>(p, evs, now)\<in>set es. p < length (connections sv) \<and> t \<le> now"
    and "sorted (map (\<lambda>(p, evs, now). now) es)" "listener_ok (env_OnRequest env)"
    and "worker_events env es sv w = Some (w', sv', r)"
  shows "r \<noteq> Inl DanglingIterator \<and> (\<exists>t'. t \<le> t' \<and> service_reachable ct kt (t', sv')) \<and>
    (\<forall>q. q \<notin> fst ` set es \<longrightarrow> conn_at sv' q = conn_at sv q)"
  using assms(1-3,5)
proof (induction es arbitrary: t sv w)
  case Nil
  then show ?case by auto
next
  case (Cons x es)
  obtain p evs now where x: "x = (p, evs, now)" by (cases x)
  obtain w1 sv1 r1 where ev: "worker_event env p evs now sv w = Some (w1, sv1, r1)"
    using Cons.prems(4) by (auto simp: x split: option.splits)
  have px: "p < length (connections sv)" "t \<le> now" using Cons.prems(2) by (auto simp: x)
  note run = worker_event_run[OF Cons.prems(1) px assms(4) ev]
  show ?case
  proof (cases r1)
    case (Inl e)
    then show ?thesis using run Cons.prems(4) ev by (auto simp: x)
  next
    case (Inr b)
    obtain t1 where t1: "t \<le> t1" "t1 \<le> now" "service_reachable ct kt (t1, sv1)" using run by blast
    have kept: "length (connections sv1) = length (connections sv)"
      using run by (simp add: places_def)
    have rest: "\<forall>y\<in>set es. fst y < length (connections sv1) \<and> t1 \<le> snd (snd y)"
    proof
      fix y assume y: "y \<in> set es"
      then have "now \<le> snd (snd y)" "fst y < length (connections sv)"
        using Cons.prems(2,3) by (auto simp: x split_beta)
      then show "fst y < length (connections sv1) \<and> t1 \<le> snd (snd y)"
        using t1(2) kept by simp
    qed
    have sorted: "sorted (map (\<lambda>(p, evs, now). now) es)" using Cons.prems(3) by simp
    have go: "worker_events env es sv1 w1 = Some (w', sv', r)"
      using Cons.prems(4) ev Inr by (simp add: x)
    obtain t' where t': "t1 \<le> t'" "service_reachable ct kt (t', sv')"
      and ih: "r \<noteq> Inl DanglingIterator" "\<forall>q. q \<notin> fst ` set es \<longrightarrow> conn_at sv' q = conn_at sv1 q"
      using Cons.IH[OF t1(3) _ sorted go] rest by (auto simp: split_beta)
    have "\<forall>q. q \<notin> fst ` set (x # es) \<longrightarrow> conn_at sv' q = conn_at sv q"
      using ih(2) run by (simp add: x)
    then show ?thesis using ih(1) t1(1) t' order_trans by blast
  qed
qed

section \<open>Properties\<close>

text \<open>
  C24: A worker's events are a run of the service's steps. Whatever the system calls return, the
  events of one call of \<^verbatim>\<open>epoll_wait\<close>, on any places of a reachable state, leave a state the
  service reaches by its steps, so that every invariant of those steps holds of the whole
  program; they never splice a dangling iterator, and touch no connection that has no event.
\<close>

theorem worker_events_refine:
  assumes "service_reachable ct kt (t, sv)" "\<forall>(p, evs, now)\<in>set es. p < length (connections sv) \<and> t \<le> now"
    and "sorted (map (\<lambda>(p, evs, now). now) es)" "listener_ok (env_OnRequest env)"
    and "worker_events env es sv w = Some (w', sv', r)"
  shows "r \<noteq> Inl DanglingIterator \<and> (\<exists>t'. t \<le> t' \<and> service_reachable ct kt (t', sv')) \<and>
    (\<forall>q. q \<notin> fst ` set es \<longrightarrow> conn_at sv' q = conn_at sv q)"
  using assms by (rule worker_events_run)

theorem worker_events_refine_witness:
  "\<exists>w' sv' r t'. worker_events peer_env [(0, EPOLLIN, 31)] two_clients post_sent = Some (w', sv', r) \<and>
    r \<noteq> Inl DanglingIterator \<and> service_reachable 20 60 (t', sv')"
proof -
  obtain w' sv' where "worker_event peer_env 0 EPOLLIN 31 two_clients post_sent = Some (w', sv', Inr True)"
    using event_serves[OF two_clients_reachable two_clients_conn(1) two_clients_eval(4) _ readable_mask
        post_delivered post_parsed peer_env_ok, of 31] by auto
  then have run: "worker_events peer_env [(0, EPOLLIN, 31)] two_clients post_sent = Some (w', sv', Inr True)"
    by simp
  show ?thesis
    using worker_events_refine[OF two_clients_reachable _ _ peer_env_ok(1) run] run two_clients_conn(1) by auto
qed

text \<open>
  C25: A complete request is served. When the bytes read complete a request, the listener is
  called once, on a connection that holds this request and its keep-alive flag; what it leaves
  in the write buffer is kept, the socket stays open and is armed for writing. A keep-alive
  connection stays armed for reading with an empty read buffer; any other is armed for writing
  only.
\<close>

theorem event_serves_request:
  assumes "service_reachable ct kt (t, sv)" "p < length (connections sv)"
    and "is_open (conn_at sv p)" "t \<le> now" "evs AND EPOLLIN \<noteq> 0"
    and "delivers (env_read env) (d_fd (c_socket (conn_at sv p))) w s w1"
    and "Request_new (b_read (conn_at sv p) @ s) = Inr req"
    and "listener_ok (env_OnRequest env)" "epoll_ok env (d_fd (c_socket (conn_at sv p))) watched" "watched w"
  shows "\<exists>w' sv' c. worker_event env p evs now sv w = Some (w', sv', Inr True) \<and>
    h_req c = req \<and> keep_alive c = is_keep_alive (m_headers req) \<and> start c = now \<and>
    is_open (conn_at sv' p) \<and> b_write (conn_at sv' p) = b_write (snd (env_OnRequest env c w1)) \<and>
    (if is_keep_alive (m_headers req)
     then b_read (conn_at sv' p) = [] \<and>
       events (epoll_option (conn_at sv' p)) = events (epoll_option (conn_at sv p)) \<union> {2, 30, 31}
     else events (epoll_option (conn_at sv' p)) =
       events (epoll_option (conn_at sv p)) - {0} \<union> {2, 30, 31})"
  using assms by (rule event_serves)

theorem event_serves_request_witness:
  "\<exists>w' sv'. worker_event peer_env 0 EPOLLIN 31 two_clients post_sent = Some (w', sv', Inr True) \<and>
    is_open (conn_at sv' 0) \<and> b_write (conn_at sv' 0) = ''OK''"
  using event_serves_request[OF two_clients_reachable two_clients_conn(1) two_clients_eval(4) _ readable_mask
      post_delivered post_parsed peer_env_ok, of 31] by (auto simp: peer_answers)

text \<open>
  C26: A request whose body arrives late is served all the same. When a first read ends anywhere
  inside the body of a well-formed request, the worker calls no listener, keeps the socket open
  with the bytes received and arms it for reading; an event that later delivers the rest hands
  exactly the request that was sent to the listener and keeps its response to be written.
\<close>

theorem request_in_two_pieces:
  assumes "service_reachable ct kt (t, sv)" "p < length (connections sv)"
    and "is_open (conn_at sv p)" "t \<le> now" "evs AND EPOLLIN \<noteq> 0"
    and "b_read (conn_at sv p) = []" "Request_ok req"
    and "length (Request_str req) - length (m_body req) \<le> n" "n < length (Request_str req)"
    and "delivers (env_read env) (d_fd (c_socket (conn_at sv p))) w (take n (Request_str req)) w1"
    and "listener_ok (env_OnRequest env)" "epoll_ok env (d_fd (c_socket (conn_at sv p))) watched" "watched w"
  shows "\<exists>w2 sv2. worker_event env p evs now sv w = Some (w2, sv2, Inr False) \<and>
    is_open (conn_at sv2 p) \<and> b_read (conn_at sv2 p) = take n (Request_str req) \<and>
    0 \<in> events (epoll_option (conn_at sv2 p)) \<and>
    (\<forall>now2 w3 w4. now \<le> now2 \<longrightarrow> watched w3 \<longrightarrow>
       delivers (env_read env) (d_fd (c_socket (conn_at sv2 p))) w3 (drop n (Request_str req)) w4 \<longrightarrow>
       (\<exists>w5 sv5 c. worker_event env p evs now2 sv2 w3 = Some (w5, sv5, Inr True) \<and> h_req c = req \<and>
          is_open (conn_at sv5 p) \<and> b_write (conn_at sv5 p) = b_write (snd (env_OnRequest env c w4))))"
proof -
  let ?txt = "Request_str req"
  obtain sv1 where sv1: "worker_event env p evs now sv w = on_readable env p sv1 w" "p < places sv1"
      "conn_at sv1 p = (conn_at sv p)\<lparr>start := now\<rparr>"
    using event_readable[OF assms(1-5)] by metis
  have f: "is_open (conn_at sv1 p)" "c_socket (conn_at sv1 p) = c_socket (conn_at sv p)"
      "b_read (conn_at sv1 p) = []"
    using assms(3,6) by (simp_all add: sv1(3))
  have "Request_new (b_read (conn_at sv1 p) @ take n ?txt) = Inl (ExpectingData ''Body'')"
    using Request_new_partial_body[OF assms(7-9)] f(3) by simp
  from on_readable_waits[OF sv1(2) _ this, where env = env and w = w and ?w1.0 = w1 and watched = watched] obtain w2 sv2 where
    ev: "worker_event env p evs now sv w = Some (w2, sv2, Inr False)"
    and sv2: "is_open (conn_at sv2 p)" "b_read (conn_at sv2 p) = take n ?txt"
      "0 \<in> events (epoll_option (conn_at sv2 p))" "c_socket (conn_at sv2 p) = c_socket (conn_at sv p)"
    using assms(10,12,13) f sv1(1) by auto
  obtain t' where t': "t' \<le> now" "service_reachable ct kt (t', sv2)"
    using worker_event_run[OF assms(1,2,4,11) ev] by blast
  have p2: "p < length (connections sv2)"
    using worker_event_run[OF assms(1,2,4,11) ev] assms(2) by (simp add: places_def)
  have "\<exists>w5 sv5 c. worker_event env p evs now2 sv2 w3 = Some (w5, sv5, Inr True) \<and> h_req c = req \<and>
      is_open (conn_at sv5 p) \<and> b_write (conn_at sv5 p) = b_write (snd (env_OnRequest env c w4))"
    if "now \<le> now2" and w3: "watched w3"
      and del: "delivers (env_read env) (d_fd (c_socket (conn_at sv2 p))) w3 (drop n ?txt) w4"
    for now2 w3 w4
  proof -
    have "t' \<le> now2" using t'(1) \<open>now \<le> now2\<close> by simp
    from event_readable[OF t'(2) p2 sv2(1) this assms(5), of env w3] obtain sv3 where
      sv3: "worker_event env p evs now2 sv2 w3 = on_readable env p sv3 w3" "p < places sv3"
        "conn_at sv3 p = (conn_at sv2 p)\<lparr>start := now2\<rparr>" by metis
    have g: "is_open (conn_at sv3 p)" "c_socket (conn_at sv3 p) = c_socket (conn_at sv2 p)"
        "b_read (conn_at sv3 p) = take n ?txt"
      using sv2 by (simp_all add: sv3(3))
    have "Request_new (b_read (conn_at sv3 p) @ drop n ?txt) = Inr req"
      using Request_new_str[OF assms(7)] g(3) by simp
    from on_readable_serves[OF sv3(2) g(1) _ this assms(11), where w = w3 and ?w1.0 = w4 and watched = watched] show ?thesis
      using del w3 assms(12) g(2) sv2(4) unfolding sv3(1) by (simp only:) blast
  qed
  then show ?thesis using ev sv2(1-3) by blast
qed

theorem request_in_two_pieces_witness:
  "\<exists>w2 sv2. worker_event peer_env 0 EPOLLIN 31 two_clients
      \<lparr>to_deliver = [Inr (take (length (Request_str sample_post) - 1) (Request_str sample_post)), Inl EAGAIN],
       received = []\<rparr> = Some (w2, sv2, Inr False) \<and> is_open (conn_at sv2 0)"
proof -
  let ?n = "length (Request_str sample_post) - 1"
  have "take ?n (Request_str sample_post) \<noteq> []" "length (take ?n (Request_str sample_post)) \<le> BUF_SIZE"
    using sample_post_length by auto
  from peer_delivers[OF this, of 5 "[]" "[]"]
  have del: "delivers (env_read peer_env) (d_fd (c_socket (conn_at two_clients 0)))
      \<lparr>to_deliver = [Inr (take ?n (Request_str sample_post)), Inl EAGAIN], received = []\<rparr>
      (take ?n (Request_str sample_post)) \<lparr>to_deliver = [], received = []\<rparr>"
    by (simp add: two_clients_conn(3))
  have n: "length (Request_str sample_post) - length (m_body sample_post) \<le> ?n"
      "?n < length (Request_str sample_post)"
    using sample_post_length by auto
  show ?thesis
    using request_in_two_pieces[OF two_clients_reachable two_clients_conn(1) two_clients_eval(4) _ readable_mask
        two_clients_conn(2) sample_post_ok n del peer_env_ok, of 31] by auto
qed

text \<open>
  A reset connection terminates the server. When a read fails with an error other than
  \<^verbatim>\<open>EAGAIN\<close>, \<^verbatim>\<open>EWOULDBLOCK\<close>, \<^verbatim>\<open>EINPROGRESS\<close> or \<^verbatim>\<open>EBADF\<close>, which is what a client that resets
  its connection causes, the exception leaves the thread's function uncaught, with the
  connection open and its place not queued for reuse.
\<close>

lemma read_error_uncaught:
  assumes "service_reachable ct kt (t, sv)" "p < length (connections sv)"
    and "is_open (conn_at sv p)" "t \<le> now" "evs AND EPOLLIN \<noteq> 0"
    and "env_read env (d_fd (c_socket (conn_at sv p))) BUF_SIZE w = (w1, Inl e)"
    and "e \<notin> {EAGAIN, EWOULDBLOCK, EINPROGRESS, EBADF}"
  shows "\<exists>sv'. worker_event env p evs now sv w = Some (w1, sv', Inl (Uncaught (Error (Strerror e)))) \<and>
    is_open (conn_at sv' p) \<and> p \<notin> set (closed_places sv')"
proof -
  obtain sv1 where sv1: "worker_event env p evs now sv w = on_readable env p sv1 w" "p < places sv1"
      "conn_at sv1 p = (conn_at sv p)\<lparr>start := now\<rparr>" "reset_last_activity_time p now sv = Some sv1"
    using event_readable[OF assms(1-5)] by metis
  have inv: "service_inv now sv1"
    using reset_inv[OF service_reachable_inv[OF assms(1)] _ assms(3,4) sv1(4)] assms(2)
    by (simp add: places_def)
  let ?c = "conn_at sv1 p"
  have op: "is_open ?c" "c_socket ?c = c_socket (conn_at sv p)" using assms(3) by (simp_all add: sv1(3))
  have "read_to_buffer (env_read env) ?c w = (w1, ?c, Inl (Error (Strerror e)))"
    using assms(6,7) op(2)
    by (auto simp: read_to_buffer_def NonBlockConnection_read_def handle_error_def)
  then have "read_requests (env_read env) ?c w = Some (w1, ?c, Raised (Error (Strerror e)))"
    by (simp add: http_reader.loop_eq[of "env_read env" ?c w])
  then have "on_readable env p sv1 w = Some (w1, sv1, Inl (Uncaught (Error (Strerror e))))"
    using sv1(2) by (simp add: on_readable_def try_read_request_def Let_def set_conn_same)
  moreover have "p \<notin> set (closed_places sv1)"
    using inv op(1) by (auto simp: service_inv_def closed_inv_def)
  ultimately show ?thesis using op(1) sv1(1) by (intro exI[of _ sv1]) simp
qed

text \<open>
  C27: A response is written, and then the connection is kept or closed. For a connection with
  something to write, the write event returns: its calls of \<^verbatim>\<open>write\<close> end when all is written or
  with the error of the last one, and the peer has received a front of the buffer. When everything
  is written, a connection that was armed for nothing else is closed and queued for reuse, any
  other stays open and is not armed for writing any more. When the last call would block, what is
  left stays in the buffer of the open connection, which is armed again for what it was armed for,
  writing included; on \<^verbatim>\<open>EBADF\<close> the connection is closed and queued for reuse; any other error leaves
  the thread as an exception, with the connection as it is.
\<close>

theorem event_writes_response:
  assumes "service_reachable ct kt (t, sv)" "p < length (connections sv)"
    and "is_open (conn_at sv p)" "t \<le> now" "evs AND EPOLLIN = 0" "evs AND EPOLLOUT \<noteq> 0"
    and "2 \<in> events (epoll_option (conn_at sv p))" "b_write (conn_at sv p) \<noteq> []"
    and "writes_stream (env_write env) (d_fd (c_socket (conn_at sv p))) sent"
    and "writes_progress (env_write env) (d_fd (c_socket (conn_at sv p)))"
    and "epoll_ok env (d_fd (c_socket (conn_at sv p))) watched" "watched w"
    and "\<And>fd opt w. sent (fst (env_epoll_mod env p fd opt w)) = sent w"
  shows "\<exists>w1 rest stop w' sv' r.
    writes_out (env_write env) (d_fd (c_socket (conn_at sv p))) (b_write (conn_at sv p)) w w1 rest stop \<and>
    (stop = None \<longleftrightarrow> rest = []) \<and> sent w' @ rest = sent w @ b_write (conn_at sv p) \<and>
    worker_event env p evs now sv w = Some (w', sv', r) \<and>
    write_outcome p (conn_at sv p) (closed_places sv) rest stop sv' r"
proof -
  obtain sv1 where sv1: "worker_event env p evs now sv w = on_writable env p sv1 w" "p < places sv1"
      "conn_at sv1 p = (conn_at sv p)\<lparr>start := now\<rparr>" "closed_places sv1 = closed_places sv"
    using event_writable[OF assms(1-6)] by metis
  have f: "is_open (conn_at sv1 p)" "c_socket (conn_at sv1 p) = c_socket (conn_at sv p)"
      "b_write (conn_at sv1 p) = b_write (conn_at sv p)"
      "epoll_option (conn_at sv1 p) = epoll_option (conn_at sv p)"
    using assms(3) by (simp_all add: sv1(3))
  obtain w1 rest stop where out: "writes_out (env_write env) (d_fd (c_socket (conn_at sv p)))
      (b_write (conn_at sv p)) w w1 rest stop" "sent w1 @ rest = sent w @ b_write (conn_at sv p)"
      "stop = None \<longleftrightarrow> rest = []"
    using writes_out_stream[OF assms(9,10,8)] by blast
  obtain w' sv' r where "on_writable env p sv1 w = Some (w', sv', r)"
      "w' = w1 \<or> (\<exists>fd opt. w' = fst (env_epoll_mod env p fd opt w1))"
      "write_outcome p (conn_at sv1 p) (closed_places sv1) rest stop sv' r"
    using on_writable_out[OF sv1(2) f(1), of env w w1 rest stop watched] out(1,3) assms(7,11,12)
    unfolding f(2-4) by blast
  moreover have "write_outcome p (conn_at sv1 p) = write_outcome p (conn_at sv p)"
    by (intro ext) (simp add: write_outcome_def f(4) cong: option.case_cong if_cong)
  moreover have "sent w' @ rest = sent w @ b_write (conn_at sv p)" using calculation(2) out(2) assms(13) by auto
  ultimately show ?thesis using out(1,3) sv1(1,4) by fastforce
qed

theorem event_writes_response_witness:
  "\<exists>w' sv'. worker_event peer_env 0 EPOLLOUT 31 answered \<lparr>to_deliver = [], received = []\<rparr> =
      Some (w', sv', Inr True) \<and> received w' = ''Hello'' \<and> \<not> is_open (conn_at sv' 0)"
proof -
  let ?w = "\<lparr>to_deliver = [], received = []\<rparr>"
  have masks: "EPOLLOUT AND EPOLLIN = 0" "EPOLLOUT AND EPOLLOUT \<noteq> 0" by (simp_all add: epoll_defs)
  have only: "events (epoll_option (conn_at answered 0)) \<subseteq> {2, 30, 31}" by (simp add: answered_conn)
  obtain w1 rest stop w' sv' r where
    out: "writes_out (env_write peer_env) (d_fd (c_socket (conn_at answered 0))) (b_write (conn_at answered 0)) ?w w1 rest stop"
      "stop = None \<longleftrightarrow> rest = []" "received w' @ rest = received ?w @ b_write (conn_at answered 0)"
    and run: "worker_event peer_env 0 EPOLLOUT 31 answered ?w = Some (w', sv', r)"
      "write_outcome 0 (conn_at answered 0) (closed_places answered) rest stop sv' r"
    using event_writes_response[OF answered_reachable answered_conn(1,2) _ masks answered_armed
        peer_env_writes peer_env_ok(2), of 31 ?w] peer_epoll_keeps by fastforce
  have "stop = None" using peer_writes_out[OF out(1)[unfolded peer_env_write]] .
  then show ?thesis using out(2,3) run only by (simp add: write_outcome_def answered_conn(3))
qed

end
