(* ===== verification/Http_Session.thy ===== *)
theory Http_Session
  imports Http_Worker_Props
begin

text \<open>
  A client of the HTTP service from its first request to its last: the parser and printer of
  \<^verbatim>\<open>message.cpp\<close>, the connection, the worker and the service together. The world has a client on
  the descriptor of one connection, which sends each request when the last one is answered.
\<close>

section \<open>The client\<close>

text \<open>
  What the client has still to send, request by request, and what it has received. A read delivers
  the bytes of one request and then blocks; a write takes at least a byte and does not block, as
  long as the descriptor is open and watched; the calls of \<^verbatim>\<open>epoll_ctl\<close> and the listener leave the
  client alone. The listener writes the response
  \<^verbatim>\<open>respond\<close> gives to the request of the connection.
\<close>

definition client_of ::
  "'w worker_env \<Rightarrow> int \<Rightarrow> ('w \<Rightarrow> bool) \<Rightarrow> ('w \<Rightarrow> string list) \<Rightarrow> ('w \<Rightarrow> string) \<Rightarrow>
   (Request \<Rightarrow> Responce) \<Rightarrow> bool" where
  "client_of env fd watched incoming sent respond \<longleftrightarrow> epoll_ok env fd watched \<and>
     (\<forall>w s rest. watched w \<longrightarrow> incoming w = s # rest \<longrightarrow>
        (\<exists>w'. delivers (env_read env) fd w s w' \<and> incoming w' = rest \<and> sent w' = sent w)) \<and>
     (\<forall>w bs. watched w \<longrightarrow> bs \<noteq> [] \<longrightarrow> (\<exists>w' n. env_write env fd bs w = (w', Inr n) \<and> 0 < n \<and> n \<le> length bs \<and>
        sent w' = sent w @ take n bs \<and> incoming w' = incoming w)) \<and>
     (\<forall>p fd opt w. sent (fst (env_epoll_mod env p fd opt w)) = sent w \<and>
        incoming (fst (env_epoll_mod env p fd opt w)) = incoming w) \<and>
     (\<forall>c w. \<exists>w'. env_OnRequest env c w = (w', Http_write (respond (h_req c)) c) \<and>
        sent w' = sent w \<and> incoming w' = incoming w)"

lemma client_ofD:
  assumes "client_of env fd watched incoming sent respond"
  shows "epoll_ok env fd watched"
    "watched w \<Longrightarrow> incoming w = s # rest \<Longrightarrow>
      \<exists>w'. delivers (env_read env) fd w s w' \<and> incoming w' = rest \<and> sent w' = sent w \<and> watched w'"
    "watched w \<Longrightarrow> bs \<noteq> [] \<Longrightarrow> \<exists>w' n. env_write env fd bs w = (w', Inr n) \<and> 0 < n \<and> n \<le> length bs \<and>
      sent w' = sent w @ take n bs \<and> incoming w' = incoming w \<and> watched w'"
    "sent (fst (env_epoll_mod env p fd' opt w)) = sent w"
    "incoming (fst (env_epoll_mod env p fd' opt w)) = incoming w"
    "\<exists>w'. env_OnRequest env c w = (w', Http_write (respond (h_req c)) c) \<and> sent w' = sent w \<and>
      incoming w' = incoming w"
proof -
  note c = assms[unfolded client_of_def]
  show ok: "epoll_ok env fd watched" using c by blast
  show "\<exists>w'. delivers (env_read env) fd w s w' \<and> incoming w' = rest \<and> sent w' = sent w \<and> watched w'"
    if "watched w" "incoming w = s # rest" for w s rest
    using c that delivers_watched[OF _ ok] by blast
  show "\<exists>w' n. env_write env fd bs w = (w', Inr n) \<and> 0 < n \<and> n \<le> length bs \<and>
      sent w' = sent w @ take n bs \<and> incoming w' = incoming w \<and> watched w'"
    if "watched w" "bs \<noteq> []" for w bs
    using c that epoll_okD(2)[OF ok] by metis
qed (use assms[unfolded client_of_def] in blast)+

lemma Http_write_keeps [simp]:
  "c_socket (Http_write res c) = c_socket c" "epoll_option (Http_write res c) = epoll_option c"
  "keep_alive (Http_write res c) = keep_alive c" "start (Http_write res c) = start c"
  "b_read (Http_write res c) = b_read c" "b_write (Http_write res c) = Responce_str res"
  by (simp_all add: Http_write_def)

lemma client_listener_ok:
  assumes "client_of env fd watched incoming sent respond"
  shows "listener_ok (env_OnRequest env)"
proof -
  have "snd (env_OnRequest env c w) = Http_write (respond (h_req c)) c" for c w
    using client_ofD(6)[OF assms, of c w] by auto
  then show ?thesis by (simp add: listener_ok_def Let_def)
qed

section \<open>A response is written completely\<close>

lemma client_writes:
  assumes "client_of env fd watched incoming sent respond" "d_fd (c_socket c) = fd" "b_write c \<noteq> []"
    and "watched w"
  shows "\<exists>w'. write_responces (env_write env) c w = Some (w', c\<lparr>b_write := []\<rparr>, Finished) \<and>
    sent w' = sent w @ b_write c \<and> incoming w' = incoming w \<and> watched w'"
  using assms(2-4)
proof (induction "length (b_write c)" arbitrary: c w rule: less_induct)
  case less
  obtain w1 n where wr: "env_write env fd (b_write c) w = (w1, Inr n)" "0 < n" "n \<le> length (b_write c)"
      "sent w1 = sent w @ take n (b_write c)" "incoming w1 = incoming w" "watched w1"
    using client_ofD(3)[OF assms(1) less.prems(3,2)] by blast
  let ?c = "c\<lparr>b_write := drop n (b_write c)\<rparr>"
  have step: "write_from_buffer (env_write env) c w = (w1, ?c, Inr n)"
    using wr(1) less.prems(1) by (simp add: write_from_buffer_def NonBlockConnection_write_def handle_error_def)
  show ?case
  proof (cases "drop n (b_write c) = []")
    case True
    then show ?thesis using step wr(4-6) by (simp add: http_writer.loop_eq[of "env_write env" c w])
  next
    case False
    then obtain w' where "write_responces (env_write env) ?c w1 = Some (w', ?c\<lparr>b_write := []\<rparr>, Finished)"
        "sent w' = sent w1 @ b_write ?c" "incoming w' = incoming w1" "watched w'"
      using less.hyps[of ?c w1] less.prems wr(2,6) by auto
    then show ?thesis using step False wr(4,5) by (simp add: http_writer.loop_eq[of "env_write env" c w])
  qed
qed

section \<open>The two events of a request\<close>

text \<open>A connection that waits for a request: open, nothing read, armed for reading only.\<close>

definition waiting :: "int \<Rightarrow> nat \<Rightarrow> HttpService \<Rightarrow> bool" where
  "waiting fd p sv \<longleftrightarrow> p < length (connections sv) \<and> is_open (conn_at sv p) \<and>
     d_fd (c_socket (conn_at sv p)) = fd \<and> b_read (conn_at sv p) = [] \<and>
     events (epoll_option (conn_at sv p)) = {0, 30, 31}"

text \<open>A connection with a response to be written; whether it is to be kept.\<close>

definition answering :: "int \<Rightarrow> nat \<Rightarrow> string \<Rightarrow> bool \<Rightarrow> HttpService \<Rightarrow> bool" where
  "answering fd p text keep sv \<longleftrightarrow> p < length (connections sv) \<and> is_open (conn_at sv p) \<and>
     d_fd (c_socket (conn_at sv p)) = fd \<and> b_write (conn_at sv p) = text \<and>
     (keep \<longrightarrow> b_read (conn_at sv p) = []) \<and>
     events (epoll_option (conn_at sv p)) = (if keep then {0, 2, 30, 31} else {2, 30, 31})"


lemma event_answers:
  assumes "client_of env fd watched incoming sent respond" "service_reachable ct kt (t, sv)" "t \<le> now"
    and "waiting fd p sv" "evs AND EPOLLIN \<noteq> 0" "incoming w = Request_str req # rest" "Request_ok req"
    and "watched w"
  shows "\<exists>w' sv' t'. worker_event env p evs now sv w = Some (w', sv', Inr True) \<and>
    t' \<le> now \<and> service_reachable ct kt (t', sv') \<and>
    answering fd p (Responce_str (respond req)) (is_keep_alive (m_headers req)) sv' \<and>
    incoming w' = rest \<and> sent w' = sent w \<and> watched w'"
proof -
  have open_p: "p < length (connections sv)" "is_open (conn_at sv p)" using assms(4) by (simp_all add: waiting_def)
  obtain sv1 where sv1: "worker_event env p evs now sv w = on_readable env p sv1 w" "p < places sv1"
      "conn_at sv1 p = (conn_at sv p)\<lparr>start := now\<rparr>"
    using event_readable[OF assms(2) open_p assms(3,5)] by metis
  have f: "is_open (conn_at sv1 p)" "d_fd (c_socket (conn_at sv1 p)) = fd" "b_read (conn_at sv1 p) = []"
      "events (epoll_option (conn_at sv1 p)) = {0, 30, 31}"
    using assms(4) by (simp_all add: sv1(3) waiting_def)
  obtain w1 where del: "delivers (env_read env) (d_fd (c_socket (conn_at sv1 p))) w (Request_str req) w1"
      and w1: "incoming w1 = rest" "sent w1 = sent w"
    using client_ofD(2)[OF assms(1,8,6)] f(2) by auto
  have ep: "epoll_ok env (d_fd (c_socket (conn_at sv1 p))) watched" using client_ofD(1)[OF assms(1)] f(2) by simp
  have parsed: "Request_new (b_read (conn_at sv1 p) @ Request_str req) = Inr req"
    using Request_new_str[OF assms(7)] f(3) by simp
  note lok = client_listener_ok[OF assms(1)]
  let ?c = "(conn_at sv1 p)\<lparr>b_read := b_read (conn_at sv1 p) @ Request_str req,
    keep_alive := is_keep_alive (m_headers req), h_req := req\<rparr>"
  obtain w' opt w2 c2 where lis: "env_OnRequest env ?c w1 = (w2, c2)"
    and run: "on_readable env p sv1 w = Some (w', set_conn p (c2\<lparr>b_read :=
      (if is_keep_alive (m_headers req) then [] else b_read c2), epoll_option := opt\<rparr>) sv1, Inr True)"
    and opt: "events opt = (if is_keep_alive (m_headers req)
      then events (epoll_option (conn_at sv1 p)) \<union> {2, 30, 31}
      else events (epoll_option (conn_at sv1 p)) - {0} \<union> {2, 30, 31})"
    and w': "w' = fst (env_epoll_mod env p (d_fd (c_socket (conn_at sv1 p))) opt w2)" "watched w'"
    by (rule on_readable_run[OF sv1(2) f(1) del parsed lok ep assms(8)])
  have c2: "c2 = Http_write (respond req) ?c" "sent w2 = sent w" "incoming w2 = rest"
    using client_ofD(6)[OF assms(1), of ?c w1] lis w1 by auto
  let ?sv = "set_conn p (c2\<lparr>b_read := (if is_keep_alive (m_headers req) then [] else b_read c2),
    epoll_option := opt\<rparr>) sv1"
  have ev: "worker_event env p evs now sv w = Some (w', ?sv, Inr True)" using run sv1(1) by simp
  obtain t' where t': "t' \<le> now" "service_reachable ct kt (t', ?sv)" "places ?sv = places sv"
    using worker_event_run[OF assms(2) open_p(1) assms(3) lok ev] by blast
  have "answering fd p (Responce_str (respond req)) (is_keep_alive (m_headers req)) ?sv"
    unfolding answering_def
    using open_p(1) t'(3) sv1(2) f opt by (auto simp: c2(1) is_open_def Http_write_def places_def)
  then show ?thesis using ev t' c2(2,3) w' client_ofD(4,5)[OF assms(1)] by auto
qed

lemma event_delivers_answer:
  assumes "client_of env fd watched incoming sent respond" "service_reachable ct kt (t, sv)" "t \<le> now"
    and "answering fd p text keep sv" "text \<noteq> []" "evs AND EPOLLIN = 0" "evs AND EPOLLOUT \<noteq> 0"
    and "watched w"
  shows "\<exists>w' sv' t'. worker_event env p evs now sv w = Some (w', sv', Inr True) \<and>
    t' \<le> now \<and> service_reachable ct kt (t', sv') \<and>
    (if keep then waiting fd p sv' else \<not> is_open (conn_at sv' p) \<and> closed_places sv' = closed_places sv @ [p]) \<and>
    incoming w' = incoming w \<and> sent w' = sent w @ text \<and> watched w'"
proof -
  have open_p: "p < length (connections sv)" "is_open (conn_at sv p)" using assms(4) by (simp_all add: answering_def)
  obtain sv1 where sv1: "worker_event env p evs now sv w = on_writable env p sv1 w" "p < places sv1"
      "conn_at sv1 p = (conn_at sv p)\<lparr>start := now\<rparr>" "closed_places sv1 = closed_places sv"
    using event_writable[OF assms(2) open_p assms(3,6,7)] by metis
  let ?c = "conn_at sv1 p"
  have f: "is_open ?c" "d_fd (c_socket ?c) = fd" "b_write ?c = text" "keep \<Longrightarrow> b_read ?c = []"
      "events (epoll_option ?c) = (if keep then {0, 2, 30, 31} else {2, 30, 31})"
    using assms(4) by (simp_all add: sv1(3) answering_def)
  obtain w1 where wr: "write_responces (env_write env) ?c w = Some (w1, ?c\<lparr>b_write := []\<rparr>, Finished)"
      and w1: "sent w1 = sent w @ text" "incoming w1 = incoming w" "watched w1"
    using client_writes[OF assms(1) f(2), of w] f(3) assms(5,8) by auto
  let ?sv = "set_conn p (?c\<lparr>b_write := []\<rparr>) sv1"
  have p: "p < places ?sv" and op: "is_open (conn_at ?sv p)"
    and ep: "epoll_ok env (d_fd (c_socket (conn_at ?sv p))) watched"
    using sv1(2) f(1,2) client_ofD(1)[OF assms(1)] by simp_all
  obtain w' sv' where fin: "finish_event env p (set_conn p (Http_unsubscribe OPTION_WRITE (conn_at ?sv p)) ?sv) w1
        = (w', sv', Inr True)"
    and w': "w' = w1 \<or> (\<exists>fd opt. w' = fst (env_epoll_mod env p fd opt w1))" "watched w'"
    and sv': "if events (epoll_option (conn_at ?sv p)) \<subseteq> {2, 30, 31}
      then \<not> is_open (conn_at sv' p) \<and> closed_places sv' = closed_places ?sv @ [p]
      else \<exists>opt. conn_at sv' p = (conn_at ?sv p)\<lparr>epoll_option := opt\<rparr> \<and> closed_places sv' = closed_places ?sv \<and>
        events opt = events (epoll_option (conn_at ?sv p)) - {2} \<union> {30, 31}"
    using finish_written_run[OF ep w1(3) p op] by blast
  have ev: "worker_event env p evs now sv w = Some (w', sv', Inr True)"
    using fin by (simp add: sv1(1) on_writable_def try_write_responce_def wr Let_def)
  obtain t' where t': "t' \<le> now" "service_reachable ct kt (t', sv')" "places sv' = places sv"
    using worker_event_run[OF assms(2) open_p(1) assms(3) client_listener_ok[OF assms(1)] ev] by blast
  have "sent w' = sent w @ text" "incoming w' = incoming w"
    using w'(1) w1 client_ofD(4,5)[OF assms(1)] by auto
  moreover have "if keep then waiting fd p sv' else \<not> is_open (conn_at sv' p) \<and> closed_places sv' = closed_places sv @ [p]"
    using sv' sv1(2,4) f open_p(1) t'(3) by (auto simp: waiting_def places_def)
  ultimately show ?thesis using ev t'(1,2) w'(2) by blast
qed

section \<open>The session\<close>

text \<open>The events of a session: for each request it is readable at a time, then writable at another.\<close>

fun session_events :: "nat \<Rightarrow> (nat \<times> nat) list \<Rightarrow> (nat \<times> 32 word \<times> nat) list" where
  "session_events p [] = []"
| "session_events p ((t1, t2) # ts) = (p, EPOLLIN, t1) # (p, EPOLLOUT, t2) # session_events p ts"

lemma Responce_str_nonempty [simp]: "Responce_str res \<noteq> []"
  by (simp add: Responce_str_def)

lemma out_mask: "EPOLLOUT AND EPOLLIN = 0" "EPOLLOUT AND EPOLLOUT \<noteq> 0"
  by (simp_all add: epoll_defs)

lemma exchange:
  assumes "client_of env fd watched incoming sent respond" "service_reachable ct kt (t, sv)" "t \<le> t1" "t1 \<le> t2"
    and "waiting fd p sv" "incoming w = Request_str req # rest" "Request_ok req" "watched w"
  shows "\<exists>w' sv' t'. worker_events env ((p, EPOLLIN, t1) # (p, EPOLLOUT, t2) # es) sv w = worker_events env es sv' w' \<and>
    t' \<le> t2 \<and> service_reachable ct kt (t', sv') \<and>
    (if is_keep_alive (m_headers req) then waiting fd p sv'
     else \<not> is_open (conn_at sv' p) \<and> p \<in> set (closed_places sv')) \<and>
    incoming w' = rest \<and> sent w' = sent w @ Responce_str (respond req) \<and> watched w'"
proof -
  obtain w1 sv1 s1 where 1: "worker_event env p EPOLLIN t1 sv w = Some (w1, sv1, Inr True)"
      "s1 \<le> t1" "service_reachable ct kt (s1, sv1)"
      "answering fd p (Responce_str (respond req)) (is_keep_alive (m_headers req)) sv1"
      "incoming w1 = rest" "sent w1 = sent w" "watched w1"
    using event_answers[OF assms(1,2,3,5) readable_mask assms(6-8)] by blast
  have "s1 \<le> t2" using 1(2) assms(4) by simp
  then obtain w2 sv2 s2 where 2: "worker_event env p EPOLLOUT t2 sv1 w1 = Some (w2, sv2, Inr True)"
      "s2 \<le> t2" "service_reachable ct kt (s2, sv2)"
      "if is_keep_alive (m_headers req) then waiting fd p sv2
       else \<not> is_open (conn_at sv2 p) \<and> closed_places sv2 = closed_places sv1 @ [p]"
      "incoming w2 = incoming w1" "sent w2 = sent w1 @ Responce_str (respond req)" "watched w2"
    using event_delivers_answer[OF assms(1) 1(3) _ 1(4) Responce_str_nonempty out_mask 1(7)] by blast
  have "worker_events env ((p, EPOLLIN, t1) # (p, EPOLLOUT, t2) # es) sv w = worker_events env es sv2 w2"
    using 1(1) 2(1) by simp
  then show ?thesis using 1(5,6) 2(2-7) by (intro exI[of _ w2] exI[of _ sv2] exI[of _ s2]) auto
qed


text \<open>What holds of a connection after its last answer: kept, or closed and queued for reuse.\<close>

definition left :: "int \<Rightarrow> nat \<Rightarrow> bool \<Rightarrow> HttpService \<Rightarrow> bool" where
  "left fd p keep sv \<longleftrightarrow>
     (if keep then waiting fd p sv else \<not> is_open (conn_at sv p) \<and> p \<in> set (closed_places sv))"

fun times :: "(nat \<times> nat) list \<Rightarrow> nat list" where
  "times [] = []"
| "times ((t1, t2) # ts) = t1 # t2 # times ts"

lemma session_run:
  assumes "client_of env fd watched incoming sent respond" "service_reachable ct kt (t, sv)"
    and "waiting fd p sv" "incoming w = map Request_str reqs @ rest" "\<forall>req\<in>set reqs. Request_ok req"
    and "\<forall>req\<in>set (butlast reqs). is_keep_alive (m_headers req)"
    and "length ts = length reqs" "sorted (t # times ts)" "watched w"
  shows "\<exists>w' sv' t'. worker_events env (session_events p ts) sv w = Some (w', sv', Inr True) \<and>
    service_reachable ct kt (t', sv') \<and> incoming w' = rest \<and>
    sent w' = sent w @ concat (map (\<lambda>req. Responce_str (respond req)) reqs) \<and>
    left fd p (reqs = [] \<or> is_keep_alive (m_headers (last reqs))) sv'"
  using assms(2-9)
proof (induction reqs arbitrary: t sv w ts)
  case Nil
  then show ?case by (auto simp: left_def)
next
  case (Cons req reqs)
  obtain t1 t2 us where ts: "ts = (t1, t2) # us" "length us = length reqs"
    using Cons.prems(6) by (cases ts) auto
  have order: "t \<le> t1" "t1 \<le> t2" "sorted (t2 # times us)" using Cons.prems(7) ts(1) by auto
  have ok: "Request_ok req" and inc: "incoming w = Request_str req # map Request_str reqs @ rest"
    using Cons.prems(3,4) by simp_all
  obtain w1 sv1 t' where 1: "worker_events env (session_events p ts) sv w =
        worker_events env (session_events p us) sv1 w1"
      "t' \<le> t2" "service_reachable ct kt (t', sv1)"
      "if is_keep_alive (m_headers req) then waiting fd p sv1
       else \<not> is_open (conn_at sv1 p) \<and> p \<in> set (closed_places sv1)"
      "incoming w1 = map Request_str reqs @ rest" "sent w1 = sent w @ Responce_str (respond req)" "watched w1"
    using exchange[OF assms(1) Cons.prems(1) order(1,2) Cons.prems(2) inc ok Cons.prems(8),
        where es = "session_events p us"] unfolding ts(1) session_events.simps by blast
  show ?case
  proof (cases "reqs = []")
    case True
    then show ?thesis using 1 ts(2) by (auto simp: left_def)
  next
    case False
    have "sorted (t' # times us)" using order(3) 1(2) by auto
    moreover have "is_keep_alive (m_headers req)" "\<forall>req\<in>set (butlast reqs). is_keep_alive (m_headers req)"
      using Cons.prems(5) False by simp_all
    ultimately obtain w2 sv2 t2' where "worker_events env (session_events p us) sv1 w1 = Some (w2, sv2, Inr True)"
        "service_reachable ct kt (t2', sv2)" "incoming w2 = rest"
        "sent w2 = sent w1 @ concat (map (\<lambda>req. Responce_str (respond req)) reqs)"
        "left fd p (reqs = [] \<or> is_keep_alive (m_headers (last reqs))) sv2"
      using Cons.IH[OF 1(3) _ 1(5) _ _ ts(2) _ 1(7)] 1(4) Cons.prems(4) by auto
    then show ?thesis using 1(1,6) False by (intro exI[of _ w2] exI[of _ sv2] exI[of _ t2']) simp
  qed
qed

section \<open>A scripted client\<close>

text \<open>The requests a script holds, each a chunk that fits the reader's buffer and then a pause.\<close>

fun scripted :: "(errno + string) list \<Rightarrow> string list" where
  "scripted (Inr bs # Inl EAGAIN # cs) =
     (if bs \<noteq> [] \<and> length bs \<le> BUF_SIZE then bs # scripted cs else [])"
| "scripted cs = []"

definition session_env :: "peer worker_env" where
  "session_env = peer_env\<lparr>env_OnRequest := (\<lambda>c w. (w, Http_write sample_ok c))\<rparr>"

lemma session_env_mod [simp]: "env_epoll_mod session_env = env_epoll_mod peer_env"
  by (simp add: session_env_def env_epoll_mod_def fun_eq_iff)

lemma scripted_delivers:
  assumes "scripted (to_deliver w) = s # rest"
  shows "\<exists>w'. delivers peer_read fd w s w' \<and> scripted (to_deliver w') = rest \<and> received w' = received w"
proof (cases "to_deliver w" rule: scripted.cases)
  case (1 bs cs)
  then have bs: "bs \<noteq> []" "length bs \<le> BUF_SIZE" "s = bs" "rest = scripted cs"
    using assms by (auto split: if_splits)
  have "w = \<lparr>to_deliver = Inr bs # Inl EAGAIN # cs, received = received w\<rparr>" using 1 by simp
  then show ?thesis using peer_delivers[OF bs(1,2), of fd cs "received w"] bs(3,4)
    by (intro exI[of _ "\<lparr>to_deliver = cs, received = received w\<rparr>"]) (simp add: peer_env_def)
qed (use assms in simp_all)

lemma session_env_client:
  "client_of session_env fd (\<lambda>w. True) (\<lambda>w. scripted (to_deliver w)) received (\<lambda>req. sample_ok)"
  unfolding client_of_def
proof (intro conjI allI impI)
  show "epoll_ok session_env fd (\<lambda>w. True)" using peer_env_ok(2)[of fd] by (simp add: epoll_ok_def)
next
  fix w :: peer and s rest
  assume "scripted (to_deliver w) = s # rest"
  then show "\<exists>w'. delivers (env_read session_env) fd w s w' \<and> scripted (to_deliver w') = rest \<and>
      received w' = received w"
    using scripted_delivers by (simp add: session_env_def peer_env_def)
next
  fix w :: peer and bs :: string
  assume "bs \<noteq> []"
  then show "\<exists>w' n. env_write session_env fd bs w = (w', Inr n) \<and> 0 < n \<and> n \<le> length bs \<and>
      received w' = received w @ take n bs \<and> scripted (to_deliver w') = scripted (to_deliver w)"
    by (simp add: session_env_def peer_env_def peer_write_def min_def)
qed (simp_all add: peer_env_def session_env_def env_epoll_mod_def)

definition session_world :: peer where
  "session_world = \<lparr>to_deliver = [Inr (Request_str sample_keep), Inl EAGAIN,
     Inr (Request_str sample_post), Inl EAGAIN], received = []\<rparr>"

definition armed_client :: HttpService where
  "armed_client = set_conn 0 ((conn_at two_clients 0)\<lparr>epoll_option := opt_plus OPTION_READ OPTION_ET_ONESHOT\<rparr>) two_clients"

lemma armed_client_reachable: "service_reachable 20 60 (30, armed_client)"
  unfolding armed_client_def
  by (rule two_clients_step) (rule step_serve, simp_all add: two_clients_eval)

lemma armed_client_waiting: "waiting 5 0 armed_client"
proof -
  have "0 < places two_clients" using two_clients_conn(1) by (simp add: places_def)
  then show ?thesis using two_clients_conn(2,3) two_clients_eval(4)
    by (simp add: waiting_def armed_client_def places_def[symmetric]) auto
qed

lemma sample_keep_ok: "Request_ok sample_keep"
  using sample_texts
  by (simp add: Request_ok_def sample_keep_def headers_ok_def body_ok_def is_length_header_def
      METHODS_def name_simps value_ok_def)

lemma session_world_scripted:
  "scripted (to_deliver session_world) = map Request_str [sample_keep, sample_post] @ []"
  using sample_keep_parsed(3,4) sample_post_length(1,2) by (simp add: session_world_def)

section \<open>Property\<close>

text \<open>
  C28: A client is answered request by request. A client that waits for each answer before it
  sends the next request, on a connection armed for reading, with well-formed requests of which
  all but the last ask to keep the connection: after the two events of each request the client
  has received exactly the printed responses of the listener, in the order of the requests, and
  nothing it sent is left over; no exception is raised. The connection waits for the next
  request if the last one asks to keep it, otherwise it is closed and queued for reuse; the
  state is one the service reaches by its steps.
\<close>

theorem client_session:
  assumes "client_of env fd watched incoming sent respond" "service_reachable ct kt (t, sv)"
    and "waiting fd p sv" "incoming w = map Request_str reqs @ rest" "\<forall>req\<in>set reqs. Request_ok req"
    and "\<forall>req\<in>set (butlast reqs). is_keep_alive (m_headers req)"
    and "length ts = length reqs" "sorted (t # times ts)" "watched w"
  shows "\<exists>w' sv' t'. worker_events env (session_events p ts) sv w = Some (w', sv', Inr True) \<and>
    service_reachable ct kt (t', sv') \<and> incoming w' = rest \<and>
    sent w' = sent w @ concat (map (\<lambda>req. Responce_str (respond req)) reqs) \<and>
    left fd p (reqs = [] \<or> is_keep_alive (m_headers (last reqs))) sv'"
  using assms by (rule session_run)

theorem client_session_witness:
  "\<exists>w' sv'. worker_events session_env (session_events 0 [(31, 32), (40, 41)]) armed_client session_world =
      Some (w', sv', Inr True) \<and> received w' = Responce_str sample_ok @ Responce_str sample_ok \<and>
    \<not> is_open (conn_at sv' 0) \<and> 0 \<in> set (closed_places sv')"
proof -
  have "\<not> is_keep_alive (m_headers sample_post)" by code_simp
  moreover have "received session_world = []" by (simp add: session_world_def)
  ultimately show ?thesis
    using client_session[OF session_env_client armed_client_reachable armed_client_waiting
        session_world_scripted, where ts = "[(31, 32), (40, 41)]"] sample_keep_ok sample_post_ok sample_keep_parsed(2)
    by (auto simp: left_def)
qed

end
