(* ===== verification/Coroutine.thy ===== *)
theory Coroutine
  imports Main
begin

text \<open>
  \<^verbatim>\<open>7.cor/lib/coroutine.cpp\<close>: routines on stacks of their own, and the ordinator that hands
  finished ones out again.

  The function of a routine is a program with points at which it yields: \<^verbatim>\<open>run\<close> takes it from a
  point to the next event, a yield, the return or an exception. A saved context is the point the
  routine continues from; \<^verbatim>\<open>AtEnd\<close> is the point in \<^verbatim>\<open>entry\<close> behind its \<^verbatim>\<open>swapcontext\<close>, with
  the function done and the bookkeeping of \<^verbatim>\<open>entry\<close> not. A routine is named by its index in the
  list of routines, which only grows. The functions are called by one thread, outside of any
  routine except for \<^verbatim>\<open>yield\<close>; \<^verbatim>\<open>Coroutine_Machine\<close> has the switches, threads and nesting.
\<close>

section \<open>State\<close>

datatype ('p, 'e) outcome = Yielded 'p | Returned | Threw 'e

datatype 'p saved = At 'p | AtEnd

record ('p, 'e) Routine =
  r_func :: 'p
  r_finished :: bool
  r_ctx :: "'p saved"
  r_exception :: "'e option"

record ('p, 'e) Ordinator =
  routines :: "('p, 'e) Routine list"
  finished :: "nat list"
  current :: "nat option"

definition Ordinator_new :: "('p, 'e) Ordinator" where
  "Ordinator_new = \<lparr>routines = [], finished = [], current = None\<rparr>"

definition Routine_new :: "'p \<Rightarrow> ('p, 'e) Routine" where
  "Routine_new f = \<lparr>r_func = f, r_finished = False, r_ctx = At f, r_exception = None\<rparr>"

definition Routine_reset :: "'p \<Rightarrow> ('p, 'e) Routine \<Rightarrow> ('p, 'e) Routine" where
  "Routine_reset f r = r\<lparr>r_func := f, r_finished := False, r_exception := None, r_ctx := At f\<rparr>"

definition upd :: "nat \<Rightarrow> (('p, 'e) Routine \<Rightarrow> ('p, 'e) Routine) \<Rightarrow> ('p, 'e) Ordinator \<Rightarrow> ('p, 'e) Ordinator" where
  "upd i f m = m\<lparr>routines := (routines m)[i := f (routines m ! i)]\<rparr>"

text \<open>The bytes of the routines' stacks, which are never freed.\<close>

definition STACK_SIZE :: nat where
  "STACK_SIZE = 2 ^ 16"

definition stacks_allocated :: "('p, 'e) Ordinator \<Rightarrow> nat" where
  "stacks_allocated m = length (routines m) * STACK_SIZE"

section \<open>Operations\<close>

definition cor_create :: "'p \<Rightarrow> ('p, 'e) Ordinator \<Rightarrow> ('p, 'e) Ordinator \<times> nat" where
  "cor_create f m =
     (case finished m of
        [] \<Rightarrow> (m\<lparr>routines := routines m @ [Routine_new f]\<rparr>, length (routines m))
      | i # is \<Rightarrow> (upd i (Routine_reset f) (m\<lparr>finished := is\<rparr>), i))"

text \<open>
  What runs between the two context switches of \<^verbatim>\<open>resume\<close>: the function up to its next
  \<^verbatim>\<open>yield\<close>, or \<^verbatim>\<open>entry\<close> to its \<^verbatim>\<open>swapcontext\<close>, or \<^verbatim>\<open>entry\<close> from there to its end.
  The outcome \<^verbatim>\<open>None\<close>: it does not come back.
\<close>

definition switch_to ::
  "('p \<Rightarrow> 's \<Rightarrow> ('s \<times> ('p, 'e) outcome) option) \<Rightarrow> nat \<Rightarrow> ('p, 'e) Ordinator \<Rightarrow> 's \<Rightarrow>
   (('p, 'e) Ordinator \<times> 's) option" where
  "switch_to run i m s =
     (case r_ctx (routines m ! i) of
        At pt \<Rightarrow>
          (case run pt s of
             None \<Rightarrow> None
           | Some (s, Yielded pt) \<Rightarrow> Some ((upd i (\<lambda>r. r\<lparr>r_ctx := At pt\<rparr>) m)\<lparr>current := None\<rparr>, s)
           | Some (s, Returned) \<Rightarrow> Some (upd i (\<lambda>r. r\<lparr>r_ctx := AtEnd\<rparr>) m, s)
           | Some (s, Threw e) \<Rightarrow> Some (upd i (\<lambda>r. r\<lparr>r_exception := Some e, r_ctx := AtEnd\<rparr>) m, s))
      | AtEnd \<Rightarrow>
          let m = upd i (\<lambda>r. r\<lparr>r_finished := True\<rparr>) m;
              m = m\<lparr>current := None\<rparr>;
              m = m\<lparr>finished := finished m @ [i]\<rparr>
          in Some (m, s))"

definition cor_resume ::
  "('p \<Rightarrow> 's \<Rightarrow> ('s \<times> ('p, 'e) outcome) option) \<Rightarrow> nat \<Rightarrow> ('p, 'e) Ordinator \<Rightarrow> 's \<Rightarrow>
   (('p, 'e) Ordinator \<times> 's \<times> ('e + bool)) option" where
  "cor_resume run i m s =
     (if r_finished (routines m ! i) then Some (m, s, Inr False)
      else case switch_to run i (m\<lparr>current := Some i\<rparr>) s of
             None \<Rightarrow> None
           | Some (m, s) \<Rightarrow>
               (case r_exception (routines m ! i) of
                  Some e \<Rightarrow> Some (m, s, Inl e)
                | None \<Rightarrow> Some (m, s, Inr True)))"

definition create_and_run ::
  "('p \<Rightarrow> 's \<Rightarrow> ('s \<times> ('p, 'e) outcome) option) \<Rightarrow> 'p \<Rightarrow> ('p, 'e) Ordinator \<Rightarrow> 's \<Rightarrow>
   (('p, 'e) Ordinator \<times> 's \<times> ('e + bool)) option" where
  "create_and_run run f m s = (let (m, i) = cor_create f m in cor_resume run i m s)"

section \<open>Running to the end\<close>

text \<open>The function as if it were called directly: its yields are no-ops. \<^verbatim>\<open>n\<close> bounds them.\<close>

fun run_through ::
  "('p \<Rightarrow> 's \<Rightarrow> ('s \<times> ('p, 'e) outcome) option) \<Rightarrow> nat \<Rightarrow> 'p \<Rightarrow> 's \<Rightarrow> ('s \<times> 'e option) option" where
  "run_through run n pt s =
     (case run pt s of
        None \<Rightarrow> None
      | Some (s, Returned) \<Rightarrow> if n = 0 then Some (s, None) else None
      | Some (s, Threw e) \<Rightarrow> if n = 0 then Some (s, Some e) else None
      | Some (s, Yielded pt) \<Rightarrow> (case n of 0 \<Rightarrow> None | Suc n \<Rightarrow> run_through run n pt s))"

declare run_through.simps [simp del]

text \<open>As many calls of \<^verbatim>\<open>resume\<close> on one routine as the list has results, in that order.\<close>

fun resumes ::
  "('p \<Rightarrow> 's \<Rightarrow> ('s \<times> ('p, 'e) outcome) option) \<Rightarrow> nat \<Rightarrow> nat \<Rightarrow> ('p, 'e) Ordinator \<Rightarrow> 's \<Rightarrow>
   (('p, 'e) Ordinator \<times> 's \<times> ('e + bool) list) option" where
  "resumes run i 0 m s = Some (m, s, [])"
| "resumes run i (Suc n) m s =
     (case cor_resume run i m s of
        None \<Rightarrow> None
      | Some (m, s, r) \<Rightarrow>
          (case resumes run i n m s of None \<Rightarrow> None | Some (m, s, rs) \<Rightarrow> Some (m, s, r # rs)))"

lemma upd_nth [simp]: "i < length (routines m) \<Longrightarrow> routines (upd i f m) ! i = f (routines m ! i)"
  "length (routines (upd i f m)) = length (routines m)" "finished (upd i f m) = finished m"
  "current (upd i f m) = current m"
  by (simp_all add: upd_def)

text \<open>
  A routine that has yielded runs on to its end: each resume but the last returns \<^verbatim>\<open>true\<close>, and
  the last runs the function's return or rethrows its exception.
\<close>

lemma resumes_run_through:
  assumes "i < length (routines m)" "r_ctx (routines m ! i) = At pt" "\<not> r_finished (routines m ! i)"
    "r_exception (routines m ! i) = None" "run_through run n pt s = Some (s', x)"
  shows "\<exists>m'. resumes run i (Suc n) m s = Some (m', s', replicate n (Inr True) @
      [case x of None \<Rightarrow> Inr True | Some e \<Rightarrow> Inl e]) \<and>
    length (routines m') = length (routines m) \<and> finished m' = finished m \<and> current m' = Some i \<and>
    r_ctx (routines m' ! i) = AtEnd \<and> \<not> r_finished (routines m' ! i) \<and> r_exception (routines m' ! i) = x"
  using assms
proof (induction n arbitrary: m pt s)
  case 0
  then obtain s1 o1 where run: "run pt s = Some (s1, o1)"
    by (auto simp: run_through.simps[of _ 0] split: option.splits)
  show ?case
    using 0 run by (cases o1) (auto simp: run_through.simps[of _ 0] cor_resume_def switch_to_def)
next
  case (Suc n)
  then obtain s1 pt1 where run: "run pt s = Some (s1, Yielded pt1)" "run_through run n pt1 s1 = Some (s', x)"
    by (auto simp: run_through.simps[of _ "Suc n"] split: option.splits outcome.splits)
  let ?m = "(upd i (\<lambda>r. r\<lparr>r_ctx := At pt1\<rparr>) (m\<lparr>current := Some i\<rparr>))\<lparr>current := None\<rparr>"
  have m: "i < length (routines ?m)" "r_ctx (routines ?m ! i) = At pt1" "\<not> r_finished (routines ?m ! i)"
      "r_exception (routines ?m ! i) = None" "length (routines ?m) = length (routines m)" "finished ?m = finished m"
    using Suc.prems by simp_all
  have "cor_resume run i m s = Some (?m, s1, Inr True)"
    using Suc.prems run(1) by (simp add: cor_resume_def switch_to_def)
  then show ?case using Suc.IH[OF m(1-4) run(2)] m(5,6)
    by (auto simp del: resumes.simps simp add: resumes.simps(2)[of _ _ "Suc n"])
qed

text \<open>The bookkeeping of a routine whose function is done.\<close>

definition retire :: "nat \<Rightarrow> ('p, 'e) Ordinator \<Rightarrow> ('p, 'e) Ordinator" where
  "retire i m = (upd i (\<lambda>r. r\<lparr>r_finished := True\<rparr>) m)\<lparr>current := None, finished := finished m @ [i]\<rparr>"

lemma resume_at_end:
  assumes "i < length (routines m)" "r_ctx (routines m ! i) = AtEnd" "\<not> r_finished (routines m ! i)"
  shows "cor_resume run i m s = Some (retire i m, s, case r_exception (routines m ! i) of
      None \<Rightarrow> Inr True | Some e \<Rightarrow> Inl e)"
  using assms by (simp add: cor_resume_def switch_to_def retire_def Let_def upd_def split: option.splits)

lemma resume_retired:
  "i < length (routines m) \<Longrightarrow> cor_resume run i (retire i m) s = Some (retire i m, s, Inr False)"
  by (simp add: cor_resume_def retire_def)

lemma retire_facts [simp]: "finished (retire i m) = finished m @ [i]" "current (retire i m) = None"
  by (simp_all add: retire_def)

lemma create_facts:
  assumes "cor_create f m = (m', i)" "\<forall>j\<in>set (finished m). j < length (routines m)"
  shows "i < length (routines m')" "r_ctx (routines m' ! i) = At f" "\<not> r_finished (routines m' ! i)"
    "r_exception (routines m' ! i) = None" "current m' = current m"
    "length (routines m') = (if finished m = [] then Suc (length (routines m)) else length (routines m))"
    "finished m' = tl (finished m)"
  using assms by (auto simp: cor_create_def Routine_new_def Routine_reset_def split: list.splits)

section \<open>Properties\<close>

text \<open>
  C36: Resuming a routine to its end is calling its function. When the function, called with
  yields that do nothing, would yield \<^verbatim>\<open>n\<close> times and then return or throw, \<^verbatim>\<open>n + 1\<close> calls
  of \<^verbatim>\<open>resume\<close> on a new or reused routine do to the program what the call does, the last of
  them rethrowing the exception. The routine is then not yet finished and still current: one
  call more, which runs nothing, reports the same again and hands the routine back for reuse,
  and only from then on \<^verbatim>\<open>resume\<close> returns \<^verbatim>\<open>false\<close>.
\<close>

theorem resumes_equal_call:
  assumes "cor_create f m = (m1, i)" "\<forall>j\<in>set (finished m). j < length (routines m)"
    and "run_through run n f s = Some (s', x)"
  shows "\<exists>m2 m3. resumes run i (Suc n) m1 s = Some (m2, s', replicate n (Inr True) @
      [case x of None \<Rightarrow> Inr True | Some e \<Rightarrow> Inl e]) \<and>
    finished m2 = tl (finished m) \<and> current m2 = Some i \<and>
    (\<forall>s2. cor_resume run i m2 s2 = Some (m3, s2, case x of None \<Rightarrow> Inr True | Some e \<Rightarrow> Inl e)) \<and>
    finished m3 = finished m2 @ [i] \<and> current m3 = None \<and>
    (\<forall>s3. cor_resume run i m3 s3 = Some (m3, s3, Inr False))"
proof -
  note c = create_facts[OF assms(1,2)]
  obtain m2 where m2: "resumes run i (Suc n) m1 s = Some (m2, s', replicate n (Inr True) @
      [case x of None \<Rightarrow> Inr True | Some e \<Rightarrow> Inl e])"
    "length (routines m2) = length (routines m1)" "finished m2 = finished m1" "current m2 = Some i"
    "r_ctx (routines m2 ! i) = AtEnd" "\<not> r_finished (routines m2 ! i)" "r_exception (routines m2 ! i) = x"
    using resumes_run_through[OF c(1-4) assms(3)] by blast
  have i: "i < length (routines m2)" using c(1) m2(2) by simp
  show ?thesis
    using m2 resume_at_end[OF i m2(5,6), of run] resume_retired[OF i, of run] c(7)
    by (intro exI[of _ m2] exI[of _ "retire i m2"]) simp
qed

text \<open>A function of three points that yields twice and logs what it does.\<close>

definition sample_run :: "nat \<Rightarrow> nat list \<Rightarrow> (nat list \<times> (nat, nat) outcome) option" where
  "sample_run pt s = Some (s @ [pt], if pt < 2 then Yielded (Suc pt) else Returned)"

theorem resumes_equal_call_witness:
  "\<exists>m2. resumes sample_run 0 3 (fst (cor_create 0 Ordinator_new)) [] =
    Some (m2, [0, 1, 2], [Inr True, Inr True, Inr True]) \<and> finished m2 = []"
proof -
  have "cor_create 0 Ordinator_new = (fst (cor_create 0 Ordinator_new :: (nat, nat) Ordinator \<times> nat), 0)"
    by (simp add: cor_create_def Ordinator_new_def)
  moreover have "run_through sample_run 2 0 [] = Some ([0, 1, 2], None)" by code_simp
  ultimately show ?thesis
    using resumes_equal_call[of 0 Ordinator_new _ 0 sample_run 2 "[]" "[0, 1, 2]" None]
    by (fastforce simp: Ordinator_new_def numeral_2_eq_2 numeral_3_eq_3)
qed

end
