(* ===== verification/Cor_Service.thy ===== *)
theory Cor_Service
  imports Http_Worker Coroutine
begin

text \<open>
  \<^verbatim>\<open>7.cor/lib/corservice.cpp\<close> and \<^verbatim>\<open>corconnection.cpp\<close>: the service whose workers serve each
  connection in a routine.

  A \<^verbatim>\<open>CorConnection\<close> is an \<^verbatim>\<open>HttpConnection\<close> with a pointer to a routine. The methods of the
  service repeat the text of those of \<^verbatim>\<open>HttpService\<close> with \<^verbatim>\<open>CorConnection(cn, nullptr)\<close> for
  \<^verbatim>\<open>HttpConnection(cn)\<close>; the state is that service's, and the routine pointers of the
  connections by their places.
\<close>

section \<open>State\<close>

record CorService =
  http_part :: HttpService
  p_rout :: "nat option list"

definition CorService_new :: "nat \<Rightarrow> nat \<Rightarrow> CorService" where
  "CorService_new connection_timeout_sec keep_alive_timeout_sec =
     \<lparr>http_part = HttpService_new connection_timeout_sec keep_alive_timeout_sec, p_rout = []\<rparr>"

definition set_routine :: "nat \<Rightarrow> nat option \<Rightarrow> CorService \<Rightarrow> CorService" where
  "set_routine p r cs = cs\<lparr>p_rout := (p_rout cs)[p := r]\<rparr>"

definition routine :: "nat \<Rightarrow> CorService \<Rightarrow> nat option" where
  "routine p cs = p_rout cs ! p"

section \<open>The operations\<close>

definition cor_try_replace ::
  "NonBlockConnection \<Rightarrow> nat \<Rightarrow> CorService \<Rightarrow> (CorService \<times> nat option) option" where
  "cor_try_replace cn now cs =
     (case try_replace_closed_with_new_conn cn now (http_part cs) of
        None \<Rightarrow> None
      | Some (sv, None) \<Rightarrow> Some (cs, None)
      | Some (sv, Some p) \<Rightarrow> Some (set_routine p None (cs\<lparr>http_part := sv\<rparr>), Some p))"

definition cor_emplace :: "NonBlockConnection \<Rightarrow> nat \<Rightarrow> CorService \<Rightarrow> (CorService \<times> nat) option" where
  "cor_emplace cn now cs =
     (case cor_try_replace cn now cs of
        None \<Rightarrow> None
      | Some (cs, Some p) \<Rightarrow> Some (cs, p)
      | Some (cs, None) \<Rightarrow>
          let p = length (connections (http_part cs));
              sv = (http_part cs)\<lparr>connections := connections (http_part cs) @
                [\<lparr>u_conn = HttpConnection_new cn now, timeout_iter = None\<rparr>]\<rparr>;
              sv = push_place p sv;
              sv = set_iter (snd (last (timeod sv))) (fst (last (timeod sv))) sv
          in Some (\<lparr>http_part = sv, p_rout = p_rout cs @ [None]\<rparr>, snd (last (timeod sv))))"

definition cor_close_if_timed_out :: "nat \<Rightarrow> nat \<Rightarrow> CorService \<Rightarrow> CorService \<times> bool" where
  "cor_close_if_timed_out p now cs =
     (let (sv, b) = close_if_timed_out p now (http_part cs) in (cs\<lparr>http_part := sv\<rparr>, b))"

text \<open>
  The virtual call in the inherited \<^verbatim>\<open>dump_timed_out_connections\<close> reaches the method above,
  which leaves the routine pointers alone.
\<close>

definition cor_dump :: "nat \<Rightarrow> CorService \<Rightarrow> CorService" where
  "cor_dump now cs = cs\<lparr>http_part := dump_timed_out_connections now (http_part cs)\<rparr>"

definition CorService_turn ::
  "tcp_error + NonBlockConnection \<Rightarrow> bool \<Rightarrow> nat \<Rightarrow> CorService \<Rightarrow>
   (CorService \<times> (tcp_error + unit)) option" where
  "CorService_turn accepted epoll_add now cs =
     (case accepted of
        Inl (TimeOutError e) \<Rightarrow> Some (cor_dump now cs, Inr ())
      | Inl e \<Rightarrow> Some (cs, Inl e)
      | Inr cn \<Rightarrow>
          (case cor_emplace cn now cs of
             None \<Rightarrow> None
           | Some (cs, p) \<Rightarrow>
               let sv = http_part cs;
                   sv = set_conn p ((conn_at sv p)
                     \<lparr>epoll_option := opt_plus OPTION_READ OPTION_ET_ONESHOT\<rparr>) sv
               in Some (cor_dump now (cs\<lparr>http_part := sv\<rparr>), Inr ())))"

text \<open>Here the number of workers is not looked at.\<close>

definition cor_activate_workers :: "nat \<Rightarrow> nat list" where
  "cor_activate_workers workers_size = [0..<workers_size]"

fun CorService_turns ::
  "((tcp_error + NonBlockConnection) \<times> bool \<times> nat) list \<Rightarrow> CorService \<Rightarrow>
   (CorService \<times> (run_error + unit)) option" where
  "CorService_turns [] cs = Some (cs, Inr ())"
| "CorService_turns ((accepted, epoll_add, now) # turns) cs =
     (case CorService_turn accepted epoll_add now cs of
        None \<Rightarrow> None
      | Some (cs, Inl e) \<Rightarrow> Some (cs, Inl (TcpError e))
      | Some (cs, Inr _) \<Rightarrow> CorService_turns turns cs)"

definition CorService_run ::
  "bool \<Rightarrow> nat \<Rightarrow> ((tcp_error + NonBlockConnection) \<times> bool \<times> nat) list \<Rightarrow> CorService \<Rightarrow>
   (CorService \<times> (run_error + unit)) option" where
  "CorService_run listener_set workers_size turns cs =
     (if \<not> listener_set then Some (cs, Inl ListenerError)
      else let threads = cor_activate_workers workers_size in CorService_turns turns cs)"

section \<open>The service underneath\<close>

text \<open>The inherited state goes through the operations of \<^verbatim>\<open>HttpService\<close>.\<close>

lemma cor_emplace_http:
  "map_option (\<lambda>(cs, p). (http_part cs, p)) (cor_emplace cn now cs) =
    emplace_connection cn now (http_part cs)"
  by (auto simp: cor_emplace_def cor_try_replace_def emplace_connection_def
      try_replace_closed_with_new_conn_def set_routine_def Let_def split: option.splits list.splits)

lemma CorService_turn_http:
  "map_option (\<lambda>(cs, r). (http_part cs, r)) (CorService_turn acc add now cs) =
    HttpService_turn acc add now (http_part cs)"
proof (cases acc)
  case (Inl e)
  then show ?thesis by (cases e) (simp_all add: CorService_turn_def HttpService_turn_def cor_dump_def)
next
  case (Inr cn)
  show ?thesis
    using cor_emplace_http[of cn now cs] Inr
    by (cases "cor_emplace cn now cs")
      (auto simp: CorService_turn_def HttpService_turn_def cor_dump_def Let_def split: option.splits)
qed

lemma CorService_turns_http:
  "map_option (\<lambda>(cs, r). (http_part cs, r)) (CorService_turns turns cs) =
    HttpService_turns turns (http_part cs)"
proof (induction turns cs rule: CorService_turns.induct)
  case (2 acc add now turns cs)
  show ?case
  proof (cases "CorService_turn acc add now cs")
    case None
    then show ?thesis using CorService_turn_http[of acc add now cs] by simp
  next
    case (Some y)
    obtain cs' r where y: "y = (cs', r)" by (cases y)
    have "HttpService_turn acc add now (http_part cs) = Some (http_part cs', r)"
      using CorService_turn_http[of acc add now cs] Some y by simp
    then show ?thesis using Some y "2.IH" by (cases r) auto
  qed
qed simp

text \<open>The server loops of the two services are the same on the inherited state.\<close>

lemma CorService_run_http:
  assumes "0 < n"
  shows "map_option (\<lambda>(cs, r). (http_part cs, r)) (CorService_run l n turns cs) =
    HttpService_run l n turns (http_part cs)"
  using assms by (simp add: CorService_run_def HttpService_run_def activate_workers_def CorService_turns_http)

end
