(* ===== verification/Cor_Worker.thy ===== *)
theory Cor_Worker
  imports Cor_Service
begin

text \<open>
  \<^verbatim>\<open>7.cor/lib/corworker.cpp\<close>: a worker that serves each connection in a routine.

  \<^verbatim>\<open>serve_client\<close> yields in three places, in \<^verbatim>\<open>try_read_request\<close> when the request is
  incomplete, behind the call of the listener, and in \<^verbatim>\<open>try_write_responce\<close> when not everything
  could be written. The points it goes on from are its start, the loop of reading and the loop of
  writing. The methods that repeat the text of \<^verbatim>\<open>HttpWorker\<close> on this service are shown to be
  those of \<^verbatim>\<open>HttpWorker\<close> on the service underneath; the two inner loops are its definitions. A
  dangling iterator, which is undefined behaviour, is an outcome of its own among the exceptions.
  The loop of a worker is stated for one worker here, and for several in \<^verbatim>\<open>Cor_Threads\<close>.
\<close>

datatype point = Serve | Reading | Writing

type_synonym 'w cor_listener = "Request \<Rightarrow> 'w \<Rightarrow> 'w \<times> Responce"
type_synonym 'w segment = "(('w \<times> CorService) \<times> (nat \<times> point, worker_error) outcome) option"

section \<open>The worker's own methods\<close>

definition cor_is_keep_alive :: "Header list \<Rightarrow> bool" where
  "cor_is_keep_alive headers =
     (case List.find (\<lambda>h. header_name h = ''Connection'') headers of
        None \<Rightarrow> False
      | Some h \<Rightarrow> find_str ''Keep-Alive'' (header_value h) \<noteq> None)"

definition shift_to_back :: "nat option \<Rightarrow> HttpService \<Rightarrow> HttpService option" where
  "shift_to_back iter sv =
     (case splice_to_end iter (timeod sv) of
        None \<Rightarrow> None
      | Some cont \<Rightarrow> Some (set_iter (snd (last cont)) (fst (last cont)) (sv\<lparr>timeod := cont\<rparr>)))"

definition cor_reset_last_activity_time :: "nat \<Rightarrow> nat \<Rightarrow> CorService \<Rightarrow> CorService option" where
  "cor_reset_last_activity_time p now cs =
     (let sv = http_part cs;
          sv = set_conn p (reset_time_of_last_activity now (conn_at sv p)) sv
      in map_option (\<lambda>sv. cs\<lparr>http_part := sv\<rparr>) (shift_to_back (timeout_iter (connections sv ! p)) sv))"

definition cor_close_client :: "nat \<Rightarrow> CorService \<Rightarrow> CorService" where
  "cor_close_client p cs =
     (let sv = http_part cs; c = conn_at sv p
      in if is_open c
         then let sv = sv\<lparr>closed_places := closed_places sv @ [p]\<rparr>
              in cs\<lparr>http_part := set_conn p (fst (Http_close c)) sv\<rparr>
         else cs)"

definition cor_subscribe ::
  "'w worker_env \<Rightarrow> nat \<Rightarrow> OPTION \<Rightarrow> CorService \<Rightarrow> 'w \<Rightarrow> 'w \<times> CorService \<times> (worker_error + unit)" where
  "cor_subscribe env p opt cs w =
     (let c = conn_at (http_part cs) p;
          sv = set_conn p (c\<lparr>epoll_option :=
            opt_plus (opt_plus (epoll_option c) opt) OPTION_ET_ONESHOT\<rparr>) (http_part cs);
          (w, sv, r) = EPoll_mod env p sv w
      in (w, cs\<lparr>http_part := sv\<rparr>, r))"

definition cor_unsubscribe ::
  "'w worker_env \<Rightarrow> nat \<Rightarrow> OPTION \<Rightarrow> CorService \<Rightarrow> 'w \<Rightarrow> 'w \<times> CorService \<times> (worker_error + unit)" where
  "cor_unsubscribe env p opt cs w =
     (let c = conn_at (http_part cs) p;
          sv = set_conn p (c\<lparr>epoll_option :=
            opt_plus (opt_minus (epoll_option c) opt) OPTION_ET_ONESHOT\<rparr>) (http_part cs);
          (w, sv, r) = EPoll_mod env p sv w
      in (w, cs\<lparr>http_part := sv\<rparr>, r))"

lemma cor_is_keep_alive_eq [simp]: "cor_is_keep_alive = is_keep_alive"
  by (simp add: fun_eq_iff cor_is_keep_alive_def is_keep_alive_def)

lemma cor_reset_eq [simp]:
  "cor_reset_last_activity_time p now cs =
    map_option (\<lambda>sv. cs\<lparr>http_part := sv\<rparr>) (reset_last_activity_time p now (http_part cs))"
  by (auto simp: cor_reset_last_activity_time_def reset_last_activity_time_def shift_to_back_def Let_def
      split: option.splits)

lemma cor_close_client_eq [simp]: "cor_close_client p cs = cs\<lparr>http_part := close_client p (http_part cs)\<rparr>"
  by (simp add: cor_close_client_def close_client_def Let_def update_place_def)

lemma cor_subscribe_eq [simp]:
  "cor_subscribe env p opt cs w =
    (case worker_subscribe env p opt (http_part cs) w of (w, sv, r) \<Rightarrow> (w, cs\<lparr>http_part := sv\<rparr>, r))"
  "cor_unsubscribe env p opt cs w =
    (case worker_unsubscribe env p opt (http_part cs) w of (w, sv, r) \<Rightarrow> (w, cs\<lparr>http_part := sv\<rparr>, r))"
  by (simp_all add: cor_subscribe_def cor_unsubscribe_def worker_subscribe_def worker_unsubscribe_def Let_def)

text \<open>Results of a method that may throw, in the routine of the place \<^verbatim>\<open>p\<close>.\<close>

definition in_routine ::
  "'w \<times> CorService \<times> (worker_error + unit) \<Rightarrow> ('w \<Rightarrow> CorService \<Rightarrow> 'w segment) \<Rightarrow> 'w segment" where
  "in_routine r k =
     (case r of
        (w, cs, Inl e) \<Rightarrow> Some ((w, cs), Threw e)
      | (w, cs, Inr _) \<Rightarrow> k w cs)"

section \<open>Writing the response\<close>

text \<open>The end of \<^verbatim>\<open>serve_client\<close>, behind the result of \<^verbatim>\<open>try_write_responce\<close>.\<close>

definition serve_end :: "'w worker_env \<Rightarrow> nat \<Rightarrow> 'w \<Rightarrow> CorService \<Rightarrow> 'w segment" where
  "serve_end env p w cs =
     (if epoll_option (conn_at (http_part cs) p) = OPTION_ET_ONESHOT
      then Some ((w, cor_close_client p cs), Returned)
      else let cs = set_routine p None cs
        in in_routine (cor_subscribe env p OPTION_UNKNOWN cs w) (\<lambda>w cs. Some ((w, cs), Returned)))"

definition serve_writing :: "'w worker_env \<Rightarrow> nat \<Rightarrow> 'w \<Rightarrow> CorService \<Rightarrow> 'w segment" where
  "serve_writing env p w cs =
     (case write_responces (env_write env) (conn_at (http_part cs) p) w of
        None \<Rightarrow> None
      | Some (w, c, end) \<Rightarrow>
          let cs = cs\<lparr>http_part := set_conn p c (http_part cs)\<rparr>
          in case end of
               Finished \<Rightarrow> in_routine (cor_unsubscribe env p OPTION_WRITE cs w) (serve_end env p)
             | Raised (TimeOutError e) \<Rightarrow>
                 if b_write c \<noteq> []
                 then in_routine (cor_subscribe env p OPTION_WRITE cs w)
                        (\<lambda>w cs. Some ((w, cs), Yielded (p, Writing)))
                 else serve_end env p w cs
             | Raised (DescriptorError e) \<Rightarrow> serve_end env p w (cor_close_client p cs)
             | Raised e \<Rightarrow> Some ((w, cs), Threw (Uncaught e)))"

section \<open>Reading the request\<close>

text \<open>
  From the request to the first yield. The moved-from request stays in the connection, where it
  is assigned again before it is read.
\<close>

definition serve_request ::
  "'w worker_env \<Rightarrow> 'w cor_listener \<Rightarrow> nat \<Rightarrow> 'w \<Rightarrow> CorService \<Rightarrow> 'w segment" where
  "serve_request env OnRequest p w cs =
     (let c = conn_at (http_part cs) p;
          (w, res) = OnRequest (h_req c) w;
          c = (Http_write res c)\<lparr>b_read := []\<rparr>;
          cs = cs\<lparr>http_part := set_conn p c (http_part cs)\<rparr>;
          write = (\<lambda>w cs. in_routine (cor_subscribe env p OPTION_WRITE cs w)
            (\<lambda>w cs. Some ((w, cs), Yielded (p, Writing))))
      in if \<not> keep_alive c
         then in_routine (cor_unsubscribe env p OPTION_READ cs w) write
         else write w cs)"

definition serve_reading ::
  "'w worker_env \<Rightarrow> 'w cor_listener \<Rightarrow> nat \<Rightarrow> 'w \<Rightarrow> CorService \<Rightarrow> 'w segment" where
  "serve_reading env OnRequest p w cs =
     (case read_requests (env_read env) (conn_at (http_part cs) p) w of
        None \<Rightarrow> None
      | Some (w, c, end) \<Rightarrow>
          let cs = cs\<lparr>http_part := set_conn p c (http_part cs)\<rparr>
          in case end of
               Finished \<Rightarrow> Some ((w, cor_close_client p cs), Returned)
             | Raised (DescriptorError e) \<Rightarrow> Some ((w, cor_close_client p cs), Returned)
             | Raised (TimeOutError e) \<Rightarrow>
                 (case Request_new (b_read c) of
                    Inr req \<Rightarrow> serve_request env OnRequest p w
                      (cs\<lparr>http_part := set_conn p (c\<lparr>keep_alive := cor_is_keep_alive (m_headers req),
                         h_req := req\<rparr>) (http_part cs)\<rparr>)
                  | Inl (ExpectingData exd) \<Rightarrow>
                      in_routine (cor_subscribe env p OPTION_READ cs w)
                        (\<lambda>w cs. Some ((w, cs), Yielded (p, Reading)))
                  | Inl (IncorrectData ind) \<Rightarrow> Some ((w, cor_close_client p cs), Returned)
                  | Inl Undefined_Behaviour \<Rightarrow> Some ((w, cs), Threw ParserUndefined))
             | Raised e \<Rightarrow> Some ((w, cs), Threw (Uncaught e)))"

section \<open>The routine and the worker\<close>

definition serve_client ::
  "'w worker_env \<Rightarrow> 'w cor_listener \<Rightarrow> nat \<Rightarrow> nat \<times> point \<Rightarrow> 'w \<times> CorService \<Rightarrow> 'w segment" where
  "serve_client env OnRequest now pt s =
     (let (p, pos) = pt; (w, cs) = s
      in case pos of
           Serve \<Rightarrow>
             (case cor_reset_last_activity_time p now cs of
                None \<Rightarrow> Some ((w, cs), Threw DanglingIterator)
              | Some cs \<Rightarrow> serve_reading env OnRequest p w cs)
         | Reading \<Rightarrow> serve_reading env OnRequest p w cs
         | Writing \<Rightarrow> serve_writing env p w cs)"

text \<open>The body of the loop over the events: one event on the place \<^verbatim>\<open>p\<close> at the time \<^verbatim>\<open>now\<close>.\<close>

definition cor_worker_event ::
  "'w worker_env \<Rightarrow> 'w cor_listener \<Rightarrow> nat \<Rightarrow> nat \<Rightarrow> (nat \<times> point, worker_error) Ordinator \<Rightarrow>
   'w \<times> CorService \<Rightarrow>
   ((nat \<times> point, worker_error) Ordinator \<times> ('w \<times> CorService) \<times> (worker_error + bool)) option" where
  "cor_worker_event env OnRequest p now m s =
     (case routine p (snd s) of
        Some i \<Rightarrow> cor_resume (serve_client env OnRequest now) i m s
      | None \<Rightarrow>
          let (m, i) = cor_create (p, Serve) m
          in cor_resume (serve_client env OnRequest now) i m (fst s, set_routine p (Some i) (snd s)))"

text \<open>
  The events of one \<^verbatim>\<open>epoll_wait\<close>, each a place and the time it is handled; an exception, also one
  that crosses \<^verbatim>\<open>resume\<close>, leaves the loop.
\<close>

fun cor_worker_events ::
  "'w worker_env \<Rightarrow> 'w cor_listener \<Rightarrow> (nat \<times> nat) list \<Rightarrow> (nat \<times> point, worker_error) Ordinator \<Rightarrow>
   'w \<times> CorService \<Rightarrow>
   ((nat \<times> point, worker_error) Ordinator \<times> ('w \<times> CorService) \<times> (worker_error + unit)) option" where
  "cor_worker_events env OnRequest [] m s = Some (m, s, Inr ())"
| "cor_worker_events env OnRequest ((p, now) # es) m s =
     (case cor_worker_event env OnRequest p now m s of
        None \<Rightarrow> None
      | Some (m, s, Inl e) \<Rightarrow> Some (m, s, Inl e)
      | Some (m, s, Inr _) \<Rightarrow> cor_worker_events env OnRequest es m s)"

text \<open>\<^verbatim>\<open>work\<close>: as the worker of \<^verbatim>\<open>6.http\<close>, with what the thread of \<^verbatim>\<open>run\<close> does during a wait.\<close>

partial_function (option) CoroutineWorker_work ::
  "'w worker_env \<Rightarrow> 'w cor_listener \<Rightarrow> 'w epoll_wait \<Rightarrow> ('w \<Rightarrow> epoll_event list \<Rightarrow> (nat \<times> nat) list) \<Rightarrow>
   ('w \<Rightarrow> CorService \<Rightarrow> CorService) \<Rightarrow> (nat \<times> point, worker_error) Ordinator \<Rightarrow> 'w \<times> CorService \<Rightarrow>
   ((nat \<times> point, worker_error) Ordinator \<times> ('w \<times> CorService) \<times> (worker_error + unit)) option" where
  "CoroutineWorker_work env OnRequest wait stamp others m s =
     (case EPoll_wait wait (env_epoll env) (fst s) of
        (w, Inl (EPollException errno)) \<Rightarrow> Some (m, (w, others w (snd s)), Inl (EPollError errno))
      | (w, Inr evs) \<Rightarrow>
          (case cor_worker_events env OnRequest (stamp w evs) m (w, others w (snd s)) of
             None \<Rightarrow> None
           | Some (m, s, Inl e) \<Rightarrow> Some (m, s, Inl e)
           | Some (m, s, Inr _) \<Rightarrow> CoroutineWorker_work env OnRequest wait stamp others m s))"

lemma cor_work_ends_by_exception:
  assumes "CoroutineWorker_work env OnRequest wait stamp others m s = Some (m', s', r)"
  shows "\<exists>e. r = Inl e"
proof -
  have "\<exists>e. snd (snd y) = Inl e" if "CoroutineWorker_work env OnRequest wait stamp others m s = Some y" for y
    by (rule CoroutineWorker_work.raw_induct[where
          P = "\<lambda>env OnRequest wait stamp others m s y. \<exists>e. snd (snd y) = Inl e", OF _ that])
      (fastforce split: prod.splits sum.splits option.splits epoll_error.splits)
  from this[OF assms] show ?thesis by simp
qed

end
