(* ===== verification/Cor_Worker_Props.thy ===== *)
theory Cor_Worker_Props
  imports Cor_Worker Http_Worker_Props
begin

text \<open>
  What the coroutine server does that the other server does not: it has undefined behaviour on an
  event of a connection that has timed out. And the laws of subscribing and resuming that its
  sessions rest on.
\<close>

section \<open>A place without a node\<close>

lemma reset_without_node:
  assumes "service_inv t sv" "p < places sv" "p \<notin> snd ` set (timeod sv)"
  shows "reset_last_activity_time p now sv = None" "\<not> is_open (conn_at sv p)"
proof -
  have n: "nodes_inv sv" using assms(1) by (simp add: service_inv_def)
  show "\<not> is_open (conn_at sv p)" using open_node[OF n assms(2)] assms(3) by force
  let ?sv = "set_conn p (reset_time_of_last_activity now (conn_at sv p)) sv"
  have "n \<notin> fst ` set (timeod sv)" if "iter_at sv p = Some n" for n
  proof
    assume "n \<in> fst ` set (timeod sv)"
    then obtain q where q: "(n, q) \<in> set (timeod sv)" by auto
    then have "q < places sv" "iter_at sv q = Some n" using n by (auto simp: nodes_inv_def)
    then have "q = p" using nodes_iter_inj[OF n assms(2)] that by blast
    with q assms(3) show False by force
  qed
  then have "splice_to_end (iter_at ?sv p) (timeod ?sv) = None" by (simp add: splice_None)
  then show "reset_last_activity_time p now sv = None"
    by (simp add: reset_last_activity_time_def iter_at_def)
qed

section \<open>Subscriptions in a routine\<close>

lemma unsubscribe_ok:
  assumes "epoll_ok env (d_fd (c_socket (conn_at sv p))) watched" "watched w" "p < places sv"
  shows "\<exists>w'. worker_unsubscribe env p opt sv w = (w', set_conn p ((conn_at sv p)\<lparr>epoll_option :=
    opt_plus (opt_minus (epoll_option (conn_at sv p)) opt) OPTION_ET_ONESHOT\<rparr>) sv, Inr ()) \<and>
    w' = fst (env_epoll_mod env p (d_fd (c_socket (conn_at sv p)))
      (opt_plus (opt_minus (epoll_option (conn_at sv p)) opt) OPTION_ET_ONESHOT) w) \<and> watched w'"
proof -
  let ?c = "(conn_at sv p)\<lparr>epoll_option :=
    opt_plus (opt_minus (epoll_option (conn_at sv p)) opt) OPTION_ET_ONESHOT\<rparr>"
  obtain w' where "env_epoll_mod env p (d_fd (c_socket ?c)) (epoll_option ?c) w = (w', Inr ())" "watched w'"
    using epoll_okD(4)[OF assms(1,2), of p "epoll_option ?c"] by auto
  then show ?thesis using assms(3) by (simp add: worker_unsubscribe_def EPoll_mod_eq Let_def)
qed

section \<open>Resuming\<close>

lemma resume_yielding:
  assumes "i < length (routines m)" "r_ctx (routines m ! i) = At pt" "\<not> r_finished (routines m ! i)"
    "r_exception (routines m ! i) = None" "run pt s = Some (s', Yielded pt')"
  shows "\<exists>m'. cor_resume run i m s = Some (m', s', Inr True) \<and> r_ctx (routines m' ! i) = At pt' \<and>
    \<not> r_finished (routines m' ! i) \<and> r_exception (routines m' ! i) = None \<and>
    length (routines m') = length (routines m) \<and> finished m' = finished m"
  using assms by (simp add: cor_resume_def switch_to_def)

lemma resume_returning:
  assumes "i < length (routines m)" "r_ctx (routines m ! i) = At pt" "\<not> r_finished (routines m ! i)"
    "r_exception (routines m ! i) = None" "run pt s = Some (s', Returned)"
  shows "\<exists>m'. cor_resume run i m s = Some (m', s', Inr True) \<and>
    length (routines m') = length (routines m) \<and> finished m' = finished m"
  using assms by (simp add: cor_resume_def switch_to_def)

lemma resume_throwing:
  assumes "i < length (routines m)" "r_ctx (routines m ! i) = At pt" "\<not> r_finished (routines m ! i)"
    "r_exception (routines m ! i) = None" "run pt s = Some (s', Threw e)"
  shows "\<exists>m'. cor_resume run i m s = Some (m', s', Inl e)"
  using assms by (simp add: cor_resume_def switch_to_def)

section \<open>Property\<close>

text \<open>
  C37: An event that comes late is undefined behaviour. When a connection without a routine has
  timed out, its node has left the activity list; an event for it that was already fetched
  starts a routine, which splices the dangling iterator: unlike the other worker, which passes
  over the place, this one does not look whether the socket is valid.
\<close>

theorem late_event_undefined:
  assumes "service_reachable ct kt (t, http_part cs)" "p < length (connections (http_part cs))"
    and "p \<notin> snd ` set (timeod (http_part cs))" "routine p cs = None"
    and "\<forall>j\<in>set (finished m). j < length (routines m)"
  shows "(\<exists>m' s'. cor_worker_event env lis p now m (w, cs) = Some (m', s', Inl DanglingIterator)) \<and>
    worker_event env p evs now (http_part cs) w = Some (w, http_part cs, Inr False)"
proof -
  have p: "p < places (http_part cs)" using assms(2) by (simp add: places_def)
  note r = reset_without_node[OF service_reachable_inv[OF assms(1)] p assms(3)]
  obtain m0 i where cr: "cor_create (p, Serve) m = (m0, i)" by (cases "cor_create (p, Serve) m")
  note c = create_facts[OF cr assms(5)]
  have "serve_client env lis now (p, Serve) (w, set_routine p (Some i) cs) =
      Some ((w, set_routine p (Some i) cs), Threw DanglingIterator)"
    using r(1) by (simp add: serve_client_def set_routine_def)
  from resume_throwing[where run = "serve_client env lis now", OF c(1-4) this]
  show ?thesis using assms(4) r(2) cr by (auto simp: cor_worker_event_def worker_event_def)
qed

theorem late_event_undefined_witness:
  "\<exists>m' s'. cor_worker_event peer_env (\<lambda>r w. (w, Responce_default)) 0 31 Ordinator_new
      (\<lparr>to_deliver = [], received = []\<rparr>, \<lparr>http_part = one_dumped, p_rout = [None, None]\<rparr>) =
    Some (m', s', Inl DanglingIterator)"
proof -
  have "0 < length (connections one_dumped)" by code_simp
  moreover have "0 \<notin> snd ` set (timeod one_dumped)" by (simp add: one_dumped_eval)
  ultimately show ?thesis
    using late_event_undefined[of 20 60 30 "\<lparr>http_part = one_dumped, p_rout = [None, None]\<rparr>" 0 Ordinator_new
        peer_env "\<lambda>r w. (w, Responce_default)" 31 "\<lparr>to_deliver = [], received = []\<rparr>" 0] one_dumped_reachable
    by (simp add: routine_def Ordinator_new_def)
qed

end
