(* ===== verification/Cor_Session.thy ===== *)
theory Cor_Session
  imports Http_Session Cor_Worker_Props
begin

text \<open>
  The client of \<^verbatim>\<open>Http_Session\<close> served by the coroutine worker of \<^verbatim>\<open>7.cor\<close>: the two events of each
  request are the two segments of one routine. The two workers, one written as a state machine
  over the events and one as a routine that yields, answer it alike.
\<close>

section \<open>The listener and the subscriptions\<close>

text \<open>A listener that answers by \<^verbatim>\<open>respond\<close> and leaves the client alone.\<close>

definition answers ::
  "'w cor_listener \<Rightarrow> ('w \<Rightarrow> bool) \<Rightarrow> ('w \<Rightarrow> string list) \<Rightarrow> ('w \<Rightarrow> string) \<Rightarrow> (Request \<Rightarrow> Responce) \<Rightarrow> bool" where
  "answers lis watched incoming sent respond \<longleftrightarrow>
     (\<forall>r w. \<exists>w'. lis r w = (w', respond r) \<and> sent w' = sent w \<and> incoming w' = incoming w \<and>
        (watched w \<longrightarrow> watched w'))"

lemma client_subscribe:
  assumes "client_of env fd watched incoming sent respond" "d_fd (c_socket (conn_at sv p)) = fd" "p < places sv"
    and "watched w"
  shows "\<exists>w'. worker_subscribe env p opt sv w = (w', set_conn p ((conn_at sv p)\<lparr>epoll_option :=
    opt_plus (opt_plus (epoll_option (conn_at sv p)) opt) OPTION_ET_ONESHOT\<rparr>) sv, Inr ()) \<and>
    sent w' = sent w \<and> incoming w' = incoming w \<and> watched w'"
  using subscribe_ok[where env = env and watched = watched and w = w, OF _ assms(4,3), of opt]
    client_ofD(1,4,5)[OF assms(1)] assms(2) by fastforce

lemma client_unsubscribe:
  assumes "client_of env fd watched incoming sent respond" "d_fd (c_socket (conn_at sv p)) = fd" "p < places sv"
    and "watched w"
  shows "\<exists>w'. worker_unsubscribe env p opt sv w = (w', set_conn p ((conn_at sv p)\<lparr>epoll_option :=
    opt_plus (opt_minus (epoll_option (conn_at sv p)) opt) OPTION_ET_ONESHOT\<rparr>) sv, Inr ()) \<and>
    sent w' = sent w \<and> incoming w' = incoming w \<and> watched w'"
  using unsubscribe_ok[where env = env and watched = watched and w = w, OF _ assms(4,3), of opt]
    client_ofD(1,4,5)[OF assms(1)] assms(2) by fastforce

section \<open>The segment that answers a request\<close>

lemma client_serve_request:
  assumes "client_of env fd watched incoming sent respond" "answers lis watched incoming sent respond"
    and "p < places sv" "is_open (conn_at sv p)" "d_fd (c_socket (conn_at sv p)) = fd"
    and "events (epoll_option (conn_at sv p)) = {0, 30, 31}" "watched w"
  shows "\<exists>w' sv'. serve_request env lis p w (cs\<lparr>http_part := sv\<rparr>) =
      Some ((w', cs\<lparr>http_part := sv'\<rparr>), Yielded (p, Writing)) \<and> worked p t sv sv' \<and>
    answering fd p (Responce_str (respond (h_req (conn_at sv p)))) (keep_alive (conn_at sv p)) sv' \<and>
    sent w' = sent w \<and> incoming w' = incoming w \<and> watched w'"
proof -
  let ?c = "conn_at sv p"
  obtain w1 where lis: "lis (h_req ?c) w = (w1, respond (h_req ?c))"
      and w1: "sent w1 = sent w" "incoming w1 = incoming w" "watched w1"
    using assms(2,7) unfolding answers_def by blast
  define d where "d = (Http_write (respond (h_req ?c)) ?c)\<lparr>b_read := []\<rparr>"
  have d: "is_open d" "start d = start ?c" "c_socket d = c_socket ?c" "epoll_option d = epoll_option ?c"
      "keep_alive d = keep_alive ?c" "b_read d = []" "b_write d = Responce_str (respond (h_req ?c))"
    using assms(4) by (simp_all add: d_def is_open_def)
  define sv1 where "sv1 = set_conn p d sv"
  have p1: "p < places sv1" and c1: "conn_at sv1 p = d" and 1: "worked p t sv sv1"
    using assms(3,4) d(1,2) by (auto simp: sv1_def intro!: worked_set_conn)
  have fd1: "d_fd (c_socket (conn_at sv1 p)) = fd" using assms(5) d(3) c1 by simp
  show ?thesis
  proof (cases "keep_alive ?c")
    case True
    define e where "e = d\<lparr>epoll_option :=
      opt_plus (opt_plus (epoll_option d) OPTION_WRITE) OPTION_ET_ONESHOT\<rparr>"
    obtain w2 where sub: "worker_subscribe env p OPTION_WRITE sv1 w1 = (w2, set_conn p e sv1, Inr ())"
        and w2: "sent w2 = sent w1" "incoming w2 = incoming w1" "watched w2"
      using client_subscribe[OF assms(1) fd1 p1 w1(3), of OPTION_WRITE] unfolding c1 e_def by blast
    have "serve_request env lis p w (cs\<lparr>http_part := sv\<rparr>) =
        Some ((w2, cs\<lparr>http_part := set_conn p e sv1\<rparr>), Yielded (p, Writing))"
      using sub True by (simp add: serve_request_def lis in_routine_def Let_def d_def[symmetric] sv1_def[symmetric] d(5))
    moreover have "worked p t sv (set_conn p e sv1)"
      by (rule worked_trans[OF 1 worked_set_conn[OF p1]]) (simp_all add: c1 e_def is_open_def)
    moreover have "answering fd p (Responce_str (respond (h_req ?c))) True (set_conn p e sv1)"
      using p1 d assms(5,6) by (auto simp: answering_def e_def is_open_def places_def[symmetric])
    ultimately show ?thesis using True w1 w2 by auto
  next
    case False
    define e where "e = d\<lparr>epoll_option :=
      opt_plus (opt_minus (epoll_option d) OPTION_READ) OPTION_ET_ONESHOT\<rparr>"
    define sv2 where "sv2 = set_conn p e sv1"
    obtain w2 where un: "worker_unsubscribe env p OPTION_READ sv1 w1 = (w2, sv2, Inr ())"
        and w2: "sent w2 = sent w1" "incoming w2 = incoming w1" "watched w2"
      using client_unsubscribe[OF assms(1) fd1 p1 w1(3), of OPTION_READ] unfolding c1 e_def sv2_def by blast
    have p2: "p < places sv2" and c2: "conn_at sv2 p = e" and 2: "worked p t sv1 sv2"
      using p1 c1 by (auto simp: sv2_def e_def is_open_def intro!: worked_set_conn)
    have fd2: "d_fd (c_socket (conn_at sv2 p)) = fd" using assms(5) d(3) by (simp add: c2 e_def)
    define g where "g = e\<lparr>epoll_option :=
      opt_plus (opt_plus (epoll_option e) OPTION_WRITE) OPTION_ET_ONESHOT\<rparr>"
    obtain w3 where sub: "worker_subscribe env p OPTION_WRITE sv2 w2 = (w3, set_conn p g sv2, Inr ())"
        and w3: "sent w3 = sent w2" "incoming w3 = incoming w2" "watched w3"
      using client_subscribe[OF assms(1) fd2 p2 w2(3), of OPTION_WRITE] unfolding c2 g_def by blast
    have "serve_request env lis p w (cs\<lparr>http_part := sv\<rparr>) =
        Some ((w3, cs\<lparr>http_part := set_conn p g sv2\<rparr>), Yielded (p, Writing))"
      using un sub False by (simp add: serve_request_def lis in_routine_def Let_def d_def[symmetric] sv1_def[symmetric] d(5))
    moreover have "worked p t sv (set_conn p g sv2)"
      by (rule worked_trans[OF worked_trans[OF 1 2] worked_set_conn[OF p2]]) (simp_all add: c2 g_def is_open_def)
    moreover have "answering fd p (Responce_str (respond (h_req ?c))) False (set_conn p g sv2)"
      using p2 d assms(5,6) by (auto simp: answering_def g_def e_def is_open_def places_def[symmetric])
    ultimately show ?thesis using False w1 w2 w3 by auto
  qed
qed

section \<open>The segment that writes the answer\<close>

lemma client_serve_writing:
  assumes "client_of env fd watched incoming sent respond" "answering fd p text keep (http_part cs)" "text \<noteq> []"
    and "p < length (p_rout cs)" "watched w"
  shows "\<exists>w' cs'. serve_writing env p w cs = Some ((w', cs'), Returned) \<and>
    worked p t (http_part cs) (http_part cs') \<and> length (p_rout cs') = length (p_rout cs) \<and>
    left fd p keep (http_part cs') \<and> (keep \<longrightarrow> routine p cs' = None) \<and>
    sent w' = sent w @ text \<and> incoming w' = incoming w \<and> watched w'"
proof -
  let ?sv = "http_part cs" and ?c = "conn_at (http_part cs) p"
  have a: "p < places ?sv" "is_open ?c" "d_fd (c_socket ?c) = fd" "b_write ?c = text" "keep \<Longrightarrow> b_read ?c = []"
      "events (epoll_option ?c) = (if keep then {0, 2, 30, 31} else {2, 30, 31})"
    using assms(2) by (simp_all add: answering_def places_def)
  obtain w1 where wr: "write_responces (env_write env) ?c w = Some (w1, ?c\<lparr>b_write := []\<rparr>, Finished)"
      and w1: "sent w1 = sent w @ text" "incoming w1 = incoming w" "watched w1"
    using client_writes[OF assms(1) a(3), of w] a(4) assms(3,5) by auto
  define sv1 where "sv1 = set_conn p (?c\<lparr>b_write := []\<rparr>) ?sv"
  have p1: "p < places sv1" and c1: "conn_at sv1 p = ?c\<lparr>b_write := []\<rparr>" and 1: "worked p t ?sv sv1"
    using a(1) by (auto simp: sv1_def is_open_def intro!: worked_set_conn)
  have fd1: "d_fd (c_socket (conn_at sv1 p)) = fd" using a(3) c1 by simp
  define c2 where "c2 = (conn_at sv1 p)\<lparr>epoll_option :=
    opt_plus (opt_minus (epoll_option (conn_at sv1 p)) OPTION_WRITE) OPTION_ET_ONESHOT\<rparr>"
  define sv2 where "sv2 = set_conn p c2 sv1"
  obtain w2 where un: "worker_unsubscribe env p OPTION_WRITE sv1 w1 = (w2, sv2, Inr ())"
      and w2: "sent w2 = sent w1" "incoming w2 = incoming w1" "watched w2"
    using client_unsubscribe[OF assms(1) fd1 p1 w1(3), of OPTION_WRITE] unfolding c2_def sv2_def by blast
  have p2: "p < places sv2" and cc2: "conn_at sv2 p = c2" and 2: "worked p t sv1 sv2"
    using p1 by (auto simp: sv2_def c2_def is_open_def intro!: worked_set_conn)
  have e2: "events (epoll_option c2) = (if keep then {0, 30, 31} else {30, 31})"
    using a(6) by (auto simp: c2_def c1)
  have "mask32 (epoll_option c2)" by (simp add: c2_def)
  moreover have "{0, 30, 31} \<noteq> {30, 31 :: nat}" by force
  ultimately have one: "epoll_option c2 = OPTION_ET_ONESHOT \<longleftrightarrow> \<not> keep"
    using e2 by (subst mask_eq_iff) simp_all
  have seg: "serve_writing env p w cs = serve_end env p w2 (cs\<lparr>http_part := sv2\<rparr>)"
    using un by (simp add: serve_writing_def wr in_routine_def Let_def sv1_def)
  show ?thesis
  proof (cases keep)
    case False
    let ?cs = "cs\<lparr>http_part := close_client p sv2\<rparr>"
    have "serve_writing env p w cs = Some ((w2, ?cs), Returned)"
      using seg one False cc2 by (simp add: serve_end_def)
    moreover have "worked p t ?sv (close_client p sv2)"
      using worked_trans[OF worked_trans[OF 1 2] worked_close[OF p2]] .
    moreover have "is_open (conn_at sv2 p)" using a(2) by (simp add: cc2 c2_def c1 is_open_def)
    then have "left fd p keep (close_client p sv2)"
      using False p2 by (simp add: left_def close_client_conn) (simp add: close_client_def)
    ultimately show ?thesis using False w1 w2 by (intro exI[of _ w2] exI[of _ ?cs]) simp
  next
    case True
    have fd2: "d_fd (c_socket (conn_at sv2 p)) = fd" using a(3) by (simp add: cc2 c2_def c1)
    define c3 where "c3 = (conn_at sv2 p)\<lparr>epoll_option :=
      opt_plus (opt_plus (epoll_option (conn_at sv2 p)) OPTION_UNKNOWN) OPTION_ET_ONESHOT\<rparr>"
    define sv3 where "sv3 = set_conn p c3 sv2"
    obtain w3 where sub: "worker_subscribe env p OPTION_UNKNOWN sv2 w2 = (w3, sv3, Inr ())"
        and w3: "sent w3 = sent w2" "incoming w3 = incoming w2" "watched w3"
      using client_subscribe[OF assms(1) fd2 p2 w2(3), of OPTION_UNKNOWN] unfolding sv3_def c3_def by blast
    have 3: "worked p t sv2 sv3" and cc3: "conn_at sv3 p = c3" "p < places sv3"
      using p2 by (auto simp: sv3_def c3_def is_open_def intro!: worked_set_conn)
    let ?cs = "(set_routine p None cs)\<lparr>http_part := sv3\<rparr>"
    have "serve_writing env p w cs = Some ((w3, ?cs), Returned)"
      using seg sub one True by (simp add: serve_end_def cc2 in_routine_def Let_def set_routine_def)
    moreover have "worked p t ?sv sv3" using worked_trans[OF worked_trans[OF 1 2] 3] .
    moreover have "waiting fd p sv3"
      using True a e2 cc3 by (auto simp: waiting_def c3_def cc2 c2_def c1 is_open_def places_def[symmetric])
    ultimately show ?thesis using True w1 w2 w3 assms(4)
      by (intro exI[of _ w3] exI[of _ ?cs]) (simp add: left_def routine_def set_routine_def)
  qed
qed

section \<open>The two events of a request\<close>

text \<open>
  The routine of a connection: none while it waits for a request, and one suspended before the
  loop of writing while an answer is to be written. No routine waits for reuse.
\<close>

definition idle :: "nat \<Rightarrow> (nat \<times> point, worker_error) Ordinator \<Rightarrow> CorService \<Rightarrow> bool" where
  "idle p m cs \<longleftrightarrow> p < length (p_rout cs) \<and> routine p cs = None \<and> finished m = []"

definition suspended :: "nat \<Rightarrow> (nat \<times> point, worker_error) Ordinator \<Rightarrow> CorService \<Rightarrow> bool" where
  "suspended p m cs \<longleftrightarrow> p < length (p_rout cs) \<and> finished m = [] \<and>
     (\<exists>i. routine p cs = Some i \<and> i < length (routines m) \<and> r_ctx (routines m ! i) = At (p, Writing) \<and>
       \<not> r_finished (routines m ! i) \<and> r_exception (routines m ! i) = None)"

lemma cor_event_answers:
  assumes "client_of env fd watched incoming sent respond" "answers lis watched incoming sent respond"
    and "service_reachable ct kt (t, http_part cs)" "t \<le> now"
    and "waiting fd p (http_part cs)" "idle p m cs" "incoming w = Request_str req # rest" "Request_ok req"
    and "watched w"
  shows "\<exists>m' w' cs'. cor_worker_event env lis p now m (w, cs) = Some (m', (w', cs'), Inr True) \<and>
    service_reachable ct kt (now, http_part cs') \<and> suspended p m' cs' \<and>
    answering fd p (Responce_str (respond req)) (is_keep_alive (m_headers req)) (http_part cs') \<and>
    length (routines m') = Suc (length (routines m)) \<and> incoming w' = rest \<and> sent w' = sent w \<and>
    watched w'"
proof -
  let ?sv = "http_part cs"
  have p: "p < places ?sv" and open_p: "is_open (conn_at ?sv p)"
    using assms(5) by (simp_all add: waiting_def places_def)
  obtain sv1 where sv1: "reset_last_activity_time p now ?sv = Some sv1" "service_step (t, ?sv) (now, sv1)"
      "places sv1 = places ?sv" "conn_at sv1 p = (conn_at ?sv p)\<lparr>start := now\<rparr>"
    by (rule worker_event_cases[OF service_reachable_inv[OF assms(3)] p open_p assms(4)])
  have f: "p < places sv1" "is_open (conn_at sv1 p)" "d_fd (c_socket (conn_at sv1 p)) = fd"
      "b_read (conn_at sv1 p) = []" "events (epoll_option (conn_at sv1 p)) = {0, 30, 31}"
    using assms(5) p by (simp_all add: sv1(3,4) waiting_def)
  obtain w1 where del: "delivers (env_read env) fd w (Request_str req) w1"
      and w1: "incoming w1 = rest" "sent w1 = sent w" "watched w1"
    using client_ofD(2)[OF assms(1,9,7)] by auto
  let ?c = "(conn_at sv1 p)\<lparr>b_read := Request_str req\<rparr>"
  have rd: "read_requests (env_read env) (conn_at sv1 p) w =
      Some (w1, ?c, Raised (TimeOutError (Strerror EAGAIN)))"
    using read_requests_delivers[OF del f(3)] f(4) by simp
  define sv2 where "sv2 = set_conn p (?c\<lparr>keep_alive := is_keep_alive (m_headers req), h_req := req\<rparr>) sv1"
  have 2: "worked p now sv1 sv2" "p < places sv2" "is_open (conn_at sv2 p)" "d_fd (c_socket (conn_at sv2 p)) = fd"
      "events (epoll_option (conn_at sv2 p)) = {0, 30, 31}" "h_req (conn_at sv2 p) = req"
      "keep_alive (conn_at sv2 p) = is_keep_alive (m_headers req)"
    using f by (auto simp: sv2_def intro!: worked_set_conn)
  obtain m0 i where cr: "cor_create (p, Serve) m = (m0, i)" by (cases "cor_create (p, Serve) m")
  have none: "finished m = []" "routine p cs = None" "p < length (p_rout cs)" using assms(6) by (simp_all add: idle_def)
  note c = create_facts[OF cr, unfolded none(1), simplified]
  define cs0 where "cs0 = set_routine p (Some i) cs"
  obtain w2 sv3 where seg: "serve_request env lis p w1 (cs0\<lparr>http_part := sv2\<rparr>) =
      Some ((w2, cs0\<lparr>http_part := sv3\<rparr>), Yielded (p, Writing))"
    and sv3: "worked p now sv2 sv3"
      "answering fd p (Responce_str (respond req)) (is_keep_alive (m_headers req)) sv3"
    and w2: "sent w2 = sent w1" "incoming w2 = incoming w1" "watched w2"
    using client_serve_request[OF assms(1,2) 2(2-5) w1(3), of cs0 now] unfolding 2(6,7) by blast
  have "serve_client env lis now (p, Serve) (w, cs0) =
      Some ((w2, cs0\<lparr>http_part := sv3\<rparr>), Yielded (p, Writing))"
    using seg sv1(1) rd Request_new_str[OF assms(8)] f(1)
    by (simp add: serve_client_def serve_reading_def cs0_def set_routine_def sv2_def Let_def)
  from resume_yielding[where run = "serve_client env lis now", OF c(1-4) this]
  obtain m1 where run: "cor_resume (serve_client env lis now) i m0 (w, cs0) =
      Some (m1, (w2, cs0\<lparr>http_part := sv3\<rparr>), Inr True)"
    and m1: "r_ctx (routines m1 ! i) = At (p, Writing)" "\<not> r_finished (routines m1 ! i)"
      "r_exception (routines m1 ! i) = None" "length (routines m1) = length (routines m0)"
      "finished m1 = finished m0" by blast
  have "cor_worker_event env lis p now m (w, cs) = Some (m1, (w2, cs0\<lparr>http_part := sv3\<rparr>), Inr True)"
    using run none(2) cr by (simp add: cor_worker_event_def cs0_def)
  moreover have "service_reachable ct kt (now, sv3)"
    using assms(3) sv1(2) worked_trans[OF 2(1) sv3(1)] unfolding worked_def by auto
  moreover have "suspended p m1 (cs0\<lparr>http_part := sv3\<rparr>)"
    using m1 c none(3) by (simp add: suspended_def cs0_def set_routine_def routine_def)
  ultimately show ?thesis using sv3(2) m1(4) c w1 w2
    by (intro exI[of _ m1] exI[of _ w2] exI[of _ "cs0\<lparr>http_part := sv3\<rparr>"]) simp
qed

lemma cor_event_delivers_answer:
  assumes "client_of env fd watched incoming sent respond" "service_reachable ct kt (t, http_part cs)"
    and "answering fd p text keep (http_part cs)" "text \<noteq> []" "suspended p m cs" "watched w"
  shows "\<exists>m' w' cs'. cor_worker_event env lis p now m (w, cs) = Some (m', (w', cs'), Inr True) \<and>
    service_reachable ct kt (t, http_part cs') \<and> left fd p keep (http_part cs') \<and> (keep \<longrightarrow> idle p m' cs') \<and>
    length (routines m') = length (routines m) \<and> incoming w' = incoming w \<and> sent w' = sent w @ text \<and>
    watched w'"
proof -
  obtain i where i: "routine p cs = Some i" "i < length (routines m)" "r_ctx (routines m ! i) = At (p, Writing)"
      "\<not> r_finished (routines m ! i)" "r_exception (routines m ! i) = None"
    and none: "finished m = []" "p < length (p_rout cs)"
    using assms(5) by (auto simp: suspended_def)
  obtain w' cs' where seg: "serve_writing env p w cs = Some ((w', cs'), Returned)"
    and cs': "worked p t (http_part cs) (http_part cs')" "length (p_rout cs') = length (p_rout cs)"
      "left fd p keep (http_part cs')" "keep \<longrightarrow> routine p cs' = None"
    and w': "sent w' = sent w @ text" "incoming w' = incoming w" "watched w'"
    using client_serve_writing[OF assms(1,3,4) none(2) assms(6), of t] by blast
  have "serve_client env lis now (p, Writing) (w, cs) = Some ((w', cs'), Returned)"
    using seg by (simp add: serve_client_def)
  from resume_returning[where run = "serve_client env lis now", OF i(2-5) this] obtain m' where
    "cor_resume (serve_client env lis now) i m (w, cs) = Some (m', (w', cs'), Inr True)"
    and m': "length (routines m') = length (routines m)" "finished m' = finished m" by blast
  then have "cor_worker_event env lis p now m (w, cs) = Some (m', (w', cs'), Inr True)"
    using i(1) by (simp add: cor_worker_event_def)
  moreover have "service_reachable ct kt (t, http_part cs')"
    using rtranclp_trans[OF assms(2)] cs'(1) unfolding worked_def by blast
  ultimately show ?thesis using cs'(2-4) w' m' none
    by (intro exI[of _ m'] exI[of _ w'] exI[of _ cs']) (simp add: idle_def)
qed

section \<open>The session\<close>

text \<open>This worker does not look at the mask of an event.\<close>

definition without_masks :: "(nat \<times> 32 word \<times> nat) list \<Rightarrow> (nat \<times> nat) list" where
  "without_masks = map (\<lambda>(p, evs, now). (p, now))"

lemma without_masks_simps [simp]:
  "without_masks [] = []" "without_masks ((p, evs, now) # es) = (p, now) # without_masks es"
  by (simp_all add: without_masks_def)

lemma cor_exchange:
  assumes "client_of env fd watched incoming sent respond" "answers lis watched incoming sent respond"
    and "service_reachable ct kt (t, http_part cs)" "t \<le> t1"
    and "waiting fd p (http_part cs)" "idle p m cs" "incoming w = Request_str req # rest" "Request_ok req"
    and "watched w"
  shows "\<exists>m' w' cs'. cor_worker_events env lis ((p, t1) # (p, t2) # es) m (w, cs) =
      cor_worker_events env lis es m' (w', cs') \<and> service_reachable ct kt (t1, http_part cs') \<and>
    left fd p (is_keep_alive (m_headers req)) (http_part cs') \<and>
    (is_keep_alive (m_headers req) \<longrightarrow> idle p m' cs') \<and> length (routines m') = Suc (length (routines m)) \<and>
    incoming w' = rest \<and> sent w' = sent w @ Responce_str (respond req) \<and> watched w'"
proof -
  obtain m1 w1 cs1 where 1: "cor_worker_event env lis p t1 m (w, cs) = Some (m1, (w1, cs1), Inr True)"
      "service_reachable ct kt (t1, http_part cs1)" "suspended p m1 cs1"
      "answering fd p (Responce_str (respond req)) (is_keep_alive (m_headers req)) (http_part cs1)"
      "length (routines m1) = Suc (length (routines m))" "incoming w1 = rest" "sent w1 = sent w" "watched w1"
    using cor_event_answers[OF assms] by blast
  obtain m2 w2 cs2 where 2: "cor_worker_event env lis p t2 m1 (w1, cs1) = Some (m2, (w2, cs2), Inr True)"
      "service_reachable ct kt (t1, http_part cs2)" "left fd p (is_keep_alive (m_headers req)) (http_part cs2)"
      "is_keep_alive (m_headers req) \<longrightarrow> idle p m2 cs2" "length (routines m2) = length (routines m1)"
      "incoming w2 = incoming w1" "sent w2 = sent w1 @ Responce_str (respond req)" "watched w2"
    using cor_event_delivers_answer[OF assms(1) 1(2,4) Responce_str_nonempty 1(3,8)] by blast
  show ?thesis using 1(1,5-7) 2 by (intro exI[of _ m2] exI[of _ w2] exI[of _ cs2]) simp
qed

lemma cor_session_run:
  assumes "client_of env fd watched incoming sent respond" "answers lis watched incoming sent respond"
    and "service_reachable ct kt (t, http_part cs)" "waiting fd p (http_part cs)" "idle p m cs"
    and "incoming w = map Request_str reqs @ rest" "\<forall>req\<in>set reqs. Request_ok req"
    and "\<forall>req\<in>set (butlast reqs). is_keep_alive (m_headers req)"
    and "length ts = length reqs" "sorted (t # times ts)" "watched w"
  shows "\<exists>m' w' cs' t'. cor_worker_events env lis (without_masks (session_events p ts)) m (w, cs) =
      Some (m', (w', cs'), Inr ()) \<and>
    service_reachable ct kt (t', http_part cs') \<and> incoming w' = rest \<and>
    sent w' = sent w @ concat (map (\<lambda>req. Responce_str (respond req)) reqs) \<and>
    left fd p (reqs = [] \<or> is_keep_alive (m_headers (last reqs))) (http_part cs') \<and>
    length (routines m') = length (routines m) + length reqs"
  using assms(3-11)
proof (induction reqs arbitrary: t cs m w ts)
  case Nil
  then show ?case by (auto simp: left_def)
next
  case (Cons req reqs)
  obtain t1 t2 us where ts: "ts = (t1, t2) # us" "length us = length reqs"
    using Cons.prems(7) by (cases ts) auto
  have order: "t \<le> t1" "sorted (t1 # times us)" using Cons.prems(8) ts(1) by auto
  have ok: "Request_ok req" and inc: "incoming w = Request_str req # map Request_str reqs @ rest"
    using Cons.prems(4,5) by simp_all
  obtain m1 w1 cs1 where 1: "cor_worker_events env lis (without_masks (session_events p ts)) m (w, cs) =
        cor_worker_events env lis (without_masks (session_events p us)) m1 (w1, cs1)"
      "service_reachable ct kt (t1, http_part cs1)"
      "left fd p (is_keep_alive (m_headers req)) (http_part cs1)"
      "is_keep_alive (m_headers req) \<longrightarrow> idle p m1 cs1" "length (routines m1) = Suc (length (routines m))"
      "incoming w1 = map Request_str reqs @ rest" "sent w1 = sent w @ Responce_str (respond req)" "watched w1"
    using cor_exchange[OF assms(1,2) Cons.prems(1) order(1) Cons.prems(2,3) inc ok Cons.prems(9),
        of t2 "without_masks (session_events p us)"]
    unfolding ts(1) session_events.simps without_masks_simps by blast
  show ?case
  proof (cases "reqs = []")
    case True
    then show ?thesis using 1 ts(2) by auto
  next
    case False
    have k: "is_keep_alive (m_headers req)" "\<forall>req\<in>set (butlast reqs). is_keep_alive (m_headers req)"
      using Cons.prems(6) False by simp_all
    have wi: "waiting fd p (http_part cs1)" "idle p m1 cs1" using 1(3,4) k(1) by (simp_all add: left_def)
    have oks: "\<forall>req\<in>set reqs. Request_ok req" using Cons.prems(5) by simp
    obtain m2 w2 cs2 t' where
        "cor_worker_events env lis (without_masks (session_events p us)) m1 (w1, cs1) = Some (m2, (w2, cs2), Inr ())"
        "service_reachable ct kt (t', http_part cs2)" "incoming w2 = rest"
        "sent w2 = sent w1 @ concat (map (\<lambda>req. Responce_str (respond req)) reqs)"
        "left fd p (reqs = [] \<or> is_keep_alive (m_headers (last reqs))) (http_part cs2)"
        "length (routines m2) = length (routines m1) + length reqs"
      using Cons.IH[OF 1(2) wi 1(6) oks k(2) ts(2) order(2) 1(8)] by blast
    then show ?thesis using 1(1,5,7) False
      by (intro exI[of _ m2] exI[of _ w2] exI[of _ cs2] exI[of _ t']) simp
  qed
qed

section \<open>The scripted client\<close>

definition armed_cor_client :: CorService where
  "armed_cor_client = \<lparr>http_part = armed_client, p_rout = [None, None]\<rparr>"

section \<open>Property\<close>

text \<open>
  C38: The two workers serve a client alike, and one of them takes a stack for each request. A
  client that waits for each answer before it sends the next request, on a connection armed for
  reading and without a routine, with well-formed requests of which all but the last ask to keep
  the connection: the same events, handled by the worker of routines and by the worker of
  states, with listeners that answer alike, bring the client the same bytes, exactly the
  printed responses in the order of the requests, and leave nothing it sent over; with both, the
  connection then waits for the next request if the last one asks to keep it, and is otherwise
  closed and queued for reuse. But the first of them ends with one routine more for each
  request, 64 KiB of stack, none of which was reused: a routine whose function returns is
  forgotten, or left to a closed connection, before the resume that would hand it back.
\<close>

theorem workers_serve_alike:
  assumes "client_of env fd watched incoming sent respond" "answers lis watched incoming sent respond"
    and "service_reachable ct kt (t, http_part cs)" "waiting fd p (http_part cs)" "idle p m cs"
    and "incoming w = map Request_str reqs @ rest" "\<forall>req\<in>set reqs. Request_ok req"
    and "\<forall>req\<in>set (butlast reqs). is_keep_alive (m_headers req)"
    and "length ts = length reqs" "sorted (t # times ts)" "watched w"
  shows "\<exists>m' v cs' w' sv'.
    cor_worker_events env lis (without_masks (session_events p ts)) m (w, cs) = Some (m', (v, cs'), Inr ()) \<and>
    worker_events env (session_events p ts) (http_part cs) w = Some (w', sv', Inr True) \<and>
    sent v = sent w' \<and> sent v = sent w @ concat (map (\<lambda>req. Responce_str (respond req)) reqs) \<and>
    incoming v = rest \<and> incoming w' = rest \<and>
    left fd p (reqs = [] \<or> is_keep_alive (m_headers (last reqs))) (http_part cs') \<and>
    left fd p (reqs = [] \<or> is_keep_alive (m_headers (last reqs))) sv' \<and>
    stacks_allocated m' = stacks_allocated m + 65536 * length reqs"
proof -
  obtain m' v cs' where "cor_worker_events env lis (without_masks (session_events p ts)) m (w, cs) =
        Some (m', (v, cs'), Inr ())" "incoming v = rest"
      "sent v = sent w @ concat (map (\<lambda>req. Responce_str (respond req)) reqs)"
      "left fd p (reqs = [] \<or> is_keep_alive (m_headers (last reqs))) (http_part cs')"
      "length (routines m') = length (routines m) + length reqs"
    using cor_session_run[OF assms] by blast
  moreover obtain w' sv' where "worker_events env (session_events p ts) (http_part cs) w = Some (w', sv', Inr True)"
      "incoming w' = rest" "sent w' = sent w @ concat (map (\<lambda>req. Responce_str (respond req)) reqs)"
      "left fd p (reqs = [] \<or> is_keep_alive (m_headers (last reqs))) sv'"
    using session_run[OF assms(1,3,4,6-11)] by blast
  ultimately show ?thesis by (auto simp: stacks_allocated_def STACK_SIZE_def)
qed

theorem workers_serve_alike_witness:
  "\<exists>m' v cs' w' sv'.
    cor_worker_events session_env (\<lambda>r w. (w, sample_ok)) [(0, 31), (0, 32), (0, 40), (0, 41)] Ordinator_new
      (session_world, armed_cor_client) = Some (m', (v, cs'), Inr ()) \<and>
    worker_events session_env (session_events 0 [(31, 32), (40, 41)]) armed_client session_world =
      Some (w', sv', Inr True) \<and>
    received v = received w' \<and> received v = Responce_str sample_ok @ Responce_str sample_ok \<and>
    stacks_allocated m' = 131072"
proof -
  let ?in = "\<lambda>w. scripted (to_deliver w)" and ?lis = "\<lambda>r w. (w, sample_ok)"
  have "answers ?lis (\<lambda>w. True) ?in received (\<lambda>req. sample_ok)" by (simp add: answers_def)
  moreover have "http_part armed_cor_client = armed_client" by (simp add: armed_cor_client_def)
  moreover have "idle 0 Ordinator_new armed_cor_client"
    by (simp add: idle_def armed_cor_client_def routine_def Ordinator_new_def)
  moreover have "received session_world = []" "stacks_allocated Ordinator_new = 0"
    by (simp_all add: session_world_def stacks_allocated_def Ordinator_new_def)
  ultimately show ?thesis
    using workers_serve_alike[OF session_env_client, where lis = ?lis and ct = 20 and kt = 60 and t = 30
        and cs = armed_cor_client and p = 0 and m = Ordinator_new and w = session_world
        and reqs = "[sample_keep, sample_post]" and rest = "[]" and ts = "[(31, 32), (40, 41)]"]
      armed_client_reachable armed_client_waiting session_world_scripted
      sample_keep_ok sample_post_ok sample_keep_parsed(2)
    by fastforce
qed

end
