(* ===== verification/Coroutine_Machine.thy ===== *)
theory Coroutine_Machine
  imports Coroutine
begin

text \<open>
  \<^verbatim>\<open>7.cor/lib/coroutine.cpp\<close> with its context switches: several threads, each with its own
  \<^verbatim>\<open>ordinator\<close>, and routines that are started, resumed and finished on any of them, also from
  inside other routines. A step of a thread is the code between two points at which it can be
  switched away from or calls one of the functions of the file.

  Code is given by \<^verbatim>\<open>code\<close>: from a point it runs to the next call it makes, with the point it
  continues from, or to a point at which other threads may run. A saved \<^verbatim>\<open>ucontext_t\<close> is a stack and a point on it. A context that has been
  switched to is used up: its stack goes on and is changed, and switching to it once more is
  undefined, as is switching to one that was never saved. At the end of \<^verbatim>\<open>entry\<close> the context
  \<^verbatim>\<open>uc_link\<close> is switched to; POSIX has it set before \<^verbatim>\<open>makecontext\<close>. Whether the system looks
  at what is assigned to it later is a parameter. The module \<^verbatim>\<open>Coroutine\<close> describes the same
  functions for one thread that calls them outside of routines; it is what this machine does then.
\<close>

section \<open>Code and contexts\<close>

datatype ('p, 'e) call =
    Yields 'p
  | Continues 'p
  | Resumes nat "'e + bool \<Rightarrow> 'p"
  | Creates 'p "nat \<Rightarrow> 'p"
  | Returns
  | Throws 'e

text \<open>
  The stack of a thread, or that of a routine with what \<^verbatim>\<open>entry\<close> keeps on it: the routine and
  the thread whose ordinator it has a reference to. Points: where the code of a function goes
  on, behind the \<^verbatim>\<open>swapcontext\<close> of \<^verbatim>\<open>resume\<close>, behind the one of \<^verbatim>\<open>entry\<close>.
\<close>

datatype stack = OfThread nat | OfRoutine nat nat

datatype ('p, 'e) code_point = Code 'p | InResume nat "'e + bool \<Rightarrow> 'p" | BehindSwap

datatype ('p, 'e) ucontext = Entry | Ctx stack "('p, 'e) code_point"

record ('p, 'e) CorRoutine =
  cr_func :: 'p
  cr_finished :: bool
  cr_ctx :: "('p, 'e) ucontext option"
  cr_link :: nat
  cr_made :: nat
  cr_exception :: "'e option"

record ('p, 'e) ThreadOrdinator =
  to_current :: "nat option"
  to_ctx :: "('p, 'e) ucontext option"

record ('p, 'e, 's) cor_machine =
  m_routines :: "('p, 'e) CorRoutine list"
  m_queue :: "nat list"
  m_ord :: "nat \<Rightarrow> ('p, 'e) ThreadOrdinator"
  m_ctl :: "nat \<Rightarrow> ('p, 'e) ucontext"
  m_world :: 's

text \<open>The links \<^verbatim>\<open>cr_link\<close> and \<^verbatim>\<open>cr_made\<close> are the threads whose \<^verbatim>\<open>ordinator.ctx\<close> \<^verbatim>\<open>uc_link\<close>
  points to: now, and at the last \<^verbatim>\<open>makecontext\<close>.\<close>

record ('p, 'e, 's) cor_env =
  code :: "'p \<Rightarrow> 's \<Rightarrow> ('s \<times> ('p, 'e) call) option"
  swap_ok :: "'s \<Rightarrow> bool"
  late_link :: bool

datatype fault = NullRoutine | UsedContext

definition rout :: "('p, 'e, 's) cor_machine \<Rightarrow> nat \<Rightarrow> ('p, 'e) CorRoutine" where
  "rout m i = m_routines m ! i"

definition set_rout :: "nat \<Rightarrow> ('p, 'e) CorRoutine \<Rightarrow> ('p, 'e, 's) cor_machine \<Rightarrow> ('p, 'e, 's) cor_machine" where
  "set_rout i r m = m\<lparr>m_routines := (m_routines m)[i := r]\<rparr>"

definition set_ord :: "nat \<Rightarrow> ('p, 'e) ThreadOrdinator \<Rightarrow> ('p, 'e, 's) cor_machine \<Rightarrow> ('p, 'e, 's) cor_machine" where
  "set_ord t od m = m\<lparr>m_ord := (m_ord m)(t := od)\<rparr>"

definition set_ctl :: "nat \<Rightarrow> ('p, 'e) ucontext \<Rightarrow> ('p, 'e, 's) cor_machine \<Rightarrow> ('p, 'e, 's) cor_machine" where
  "set_ctl t c m = m\<lparr>m_ctl := (m_ctl m)(t := c)\<rparr>"

section \<open>Switching\<close>

text \<open>The second halves of \<^verbatim>\<open>swapcontext\<close>: to a routine, to what an ordinator has saved.\<close>

definition switch_routine ::
  "nat \<Rightarrow> nat \<Rightarrow> ('p, 'e, 's) cor_machine \<Rightarrow> fault + ('p, 'e, 's) cor_machine" where
  "switch_routine t i m =
     (case cr_ctx (rout m i) of
        None \<Rightarrow> Inl UsedContext
      | Some c \<Rightarrow> Inr (set_ctl t c (set_rout i ((rout m i)\<lparr>cr_ctx := None\<rparr>) m)))"

definition switch_back ::
  "nat \<Rightarrow> nat \<Rightarrow> ('p, 'e, 's) cor_machine \<Rightarrow> fault + ('p, 'e, 's) cor_machine" where
  "switch_back t t' m =
     (case to_ctx (m_ord m t') of
        None \<Rightarrow> Inl UsedContext
      | Some c \<Rightarrow> Inr (set_ctl t c (set_ord t' ((m_ord m t')\<lparr>to_ctx := None\<rparr>) m)))"

section \<open>The functions\<close>

definition CorRoutine_new :: "nat \<Rightarrow> 'p \<Rightarrow> ('p, 'e) CorRoutine" where
  "CorRoutine_new t f = \<lparr>cr_func = f, cr_finished = False, cr_ctx = Some Entry, cr_link = t,
     cr_made = t, cr_exception = None\<rparr>"

definition CorRoutine_reset :: "'p \<Rightarrow> ('p, 'e) CorRoutine \<Rightarrow> ('p, 'e) CorRoutine" where
  "CorRoutine_reset f r = r\<lparr>cr_func := f, cr_finished := False, cr_exception := None,
     cr_ctx := Some Entry, cr_made := cr_link r\<rparr>"

definition MainOrdinator_emplace :: "nat \<Rightarrow> ('p, 'e, 's) cor_machine \<Rightarrow> ('p, 'e, 's) cor_machine" where
  "MainOrdinator_emplace i m = m\<lparr>m_queue := m_queue m @ [i]\<rparr>"

definition MainOrdinator_size :: "('p, 'e, 's) cor_machine \<Rightarrow> nat" where
  "MainOrdinator_size m = length (m_routines m)"

definition machine_current :: "nat \<Rightarrow> ('p, 'e, 's) cor_machine \<Rightarrow> nat option" where
  "machine_current t m = to_current (m_ord m t)"

definition machine_create :: "nat \<Rightarrow> 'p \<Rightarrow> ('p, 'e, 's) cor_machine \<Rightarrow> ('p, 'e, 's) cor_machine \<times> nat" where
  "machine_create t f m =
     (case m_queue m of
        [] \<Rightarrow> (m\<lparr>m_routines := m_routines m @ [CorRoutine_new t f]\<rparr>, length (m_routines m))
      | i # is \<Rightarrow> (set_rout i (CorRoutine_reset f (rout m i)) (m\<lparr>m_queue := is\<rparr>), i))"

text \<open>\<^verbatim>\<open>resume\<close> up to its switch, called on the stack \<^verbatim>\<open>st\<close> of the thread \<^verbatim>\<open>t\<close>; and behind it.\<close>

definition machine_resume ::
  "('p, 'e, 's) cor_env \<Rightarrow> nat \<Rightarrow> stack \<Rightarrow> nat \<Rightarrow> ('e + bool \<Rightarrow> 'p) \<Rightarrow> ('p, 'e, 's) cor_machine \<Rightarrow>
   fault + ('p, 'e, 's) cor_machine" where
  "machine_resume env t st i k m =
     (if cr_finished (rout m i) then Inr (set_ctl t (Ctx st (Code (k (Inr False)))) m)
      else let m = set_ord t ((m_ord m t)\<lparr>to_current := Some i\<rparr>) m;
               m = set_rout i ((rout m i)\<lparr>cr_link := t\<rparr>) m
           in if \<not> swap_ok env (m_world m)
              then Inr (set_ctl t (Ctx st (Code (k (Inr False)))) (set_ord t ((m_ord m t)\<lparr>to_current := None\<rparr>) m))
              else switch_routine t i (set_ord t ((m_ord m t)\<lparr>to_ctx := Some (Ctx st (InResume i k))\<rparr>) m))"

definition resume_behind_swap ::
  "nat \<Rightarrow> stack \<Rightarrow> nat \<Rightarrow> ('e + bool \<Rightarrow> 'p) \<Rightarrow> ('p, 'e, 's) cor_machine \<Rightarrow> ('p, 'e, 's) cor_machine" where
  "resume_behind_swap t st i k m =
     set_ctl t (Ctx st (Code (k (case cr_exception (rout m i) of Some e \<Rightarrow> Inl e | None \<Rightarrow> Inr True)))) m"

definition machine_yield ::
  "('p, 'e, 's) cor_env \<Rightarrow> nat \<Rightarrow> stack \<Rightarrow> 'p \<Rightarrow> ('p, 'e, 's) cor_machine \<Rightarrow>
   fault + ('p, 'e, 's) cor_machine" where
  "machine_yield env t st p m =
     (case to_current (m_ord m t) of
        None \<Rightarrow> Inl NullRoutine
      | Some i \<Rightarrow>
          let m = set_ord t ((m_ord m t)\<lparr>to_current := None\<rparr>) m
          in if \<not> swap_ok env (m_world m) then Inr (set_ctl t (Ctx st (Code p)) m)
             else switch_back t t (set_rout i ((rout m i)\<lparr>cr_ctx := Some (Ctx st (Code p))\<rparr>) m))"

text \<open>\<^verbatim>\<open>entry\<close>: up to the call of the function, from its end to the switch, and behind that.\<close>

definition entry_start :: "nat \<Rightarrow> ('p, 'e, 's) cor_machine \<Rightarrow> fault + ('p, 'e, 's) cor_machine" where
  "entry_start t m =
     (case to_current (m_ord m t) of
        None \<Rightarrow> Inl NullRoutine
      | Some i \<Rightarrow> Inr (set_ctl t (Ctx (OfRoutine i t) (Code (cr_func (rout m i)))) m))"

definition entry_switch ::
  "('p, 'e, 's) cor_env \<Rightarrow> nat \<Rightarrow> stack \<Rightarrow> nat \<Rightarrow> ('p, 'e, 's) cor_machine \<Rightarrow>
   fault + ('p, 'e, 's) cor_machine" where
  "entry_switch env t st i m =
     (if \<not> swap_ok env (m_world m) then Inr (set_ctl t (Ctx st BehindSwap) m)
      else switch_back t (cr_link (rout m i)) (set_rout i ((rout m i)\<lparr>cr_ctx := Some (Ctx st BehindSwap)\<rparr>) m))"

definition entry_end ::
  "('p, 'e, 's) cor_env \<Rightarrow> nat \<Rightarrow> nat \<Rightarrow> nat \<Rightarrow> ('p, 'e, 's) cor_machine \<Rightarrow>
   fault + ('p, 'e, 's) cor_machine" where
  "entry_end env t i t0 m =
     (let m = set_rout i ((rout m i)\<lparr>cr_finished := True\<rparr>) m;
          m = set_ord t0 ((m_ord m t0)\<lparr>to_current := None\<rparr>) m;
          m = MainOrdinator_emplace i m
      in switch_back t (if late_link env then cr_link (rout m i) else cr_made (rout m i)) m)"

section \<open>Steps\<close>

text \<open>
  A step of the thread \<^verbatim>\<open>t\<close>. \<^verbatim>\<open>None\<close>: the code does not come back, or the function of the
  thread itself is over.
\<close>

definition machine_step ::
  "('p, 'e, 's) cor_env \<Rightarrow> nat \<Rightarrow> ('p, 'e, 's) cor_machine \<Rightarrow> (fault + ('p, 'e, 's) cor_machine) option" where
  "machine_step env t m =
     (case m_ctl m t of
        Entry \<Rightarrow> Some (entry_start t m)
      | Ctx st (InResume i k) \<Rightarrow> Some (Inr (resume_behind_swap t st i k m))
      | Ctx (OfRoutine i t0) BehindSwap \<Rightarrow> Some (entry_end env t i t0 m)
      | Ctx (OfThread t0) BehindSwap \<Rightarrow> None
      | Ctx st (Code p) \<Rightarrow>
          (case code env p (m_world m) of
             None \<Rightarrow> None
           | Some (s, c) \<Rightarrow>
               let m = m\<lparr>m_world := s\<rparr>
               in case c of
                    Yields p \<Rightarrow> Some (machine_yield env t st p m)
                  | Continues p \<Rightarrow> Some (Inr (set_ctl t (Ctx st (Code p)) m))
                  | Resumes i k \<Rightarrow> Some (machine_resume env t st i k m)
                  | Creates f k \<Rightarrow>
                      let (m, i) = machine_create t f m in Some (Inr (set_ctl t (Ctx st (Code (k i))) m))
                  | Returns \<Rightarrow> (case st of OfThread t0 \<Rightarrow> None | OfRoutine i t0 \<Rightarrow> Some (entry_switch env t st i m))
                  | Throws e \<Rightarrow>
                      (case st of OfThread t0 \<Rightarrow> None
                       | OfRoutine i t0 \<Rightarrow> Some (entry_switch env t st i
                           (set_rout i ((rout m i)\<lparr>cr_exception := Some e\<rparr>) m)))))"

text \<open>What one thread does while the others rest; what the program does.\<close>

definition thread_runs :: "('p, 'e, 's) cor_env \<Rightarrow> nat \<Rightarrow> ('p, 'e, 's) cor_machine \<Rightarrow> ('p, 'e, 's) cor_machine \<Rightarrow> bool" where
  "thread_runs env t = (\<lambda>m m'. machine_step env t m = Some (Inr m'))\<^sup>*\<^sup>*"

lemma thread_runs_refl [simp]: "thread_runs env t m m"
  by (simp add: thread_runs_def)

lemma thread_runs_step: "machine_step env t m = Some (Inr m1) \<Longrightarrow> thread_runs env t m1 m' \<Longrightarrow> thread_runs env t m m'"
  unfolding thread_runs_def by (rule converse_rtranclp_into_rtranclp)

lemma thread_runs_trans: "thread_runs env t m m1 \<Longrightarrow> thread_runs env t m1 m' \<Longrightarrow> thread_runs env t m m'"
  unfolding thread_runs_def by (rule rtranclp_trans)

section \<open>Selectors after updates\<close>

named_theorems machine_simps "what the updates of the machine leave"

lemma machine_updates [machine_simps, simp]:
  "i < length (m_routines m) \<Longrightarrow> rout (set_rout i r m) i = r"
  "i \<noteq> j \<Longrightarrow> rout (set_rout i r m) j = rout m j"
  "length (m_routines (set_rout i r m)) = length (m_routines m)"
  "rout (set_ord t od m) i = rout m i" "rout (set_ctl t c m) i = rout m i"
  "rout (m\<lparr>m_world := s\<rparr>) i = rout m i" "rout (m\<lparr>m_queue := q\<rparr>) i = rout m i"
  "m_ord (set_rout i r m) = m_ord m" "m_ord (set_ctl t c m) = m_ord m"
  "m_ord (set_ord t od m) = (m_ord m)(t := od)"
  "m_ctl (set_rout i r m) = m_ctl m" "m_ctl (set_ord t od m) = m_ctl m"
  "m_ctl (set_ctl t c m) = (m_ctl m)(t := c)"
  "m_queue (set_rout i r m) = m_queue m" "m_queue (set_ord t od m) = m_queue m"
  "m_queue (set_ctl t c m) = m_queue m"
  "m_world (set_rout i r m) = m_world m" "m_world (set_ord t od m) = m_world m"
  "m_world (set_ctl t c m) = m_world m"
  "m_routines (set_ord t od m) = m_routines m" "m_routines (set_ctl t c m) = m_routines m"
  "m_routines (set_rout i r m) = (m_routines m)[i := r]"
  by (simp_all add: rout_def set_rout_def set_ord_def set_ctl_def)

lemma ordinator_collapse [simp]:
  "(od :: ('p, 'e) ThreadOrdinator)\<lparr>to_current := a, to_ctx := b\<rparr> = \<lparr>to_current = a, to_ctx = b\<rparr>"
  by simp

section \<open>One thread outside of routines\<close>

text \<open>
  The view of \<^verbatim>\<open>Coroutine\<close>: where a routine goes on, and what its code does up to the next event,
  as far as that is a yield or the end.
\<close>

definition saved_of :: "('p, 'e) CorRoutine \<Rightarrow> 'p saved" where
  "saved_of r =
     (case cr_ctx r of
        Some Entry \<Rightarrow> At (cr_func r)
      | Some (Ctx st (Code p)) \<Rightarrow> At p
      | _ \<Rightarrow> AtEnd)"

definition abs_routine :: "('p, 'e) CorRoutine \<Rightarrow> ('p, 'e) Routine" where
  "abs_routine r = \<lparr>r_func = cr_func r, r_finished = cr_finished r, r_ctx = saved_of r,
     r_exception = cr_exception r\<rparr>"

definition abs_machine :: "nat \<Rightarrow> ('p, 'e, 's) cor_machine \<Rightarrow> ('p, 'e) Ordinator" where
  "abs_machine t m = \<lparr>routines = map abs_routine (m_routines m), finished = m_queue m,
     current = to_current (m_ord m t)\<rparr>"

definition run_of :: "('p, 'e, 's) cor_env \<Rightarrow> 'p \<Rightarrow> 's \<Rightarrow> ('s \<times> ('p, 'e) outcome) option" where
  "run_of env p s =
     (case code env p s of
        Some (s, Yields p) \<Rightarrow> Some (s, Yielded p)
      | Some (s, Returns) \<Rightarrow> Some (s, Returned)
      | Some (s, Throws e) \<Rightarrow> Some (s, Threw e)
      | _ \<Rightarrow> None)"

text \<open>Every routine is the thread's: made by it, and suspended with its ordinator if it is not done.\<close>

definition at_home :: "nat \<Rightarrow> nat \<Rightarrow> ('p, 'e) CorRoutine \<Rightarrow> bool" where
  "at_home t i r \<longleftrightarrow> cr_link r = t \<and> cr_made r = t \<and> (\<not> cr_finished r \<longrightarrow>
     (case cr_ctx r of
        Some Entry \<Rightarrow> True
      | Some (Ctx st (Code p)) \<Rightarrow> st = OfRoutine i t
      | Some (Ctx st BehindSwap) \<Rightarrow> st = OfRoutine i t
      | _ \<Rightarrow> False))"

definition home :: "nat \<Rightarrow> ('p, 'e, 's) cor_machine \<Rightarrow> bool" where
  "home t m \<longleftrightarrow> (\<forall>i < length (m_routines m). at_home t i (rout m i)) \<and>
     (\<forall>i\<in>set (m_queue m). i < length (m_routines m))"

lemma abs_machine_facts [simp]:
  "length (routines (abs_machine t m)) = length (m_routines m)"
  "finished (abs_machine t m) = m_queue m" "current (abs_machine t m) = to_current (m_ord m t)"
  "i < length (m_routines m) \<Longrightarrow> routines (abs_machine t m) ! i = abs_routine (rout m i)"
  by (simp_all add: abs_machine_def rout_def)

lemma abs_routine_facts [simp]:
  "r_func (abs_routine r) = cr_func r" "r_finished (abs_routine r) = cr_finished r"
  "r_ctx (abs_routine r) = saved_of r" "r_exception (abs_routine r) = cr_exception r"
  by (simp_all add: abs_routine_def)

lemma abs_machineI:
  assumes "m_routines m' = (m_routines m)[i := r]" "m_queue m' = q" "to_current (m_ord m' t) = c"
    and "abs_routine r = r'"
  shows "abs_machine t m' = \<lparr>routines = (routines (abs_machine t m))[i := r'], finished = q, current = c\<rparr>"
  using assms by (simp add: abs_machine_def map_update)

lemma homeI:
  assumes "home t m" "m_routines m' = (m_routines m)[i := r]" "set (m_queue m') \<subseteq> insert i (set (m_queue m))"
    and "i < length (m_routines m)" "at_home t i r"
  shows "home t m'"
proof -
  have "at_home t j (rout m' j)" if "j < length (m_routines m')" for j
    using that assms by (cases "j = i") (simp_all add: home_def rout_def)
  then show ?thesis using assms by (auto simp: home_def)
qed

lemma machine_create_refines:
  assumes "home t m" "machine_create t f m = (m', i)"
  shows "cor_create f (abs_machine t m) = (abs_machine t m', i) \<and> home t m'"
proof (cases "m_queue m")
  case Nil
  then have m': "m' = m\<lparr>m_routines := m_routines m @ [CorRoutine_new t f]\<rparr>" "i = length (m_routines m)"
    using assms(2) by (simp_all add: machine_create_def)
  have "at_home t j (rout m' j)" if "j < length (m_routines m')" for j
    using that assms(1)
    by (cases "j < length (m_routines m)")
      (auto simp: m' home_def rout_def nth_append at_home_def CorRoutine_new_def)
  then show ?thesis using assms(1) Nil
    by (auto simp: home_def cor_create_def abs_machine_def m' abs_routine_def CorRoutine_new_def
        Routine_new_def saved_of_def)
next
  case (Cons j q)
  then have m': "m' = set_rout j (CorRoutine_reset f (rout m j)) (m\<lparr>m_queue := q\<rparr>)" "i = j"
    using assms(2) by (auto simp: machine_create_def)
  have j: "j < length (m_routines m)" using assms(1) Cons by (simp add: home_def)
  have "at_home t j (CorRoutine_reset f (rout m j))"
    using assms(1) j by (simp add: home_def at_home_def CorRoutine_reset_def)
  then have "home t m'" using j Cons by (intro homeI[OF assms(1), of m' j]) (auto simp: m')
  moreover have "abs_machine t m' = \<lparr>routines = (routines (abs_machine t m))
      [j := Routine_reset f (abs_routine (rout m j))], finished = q, current = current (abs_machine t m)\<rparr>"
    using j by (intro abs_machineI[where r = "CorRoutine_reset f (rout m j)"])
      (simp_all add: m' CorRoutine_reset_def Routine_reset_def abs_routine_def saved_of_def)
  moreover have "cor_create f (abs_machine t m) = (\<lparr>routines = (routines (abs_machine t m))
      [j := Routine_reset f (abs_routine (rout m j))], finished = q, current = current (abs_machine t m)\<rparr>, i)"
    using j by (simp add: cor_create_def Cons m'(2) upd_def)
  ultimately show ?thesis by simp
qed

text \<open>The code of a routine runs to its next switch, and the thread goes on where it was resumed.\<close>

lemma code_to_switch:
  assumes "m_ctl m t = Ctx (OfRoutine i t0) (Code q)" "to_current (m_ord m t) = Some i"
    and "to_ctx (m_ord m t) = Some c0" "i < length (m_routines m)"
    and "cr_link (rout m i) = t" "\<And>s. swap_ok env s" "run_of env q (m_world m) = Some (s', out)"
  shows "\<exists>m2. machine_step env t m = Some (Inr m2) \<and>
    m_ctl m2 = (m_ctl m)(t := c0) \<and> m_world m2 = s' \<and> m_queue m2 = m_queue m \<and>
    m_ord m2 = (m_ord m)(t := \<lparr>to_current = (case out of Yielded p \<Rightarrow> None | _ \<Rightarrow> Some i), to_ctx = None\<rparr>) \<and>
    m_routines m2 = (m_routines m)[i := (rout m i)\<lparr>
      cr_exception := (case out of Threw e \<Rightarrow> Some e | _ \<Rightarrow> cr_exception (rout m i)),
      cr_ctx := Some (Ctx (OfRoutine i t0) (case out of Yielded p \<Rightarrow> Code p | _ \<Rightarrow> BehindSwap))\<rparr>]"
proof -
  obtain c where c: "code env q (m_world m) = Some (s', c)" and
    out: "(\<exists>p. c = Yields p \<and> out = Yielded p) \<or> c = Returns \<and> out = Returned \<or> (\<exists>e. c = Throws e \<and> out = Threw e)"
    using assms(7) by (auto simp: run_of_def split: option.splits call.splits)
  have upd: "rout m i\<lparr>cr_exception := cr_exception (rout m i), cr_ctx := x\<rparr> = rout m i\<lparr>cr_ctx := x\<rparr>" for x
    by simp
  have ord: "(m_ord m t)\<lparr>to_ctx := None\<rparr> = \<lparr>to_current = Some i, to_ctx = None\<rparr>"
      "(m_ord m t)\<lparr>to_current := None, to_ctx := None\<rparr> = \<lparr>to_current = None, to_ctx = None\<rparr>"
    using assms(2) by simp_all
  show ?thesis
    using out assms(1-6) c
    by (elim disjE exE conjE)
      (simp_all add: machine_step_def machine_yield_def entry_switch_def switch_back_def Let_def upd ord
        set_rout_def[symmetric])
qed

text \<open>\<^verbatim>\<open>resume\<close> of a routine that is not done, up to its switch.\<close>

lemma resume_switches:
  assumes "m_ctl m t = Ctx st (Code p)" "code env p (m_world m) = Some (s, Resumes i k)"
    and "i < length (m_routines m)" "swap_ok env s" "\<not> cr_finished (rout m i)" "cr_ctx (rout m i) = Some c"
  obtains m1 where "machine_step env t m = Some (Inr m1)" "m_ctl m1 = (m_ctl m)(t := c)"
    "m_world m1 = s" "m_queue m1 = m_queue m"
    "m_ord m1 = (m_ord m)(t := \<lparr>to_current = Some i, to_ctx = Some (Ctx st (InResume i k))\<rparr>)"
    "m_routines m1 = (m_routines m)[i := (rout m i)\<lparr>cr_link := t, cr_ctx := None\<rparr>]"
proof -
  let ?M = "set_ord t \<lparr>to_current = Some i, to_ctx = Some (Ctx st (InResume i k))\<rparr>
    (set_rout i ((rout m i)\<lparr>cr_link := t\<rparr>) (set_ord t ((m_ord m t)\<lparr>to_current := Some i\<rparr>) (m\<lparr>m_world := s\<rparr>)))"
  let ?m1 = "set_ctl t c (set_rout i ((rout m i)\<lparr>cr_link := t, cr_ctx := None\<rparr>) ?M)"
  have ord: "(m_ord m t)\<lparr>to_current := Some i, to_ctx := x\<rparr> = \<lparr>to_current = Some i, to_ctx = x\<rparr>" for x
    by simp
  have "machine_step env t m = Some (Inr ?m1)"
    using assms by (cases st) (simp_all add: ord machine_step_def machine_resume_def switch_routine_def Let_def)
  then show thesis using assms(3) by (intro that[of ?m1]) simp_all
qed

lemma step_behind:
  "m_ctl m t = Ctx st (InResume i k) \<Longrightarrow> machine_step env t m = Some (Inr (resume_behind_swap t st i k m))"
  by (cases st) (simp_all add: machine_step_def)

lemma resume_returns:
  assumes "m_ctl m t = Ctx st (InResume i k)"
  obtains m' where "machine_step env t m = Some (Inr m')" "m_routines m' = m_routines m"
    "m_queue m' = m_queue m" "m_ord m' = m_ord m" "m_world m' = m_world m"
    "m_ctl m' t = Ctx st (Code (k (case cr_exception (rout m i) of Some e \<Rightarrow> Inl e | None \<Rightarrow> Inr True)))"
  by (rule that[OF step_behind[OF assms]]) (simp_all add: resume_behind_swap_def)

lemma entry_finishes:
  assumes "m_ctl m t = Ctx (OfRoutine i t) BehindSwap" "to_ctx (m_ord m t) = Some c"
    and "i < length (m_routines m)" "cr_link (rout m i) = t" "late_link env \<or> cr_made (rout m i) = t"
  obtains m2 where "machine_step env t m = Some (Inr m2)" "m_ctl m2 = (m_ctl m)(t := c)" "m_world m2 = m_world m"
    "m_queue m2 = m_queue m @ [i]" "m_ord m2 = (m_ord m)(t := \<lparr>to_current = None, to_ctx = None\<rparr>)"
    "m_routines m2 = (m_routines m)[i := (rout m i)\<lparr>cr_finished := True\<rparr>]"
proof -
  let ?M = "(set_ord t ((m_ord m t)\<lparr>to_current := None\<rparr>)
    (set_rout i ((rout m i)\<lparr>cr_finished := True\<rparr>) m))\<lparr>m_queue := m_queue m @ [i]\<rparr>"
  let ?m2 = "set_ctl t c (set_ord t ((m_ord ?M t)\<lparr>to_ctx := None\<rparr>) ?M)"
  have "machine_step env t m = Some (Inr ?m2)"
    using assms by (auto simp: machine_step_def entry_end_def MainOrdinator_emplace_def switch_back_def Let_def)
  then show thesis by (rule that) simp_all
qed

text \<open>The last step of \<^verbatim>\<open>resume\<close>, from a state that differs in one routine.\<close>

lemma resume_ends:
  assumes "home t m" "i < length (m_routines m)" "at_home t i r'" "m_routines m2 = (m_routines m)[i := r']"
    and "set (m_queue m2) \<subseteq> insert i (set (m_queue m))" "m_ctl m2 t = Ctx st (InResume i k)"
  obtains m' where "machine_step env t m2 = Some (Inr m')"
    "m_ctl m' t = Ctx st (Code (k (case cr_exception r' of Some e \<Rightarrow> Inl e | None \<Rightarrow> Inr True)))"
    "m_world m' = m_world m2" "home t m'"
    "abs_machine t m' = \<lparr>routines = (routines (abs_machine t m))[i := abs_routine r'],
      finished = m_queue m2, current = to_current (m_ord m2 t)\<rparr>"
proof -
  obtain m' where m': "machine_step env t m2 = Some (Inr m')" "m_routines m' = m_routines m2"
    "m_queue m' = m_queue m2" "m_ord m' = m_ord m2" "m_world m' = m_world m2"
    "m_ctl m' t = Ctx st (Code (k (case cr_exception (rout m2 i) of Some e \<Rightarrow> Inl e | None \<Rightarrow> Inr True)))"
    by (rule resume_returns[OF assms(6)])
  have "rout m2 i = r'" using assms(2,4) by (simp add: rout_def)
  moreover have "home t m'" using m'(2,3) assms by (intro homeI[of t m m' i r']) simp_all
  moreover have "abs_machine t m' = \<lparr>routines = (routines (abs_machine t m))[i := abs_routine r'],
      finished = m_queue m2, current = to_current (m_ord m2 t)\<rparr>"
    using m'(2-4) assms(4) by (intro abs_machineI) simp_all
  ultimately show thesis using m'(1,5,6) by (intro that[of m']) simp_all
qed

lemma machine_resume_refines:
  assumes "home t m" "m_ctl m t = Ctx (OfThread t) (Code p)" "code env p (m_world m) = Some (s, Resumes i k)"
    and "i < length (m_routines m)" "\<And>s. swap_ok env s"
    and "cor_resume (run_of env) i (abs_machine t m) s = Some (a, s', r)"
  shows "\<exists>m'. thread_runs env t m m' \<and> m_ctl m' t = Ctx (OfThread t) (Code (k r)) \<and>
    abs_machine t m' = a \<and> m_world m' = s' \<and> home t m'"
proof (cases "cr_finished (rout m i)")
  case True
  let ?m' = "set_ctl t (Ctx (OfThread t) (Code (k (Inr False)))) (m\<lparr>m_world := s\<rparr>)"
  have "machine_step env t m = Some (Inr ?m')"
    using assms(2,3) True by (simp add: machine_step_def machine_resume_def)
  moreover have "home t ?m'" using assms(1) by (simp add: home_def)
  moreover have "a = abs_machine t m \<and> s' = s \<and> r = Inr False"
    using assms(4,6) True by (simp add: cor_resume_def)
  moreover have "abs_machine t ?m' = abs_machine t m" by (simp add: abs_machine_def)
  ultimately show ?thesis by (intro exI[of _ ?m']) (simp add: thread_runs_step)
next
  case False
  let ?r = "rout m i"
  have home_i: "at_home t i ?r" using assms(1,4) by (simp add: home_def)
  obtain c where c: "cr_ctx ?r = Some c" "cr_link ?r = t"
    using home_i False by (auto simp: at_home_def split: option.splits)
  then have same: "(rout m i)\<lparr>cr_link := t, cr_ctx := None\<rparr> = (rout m i)\<lparr>cr_ctx := None\<rparr>" by auto
  obtain m1 where step1: "machine_step env t m = Some (Inr m1)" and m1: "m_ctl m1 t = c"
    "m_world m1 = s" "m_queue m1 = m_queue m" "to_current (m_ord m1 t) = Some i"
    "to_ctx (m_ord m1 t) = Some (Ctx (OfThread t) (InResume i k))"
    "m_routines m1 = (m_routines m)[i := ?r\<lparr>cr_ctx := None\<rparr>]"
    by (rule resume_switches[OF assms(2-5) False c(1)]) (simp add: same)
  have r1: "rout m1 i = ?r\<lparr>cr_ctx := None\<rparr>" "i < length (m_routines m1)" using m1(6) assms(4) by (simp_all add: rout_def)
  have link: "cr_link (rout m1 i) = t" "cr_made (rout m1 i) = t" using home_i r1(1) by (simp_all add: at_home_def)
  show ?thesis
  proof (cases "c = Ctx (OfRoutine i t) BehindSwap")
    case True
    then have at_end: "saved_of ?r = AtEnd" using c by (simp add: saved_of_def)
    obtain m2 where m2: "machine_step env t m1 = Some (Inr m2)" "m_ctl m2 t = Ctx (OfThread t) (InResume i k)"
      "m_world m2 = s" "m_queue m2 = m_queue m @ [i]" "to_current (m_ord m2 t) = None"
      "m_routines m2 = (m_routines m1)[i := (rout m1 i)\<lparr>cr_finished := True\<rparr>]"
      using entry_finishes[OF m1(1)[unfolded True] m1(5) r1(2) link(1) disjI2[OF link(2)], of env] m1(2,3)
      by (metis ThreadOrdinator.select_convs(1) fun_upd_same)
    let ?r' = "(rout m1 i)\<lparr>cr_finished := True\<rparr>"
    have "at_home t i ?r'" using link by (simp add: at_home_def)
    moreover have "m_routines m2 = (m_routines m)[i := ?r']" using m2(6) m1(6) by simp
    moreover have "set (m_queue m2) \<subseteq> insert i (set (m_queue m))" using m2(4) by auto
    ultimately obtain m' where m': "machine_step env t m2 = Some (Inr m')"
      "m_ctl m' t = Ctx (OfThread t) (Code (k (case cr_exception ?r' of Some e \<Rightarrow> Inl e | None \<Rightarrow> Inr True)))"
      "m_world m' = m_world m2" "home t m'"
      "abs_machine t m' = \<lparr>routines = (routines (abs_machine t m))[i := abs_routine ?r'],
        finished = m_queue m2, current = to_current (m_ord m2 t)\<rparr>"
      using resume_ends[OF assms(1,4) _ _ _ m2(2)] by metis
    have "abs_routine ?r' = (abs_routine ?r)\<lparr>r_finished := True\<rparr>"
      using at_end r1(1) by (simp add: abs_routine_def saved_of_def)
    then have "a = abs_machine t m' \<and> s' = s \<and>
        r = (case cr_exception ?r' of Some e \<Rightarrow> Inl e | None \<Rightarrow> Inr True)"
      using assms(4,6) False at_end m'(5) m2(4,5) r1(1)
      by (auto simp: cor_resume_def switch_to_def Let_def upd_def split: option.splits)
    then show ?thesis using step1 m2(1,3) m'(1-4) by (blast intro: thread_runs_step thread_runs_refl)
  next
    case False
    then obtain q where q: "c = Entry \<and> q = cr_func ?r \<or> c = Ctx (OfRoutine i t) (Code q)"
      using home_i c \<open>\<not> cr_finished ?r\<close> by (auto simp: at_home_def split: ucontext.splits code_point.splits)
    then have at_q: "saved_of ?r = At q" using c by (auto simp: saved_of_def)
    let ?m1 = "set_ctl t (Ctx (OfRoutine i t) (Code q)) m1"
    have starts: "thread_runs env t ?m1 m' \<Longrightarrow> thread_runs env t m1 m'" for m'
    proof (cases "c = Entry")
      case True
      then have "machine_step env t m1 = Some (Inr ?m1)"
        using q m1(1,4) r1(1) by (simp add: machine_step_def entry_start_def)
      then show "thread_runs env t ?m1 m' \<Longrightarrow> thread_runs env t m1 m'" by (rule thread_runs_step)
    next
      case False
      then have "?m1 = m1" using q m1(1) by (simp add: set_ctl_def fun_upd_idem)
      then show "thread_runs env t ?m1 m' \<Longrightarrow> thread_runs env t m1 m'" by simp
    qed
    obtain s1 out where run: "run_of env q s = Some (s1, out)"
      using assms(4,6) at_q \<open>\<not> cr_finished ?r\<close> by (auto simp: cor_resume_def switch_to_def split: option.splits)
    let ?r' = "?r\<lparr>cr_exception := (case out of Threw e \<Rightarrow> Some e | _ \<Rightarrow> cr_exception ?r),
      cr_ctx := Some (Ctx (OfRoutine i t) (case out of Yielded p \<Rightarrow> Code p | _ \<Rightarrow> BehindSwap))\<rparr>"
    have r_m1: "rout ?m1 i = ?r\<lparr>cr_ctx := None\<rparr>" using r1(1) by simp
    obtain m2 where m2: "machine_step env t ?m1 = Some (Inr m2)"
      "m_ctl m2 t = Ctx (OfThread t) (InResume i k)" "m_world m2 = s1" "m_queue m2 = m_queue m"
      "to_current (m_ord m2 t) = (case out of Yielded p \<Rightarrow> None | _ \<Rightarrow> Some i)" "m_routines m2 = (m_routines m)[i := ?r']"
      using code_to_switch[of ?m1 t i t q _ env s1 out, unfolded r_m1] m1 r1(2) link(1) r_m1 assms(5) run
      by (auto cong: outcome.case_cong)
    have "at_home t i ?r'" using home_i by (auto simp: at_home_def split: outcome.splits)
    then obtain m' where m': "machine_step env t m2 = Some (Inr m')"
      "m_ctl m' t = Ctx (OfThread t) (Code (k (case cr_exception ?r' of Some e \<Rightarrow> Inl e | None \<Rightarrow> Inr True)))"
      "m_world m' = m_world m2" "home t m'"
      "abs_machine t m' = \<lparr>routines = (routines (abs_machine t m))[i := abs_routine ?r'],
        finished = m_queue m2, current = to_current (m_ord m2 t)\<rparr>"
      using resume_ends[OF assms(1,4) _ m2(6) _ m2(2)] m2(4) by (metis subset_insertI)
    have "a = abs_machine t m' \<and> s' = s1 \<and>
        r = (case cr_exception ?r' of Some e \<Rightarrow> Inl e | None \<Rightarrow> Inr True)"
      using assms(4,6) \<open>\<not> cr_finished ?r\<close> at_q m'(5) m2(4,5) run
      by (cases out) (auto simp: cor_resume_def switch_to_def Let_def upd_def abs_routine_def saved_of_def
          split: option.splits)
    moreover have "thread_runs env t m m'"
      using thread_runs_step[OF step1 starts] thread_runs_step[OF m2(1)] thread_runs_step[OF m'(1)] by simp
    ultimately show ?thesis using m2(3) m'(2-4) by auto
  qed
qed

end
