(* ===== verification/Coroutine_Threads.thy ===== *)
theory Coroutine_Threads
  imports Coroutine_Machine
begin

text \<open>
  What threads may do with routines: as long as routines are resumed outside of routines only,
  not while they run, and for the last time on the thread they were started on, nothing is
  undefined; what happens to those who resume from inside a routine, or finish on another thread.
\<close>

section \<open>A routine that resumes another\<close>

fun gives_back :: "('p, 'e) call \<Rightarrow> bool" where
  "gives_back (Yields p) = True"
| "gives_back Returns = True"
| "gives_back (Throws e) = True"
| "gives_back _ = False"

lemma gives_back_faults:
  assumes "m_ctl m t = Ctx (OfRoutine i t0) (Code p)" "to_ctx (m_ord m t) = None"
    and "cr_link (rout m i) = t" "i < length (m_routines m)" "\<And>s. swap_ok env s"
    and "code env p (m_world m) = Some (s, c)" "gives_back c"
  shows "\<exists>flt. machine_step env t m = Some (Inl flt)"
  using assms
  by (cases c) (simp_all add: machine_step_def machine_yield_def entry_switch_def switch_back_def Let_def
      split: option.splits)

text \<open>
  The code that a routine runs when it is resumed, with its thread and its stack: its function, or
  from behind its last yield, to the next yield or the end; or the end of \<^verbatim>\<open>entry\<close>, which comes
  back to this thread if its context was made for it or the system looks at the new link.
\<close>

definition stretch ::
  "('p, 'e, 's) cor_env \<Rightarrow> nat \<Rightarrow> nat \<Rightarrow> ('p, 'e) CorRoutine \<Rightarrow> 's \<Rightarrow> 's \<Rightarrow> bool" where
  "stretch env t j r s s' =
     (case cr_ctx r of
        Some Entry \<Rightarrow> \<exists>out. run_of env (cr_func r) s = Some (s', out)
      | Some (Ctx (OfRoutine j' t1) (Code q)) \<Rightarrow> j' = j \<and> (\<exists>out. run_of env q s = Some (s', out))
      | Some (Ctx (OfRoutine j' t1) BehindSwap) \<Rightarrow> j' = j \<and> s' = s \<and> (late_link env \<or> cr_made r = t)
      | _ \<Rightarrow> False)"

text \<open>A resumed routine switches back to where \<^verbatim>\<open>resume\<close> was called; the saved context is used.\<close>

lemma switched_comes_back:
  assumes "m_ctl m t = Ctx (OfRoutine j t1) (Code q)" "to_current (m_ord m t) = Some j"
    and "to_ctx (m_ord m t) = Some c0" "j < length (m_routines m)" "cr_link (rout m j) = t"
    and "\<And>s. swap_ok env s" "run_of env q (m_world m) = Some (s', out)"
  shows "\<exists>m2. thread_runs env t m m2 \<and> m_ctl m2 t = c0 \<and> m_world m2 = s' \<and>
    to_ctx (m_ord m2 t) = None \<and> (\<exists>r. m_routines m2 = (m_routines m)[j := r])"
proof -
  obtain m2 where "machine_step env t m = Some (Inr m2)" "m_ctl m2 = (m_ctl m)(t := c0)" "m_world m2 = s'"
    "to_ctx (m_ord m2 t) = None" "\<exists>r. m_routines m2 = (m_routines m)[j := r]"
    using code_to_switch[OF assms] by fastforce
  then show ?thesis using thread_runs_step[OF _ thread_runs_refl] by fastforce
qed

lemma ended_comes_back:
  assumes "m_ctl m t = Ctx (OfRoutine j t1) BehindSwap" "to_ctx (m_ord m t) = Some c0"
    and "j < length (m_routines m)" "cr_link (rout m j) = t" "late_link env \<or> cr_made (rout m j) = t"
  shows "\<exists>m2. thread_runs env t m m2 \<and> m_ctl m2 t = c0 \<and> m_world m2 = m_world m \<and>
    to_ctx (m_ord m2 t) = None \<and> (\<exists>r. m_routines m2 = (m_routines m)[j := r])"
proof -
  let ?M = "(set_ord t1 ((m_ord m t1)\<lparr>to_current := None\<rparr>)
    (set_rout j ((rout m j)\<lparr>cr_finished := True\<rparr>) m))\<lparr>m_queue := m_queue m @ [j]\<rparr>"
  let ?m2 = "set_ctl t c0 (set_ord t ((m_ord ?M t)\<lparr>to_ctx := None\<rparr>) ?M)"
  have "machine_step env t m = Some (Inr ?m2)"
    using assms by (auto simp: machine_step_def entry_end_def MainOrdinator_emplace_def switch_back_def Let_def)
  then have "thread_runs env t m ?m2" by (rule thread_runs_step[OF _ thread_runs_refl])
  moreover have "m_routines ?m2 = (m_routines m)[j := (rout m j)\<lparr>cr_finished := True\<rparr>]" by simp
  ultimately show ?thesis by (intro exI[of _ ?m2]) auto
qed

lemma stretch_comes_back:
  assumes "m_ctl m t = c" "cr_ctx r = Some c" "stretch env t j r (m_world m) s'"
    and "rout m j = r\<lparr>cr_link := t, cr_ctx := None\<rparr>" "to_current (m_ord m t) = Some j"
    and "to_ctx (m_ord m t) = Some c0" "j < length (m_routines m)" "\<And>s. swap_ok env s"
  shows "\<exists>m2. thread_runs env t m m2 \<and> m_ctl m2 t = c0 \<and> m_world m2 = s' \<and>
    to_ctx (m_ord m2 t) = None \<and> (\<exists>r. m_routines m2 = (m_routines m)[j := r])"
proof -
  have link: "cr_link (rout m j) = t" using assms(4) by simp
  consider "c = Entry" | t1 q where "c = Ctx (OfRoutine j t1) (Code q)" | t1 where "c = Ctx (OfRoutine j t1) BehindSwap"
    using assms(2,3) by (auto simp: stretch_def split: ucontext.splits stack.splits code_point.splits)
  then show ?thesis
  proof cases
    case 1
    let ?m1 = "set_ctl t (Ctx (OfRoutine j t) (Code (cr_func r))) m"
    obtain out where run: "run_of env (cr_func r) (m_world m) = Some (s', out)"
      using assms(2,3) 1 by (auto simp: stretch_def)
    have "machine_step env t m = Some (Inr ?m1)"
      using assms(1,4,5) 1 by (simp add: machine_step_def entry_start_def)
    moreover have "\<exists>m2. thread_runs env t ?m1 m2 \<and> m_ctl m2 t = c0 \<and> m_world m2 = s' \<and>
        to_ctx (m_ord m2 t) = None \<and> (\<exists>r. m_routines m2 = (m_routines m)[j := r])"
      using switched_comes_back[of ?m1 t j t "cr_func r" c0 env s' out] assms(5-8) link run by simp
    ultimately show ?thesis using thread_runs_step by blast
  next
    case (2 t1 q)
    then obtain out where "run_of env q (m_world m) = Some (s', out)" using assms(2,3) by (auto simp: stretch_def)
    then show ?thesis by (rule switched_comes_back[OF assms(1)[unfolded 2] assms(5-7) link assms(8)])
  next
    case (3 t1)
    then have "s' = m_world m" "late_link env \<or> cr_made (rout m j) = t"
      using assms(2-4) by (simp_all add: stretch_def)
    then show ?thesis using ended_comes_back[OF assms(1)[unfolded 3] assms(6,7) link] by simp
  qed
qed

lemma nested_resume:
  assumes "m_ctl m t = Ctx (OfRoutine i t0) (Code p)" "cr_link (rout m i) = t" "i < length (m_routines m)"
    and "code env p (m_world m) = Some (s, Resumes j k)" "j < length (m_routines m)" "j \<noteq> i"
    and "\<And>s. swap_ok env s" "\<not> cr_finished (rout m j)" "stretch env t j (rout m j) s s1"
  shows "\<exists>m' r. thread_runs env t m m' \<and> m_ctl m' t = Ctx (OfRoutine i t0) (Code (k r)) \<and> m_world m' = s1 \<and>
    (\<forall>s2 c. code env (k r) s1 = Some (s2, c) \<longrightarrow> gives_back c \<longrightarrow> (\<exists>flt. machine_step env t m' = Some (Inl flt)))"
proof -
  obtain c where c: "cr_ctx (rout m j) = Some c" using assms(9) by (auto simp: stretch_def split: option.splits)
  obtain m1 where m1: "machine_step env t m = Some (Inr m1)" "m_ctl m1 = (m_ctl m)(t := c)" "m_world m1 = s"
    "m_ord m1 = (m_ord m)(t := \<lparr>to_current = Some j, to_ctx = Some (Ctx (OfRoutine i t0) (InResume j k))\<rparr>)"
    "m_routines m1 = (m_routines m)[j := (rout m j)\<lparr>cr_link := t, cr_ctx := None\<rparr>]"
    by (rule resume_switches[OF assms(1,4,5,7,8) c])
  have r1: "rout m1 j = (rout m j)\<lparr>cr_link := t, cr_ctx := None\<rparr>" "j < length (m_routines m1)" "rout m1 i = rout m i"
    using m1(5) assms(5,6) by (simp_all add: rout_def)
  obtain m2 r where m2: "thread_runs env t m1 m2" "m_ctl m2 t = Ctx (OfRoutine i t0) (InResume j k)" "m_world m2 = s1"
    "to_ctx (m_ord m2 t) = None" "m_routines m2 = (m_routines m1)[j := r]"
    using stretch_comes_back[of m1 t c "rout m j" env j s1 "Ctx (OfRoutine i t0) (InResume j k)"] m1 r1 c assms(7,9)
    by auto
  obtain m3 where m3: "machine_step env t m2 = Some (Inr m3)" "m_routines m3 = m_routines m2"
    "m_ord m3 = m_ord m2" "m_world m3 = m_world m2"
    "m_ctl m3 t = Ctx (OfRoutine i t0) (Code (k (case cr_exception (rout m2 j) of Some e \<Rightarrow> Inl e | None \<Rightarrow> Inr True)))"
    by (rule resume_returns[OF m2(2)])
  have "cr_link (rout m3 i) = t" "i < length (m_routines m3)"
    using r1(3) assms(2,3,6) m1(5) m2(5) m3(2) by (simp_all add: rout_def)
  moreover have "to_ctx (m_ord m3 t) = None" "m_world m3 = s1" using m2(3,4) m3(3,4) by simp_all
  moreover have "thread_runs env t m m3"
    using thread_runs_step[OF m1(1)] thread_runs_trans[OF m2(1) thread_runs_step[OF m3(1) thread_runs_refl]] .
  ultimately show ?thesis using gives_back_faults[OF m3(5) _ _ _ assms(7)] m3(5) by blast
qed

lemma nested_finished:
  assumes "m_ctl m t = Ctx (OfRoutine i t0) (Code p)" "code env p (m_world m) = Some (s, Resumes j k)"
    and "cr_finished (rout m j)"
  shows "machine_step env t m = Some (Inr (set_ctl t (Ctx (OfRoutine i t0) (Code (k (Inr False)))) (m\<lparr>m_world := s\<rparr>)))"
  using assms by (simp add: machine_step_def machine_resume_def)

section \<open>A routine that is finished on another thread\<close>

lemma foreign_finish:
  assumes "m_ctl m t = Ctx (OfThread t) (Code p)" "code env p (m_world m) = Some (s, Resumes i k)"
    and "i < length (m_routines m)" "\<not> cr_finished (rout m i)"
    and "cr_ctx (rout m i) = Some (Ctx (OfRoutine i t0) BehindSwap)" "t0 \<noteq> t" "\<And>s. swap_ok env s"
    and "m_ctl m t0 = Ctx (OfRoutine j t0) (Code q)"
  shows "(late_link env \<or> cr_made (rout m i) = t \<longrightarrow>
      (\<exists>m' r. thread_runs env t m m' \<and> m_ctl m' t = Ctx (OfThread t) (Code (k r)) \<and> m_world m' = s \<and>
        to_current (m_ord m' t) = Some i \<and> i \<in> set (m_queue m') \<and> m_ctl m' t0 = m_ctl m t0 \<and>
        (\<forall>s2 q2. code env q s = Some (s2, Yields q2) \<longrightarrow> machine_step env t0 m' = Some (Inl NullRoutine)))) \<and>
    (\<not> late_link env \<and> cr_made (rout m i) \<noteq> t \<longrightarrow>
      (case to_ctx (m_ord m (cr_made (rout m i))) of
         None \<Rightarrow> \<exists>m1. machine_step env t m = Some (Inr m1) \<and> machine_step env t m1 = Some (Inl UsedContext)
       | Some c \<Rightarrow> \<exists>m'. thread_runs env t m m' \<and> m_ctl m' t = c \<and>
           to_ctx (m_ord m' (cr_made (rout m i))) = None))"
proof -
  obtain m1 where m1: "machine_step env t m = Some (Inr m1)" "m_ctl m1 = (m_ctl m)(t := Ctx (OfRoutine i t0) BehindSwap)"
    "m_world m1 = s" "m_queue m1 = m_queue m"
    "m_ord m1 = (m_ord m)(t := \<lparr>to_current = Some i, to_ctx = Some (Ctx (OfThread t) (InResume i k))\<rparr>)"
    "m_routines m1 = (m_routines m)[i := (rout m i)\<lparr>cr_link := t, cr_ctx := None\<rparr>]"
    by (rule resume_switches[OF assms(1-3,7,4,5)])
  have r1: "cr_link (rout m1 i) = t" "cr_made (rout m1 i) = cr_made (rout m i)" "i < length (m_routines m1)"
    using m1(6) assms(3) by (simp_all add: rout_def)
  let ?M = "(set_ord t0 ((m_ord m1 t0)\<lparr>to_current := None\<rparr>)
    (set_rout i ((rout m1 i)\<lparr>cr_finished := True\<rparr>) m1))\<lparr>m_queue := m_queue m @ [i]\<rparr>"
  let ?link = "if late_link env then t else cr_made (rout m i)"
  have step: "machine_step env t m1 = Some (switch_back t ?link ?M)"
    using m1(2,4) r1 by (simp add: machine_step_def entry_end_def MainOrdinator_emplace_def Let_def)
  have "\<exists>m' r. thread_runs env t m m' \<and> m_ctl m' t = Ctx (OfThread t) (Code (k r)) \<and> m_world m' = s \<and>
        to_current (m_ord m' t) = Some i \<and> i \<in> set (m_queue m') \<and> m_ctl m' t0 = m_ctl m t0 \<and>
        (\<forall>s2 q2. code env q s = Some (s2, Yields q2) \<longrightarrow> machine_step env t0 m' = Some (Inl NullRoutine))"
    if "late_link env \<or> cr_made (rout m i) = t"
  proof -
    let ?m2 = "set_ctl t (Ctx (OfThread t) (InResume i k)) (set_ord t \<lparr>to_current = Some i, to_ctx = None\<rparr> ?M)"
    let ?m3 = "resume_behind_swap t (OfThread t) i k ?m2"
    have link: "?link = t" using that by auto
    have ord: "m_ord ?M t = \<lparr>to_current = Some i, to_ctx = Some (Ctx (OfThread t) (InResume i k))\<rparr>"
      using m1(5) assms(6) by simp
    let ?r = "case cr_exception (rout ?m2 i) of Some e \<Rightarrow> Inl e | None \<Rightarrow> Inr True"
    have 2: "machine_step env t m1 = Some (Inr ?m2)"
      unfolding step link switch_back_def ord by simp
    have 3: "machine_step env t ?m2 = Some (Inr ?m3)" by (rule step_behind) simp
    have run: "thread_runs env t m ?m3"
      by (rule thread_runs_step[OF m1(1) thread_runs_step[OF 2 thread_runs_step[OF 3 thread_runs_refl]]])
    have flt: "machine_step env t0 ?m3 = Some (Inl NullRoutine)" if "code env q s = Some (s2, Yields q2)" for s2 q2
      using that assms(6,8) m1(2,3) by (simp add: machine_step_def machine_yield_def resume_behind_swap_def)
    have "m_ctl ?m3 t0 = m_ctl m t0" "m_ctl ?m3 t = Ctx (OfThread t) (Code (k ?r))"
      using assms(6) m1(2) by (simp_all add: resume_behind_swap_def)
    moreover have "m_world ?m3 = s" "to_current (m_ord ?m3 t) = Some i" "i \<in> set (m_queue ?m3)"
      using m1(3) by (simp_all add: resume_behind_swap_def)
    ultimately show ?thesis using run flt by (intro exI[of _ ?m3] exI[of _ ?r] conjI allI impI)
  qed
  moreover have "case to_ctx (m_ord m (cr_made (rout m i))) of
         None \<Rightarrow> \<exists>m1. machine_step env t m = Some (Inr m1) \<and> machine_step env t m1 = Some (Inl UsedContext)
       | Some c \<Rightarrow> \<exists>m'. thread_runs env t m m' \<and> m_ctl m' t = c \<and>
           to_ctx (m_ord m' (cr_made (rout m i))) = None"
    if made: "\<not> late_link env" "cr_made (rout m i) \<noteq> t"
  proof (cases "to_ctx (m_ord m (cr_made (rout m i)))")
    case None
    then have "machine_step env t m1 = Some (Inl UsedContext)"
      using step made m1(5) assms(6) by (cases "cr_made (rout m i) = t0") (simp_all add: switch_back_def)
    then show ?thesis using None m1(1) by auto
  next
    case (Some c)
    let ?t2 = "cr_made (rout m i)"
    let ?m2 = "set_ctl t c (set_ord ?t2 ((m_ord ?M ?t2)\<lparr>to_ctx := None\<rparr>) ?M)"
    have "machine_step env t m1 = Some (Inr ?m2)"
      using step made Some m1(5) assms(6) by (cases "cr_made (rout m i) = t0") (simp_all add: switch_back_def)
    then have "thread_runs env t m ?m2"
      by (rule thread_runs_step[OF m1(1) thread_runs_step[OF _ thread_runs_refl]])
    moreover have "m_ctl ?m2 t = c \<and> to_ctx (m_ord ?m2 ?t2) = None" by simp
    ultimately show ?thesis using Some by (simp only: option.simps) blast
  qed
  ultimately show ?thesis by blast
qed

section \<open>Disciplined threads\<close>

text \<open>
  The code of routines, \<^verbatim>\<open>rc\<close>, resumes no routine; that of the threads, \<^verbatim>\<open>mc\<close>, does not
  yield. Both may create routines. What other parts of the program do to the world is arbitrary.
\<close>

definition flat :: "('p, 'e, 's) cor_env \<Rightarrow> 'p set \<Rightarrow> 'p set \<Rightarrow> bool" where
  "flat env rc mc \<longleftrightarrow>
     (\<forall>p\<in>rc. \<forall>s s' c. code env p s = Some (s', c) \<longrightarrow>
        (case c of Yields q \<Rightarrow> q \<in> rc | Continues q \<Rightarrow> q \<in> rc | Resumes i k \<Rightarrow> False
         | Creates f k \<Rightarrow> f \<in> rc \<and> range k \<subseteq> rc | _ \<Rightarrow> True)) \<and>
     (\<forall>p\<in>mc. \<forall>s s' c. code env p s = Some (s', c) \<longrightarrow>
        (case c of Yields q \<Rightarrow> False | Continues q \<Rightarrow> q \<in> mc | Resumes i k \<Rightarrow> range k \<subseteq> mc
         | Creates f k \<Rightarrow> f \<in> rc \<and> range k \<subseteq> mc | _ \<Rightarrow> True))"

text \<open>
  What a thread may resume: a routine that does not run; the last time, the thread on which it
  was started, and, unless the system looks at \<^verbatim>\<open>uc_link\<close> late, for which its context was made.
\<close>

definition permitted :: "('p, 'e, 's) cor_env \<Rightarrow> nat \<Rightarrow> ('p, 'e, 's) cor_machine \<Rightarrow> bool" where
  "permitted env t m \<longleftrightarrow>
     (case m_ctl m t of
        Ctx (OfThread t') (Code p) \<Rightarrow>
          (case code env p (m_world m) of
             Some (s, Resumes i k) \<Rightarrow>
               i < length (m_routines m) \<and>
               (cr_finished (rout m i) \<or>
                (case cr_ctx (rout m i) of
                   None \<Rightarrow> False
                 | Some (Ctx (OfRoutine j t0) BehindSwap) \<Rightarrow>
                     t0 = t \<and> (late_link env \<or> cr_made (rout m i) = t)
                 | _ \<Rightarrow> True))
           | _ \<Rightarrow> True)
      | _ \<Rightarrow> True)"

inductive disciplined :: "('p, 'e, 's) cor_env \<Rightarrow> 'p set \<Rightarrow> ('p, 'e, 's) cor_machine \<Rightarrow> bool" for env mc where
  starts: "m_routines m = [] \<Longrightarrow> m_queue m = [] \<Longrightarrow> \<forall>t. \<exists>p\<in>mc. m_ctl m t = Ctx (OfThread t) (Code p) \<Longrightarrow>
    disciplined env mc m"
| goes_on: "disciplined env mc m \<Longrightarrow> permitted env t m \<Longrightarrow> machine_step env t m = Some (Inr m') \<Longrightarrow>
    disciplined env mc m'"
| moves: "disciplined env mc m \<Longrightarrow> disciplined env mc (m\<lparr>m_world := s\<rparr>)"

text \<open>A thread is outside of routines, or runs one that is its own while it does.\<close>

definition outside :: "'p set \<Rightarrow> nat \<Rightarrow> ('p, 'e, 's) cor_machine \<Rightarrow> bool" where
  "outside mc t m \<longleftrightarrow> (\<exists>p\<in>mc. m_ctl m t = Ctx (OfThread t) (Code p)) \<or>
     (\<exists>i k. m_ctl m t = Ctx (OfThread t) (InResume i k) \<and> range k \<subseteq> mc)"

definition runs_routine :: "('p, 'e, 's) cor_env \<Rightarrow> 'p set \<Rightarrow> 'p set \<Rightarrow> nat \<Rightarrow> nat \<Rightarrow> ('p, 'e, 's) cor_machine \<Rightarrow> bool" where
  "runs_routine env rc mc t i m \<longleftrightarrow> i < length (m_routines m) \<and> \<not> cr_finished (rout m i) \<and>
     cr_ctx (rout m i) = None \<and> cr_link (rout m i) = t \<and> to_current (m_ord m t) = Some i \<and>
     (\<exists>k. to_ctx (m_ord m t) = Some (Ctx (OfThread t) (InResume i k)) \<and> range k \<subseteq> mc) \<and>
     (m_ctl m t = Entry \<or> (\<exists>t0. \<exists>p\<in>rc. m_ctl m t = Ctx (OfRoutine i t0) (Code p)) \<or>
      m_ctl m t = Ctx (OfRoutine i t) BehindSwap \<and> (late_link env \<or> cr_made (rout m i) = t))"

definition routine_ok :: "'p set \<Rightarrow> nat \<Rightarrow> ('p, 'e) CorRoutine \<Rightarrow> bool" where
  "routine_ok rc i r \<longleftrightarrow> cr_func r \<in> rc \<and>
     (\<forall>c. cr_ctx r = Some c \<longrightarrow> c = Entry \<or> (\<exists>t0. \<exists>p\<in>rc. c = Ctx (OfRoutine i t0) (Code p)) \<or>
        (\<exists>t0. c = Ctx (OfRoutine i t0) BehindSwap))"

definition machine_inv :: "('p, 'e, 's) cor_env \<Rightarrow> 'p set \<Rightarrow> 'p set \<Rightarrow> ('p, 'e, 's) cor_machine \<Rightarrow> bool" where
  "machine_inv env rc mc m \<longleftrightarrow> (\<forall>t. outside mc t m \<or> (\<exists>i. runs_routine env rc mc t i m)) \<and>
     (\<forall>i < length (m_routines m). routine_ok rc i (rout m i)) \<and> distinct (m_queue m) \<and>
     (\<forall>i\<in>set (m_queue m). i < length (m_routines m) \<and> cr_finished (rout m i))"

text \<open>
  A step of one thread that changes one routine, which no other thread runs.
\<close>

lemma machine_inv_update:
  assumes "machine_inv env rc mc m"
    and "\<And>t'. t' \<noteq> t \<Longrightarrow> m_ctl m' t' = m_ctl m t' \<and> m_ord m' t' = m_ord m t'"
    and "m_routines m' = (m_routines m)[i := r]" "i < length (m_routines m) \<Longrightarrow> routine_ok rc i r"
    and "\<And>t'. t' \<noteq> t \<Longrightarrow> \<not> runs_routine env rc mc t' i m"
    and "outside mc t m' \<or> (\<exists>j. runs_routine env rc mc t j m')"
    and "distinct (m_queue m')"
    and "\<And>j. j \<in> set (m_queue m') \<Longrightarrow> j \<in> set (m_queue m) \<and> j \<noteq> i \<or>
      j < length (m_routines m) \<and> cr_finished (rout m' j)"
  shows "machine_inv env rc mc m'"
  unfolding machine_inv_def
proof (intro conjI allI impI ballI)
  have other: "rout m' j = rout m j" if "j \<noteq> i" for j using that assms(3) by (simp add: rout_def)
  fix t'
  show "outside mc t' m' \<or> (\<exists>j. runs_routine env rc mc t' j m')"
  proof (cases "t' = t")
    case True
    then show ?thesis using assms(6) by simp
  next
    case False
    note same = assms(2)[OF False]
    have "outside mc t' m \<or> (\<exists>j. runs_routine env rc mc t' j m)" using assms(1) by (simp add: machine_inv_def)
    then show ?thesis
    proof
      assume "outside mc t' m"
      then show ?thesis using same by (simp add: outside_def)
    next
      assume "\<exists>j. runs_routine env rc mc t' j m"
      then obtain j where j: "runs_routine env rc mc t' j m" by blast
      then have "j \<noteq> i" using assms(5)[OF False] by blast
      then have "runs_routine env rc mc t' j m'"
        using j same other[of j] assms(3) by (simp add: runs_routine_def)
      then show ?thesis by blast
    qed
  qed
next
  fix j assume "j < length (m_routines m')"
  then show "routine_ok rc j (rout m' j)"
    using assms(1,3,4) by (cases "j = i") (simp_all add: machine_inv_def rout_def)
next
  show "distinct (m_queue m')" by (rule assms(7))
next
  fix j assume j: "j \<in> set (m_queue m')"
  have len: "length (m_routines m') = length (m_routines m)" using assms(3) by simp
  show "j < length (m_routines m')" using assms(8)[OF j] assms(1) len by (auto simp: machine_inv_def)
  show "cr_finished (rout m' j)"
    using assms(8)[OF j] assms(1,3) by (auto simp: machine_inv_def rout_def)
qed

lemma runs_routine_link: "runs_routine env rc mc t' i m \<Longrightarrow> t' = cr_link (rout m i) \<and>
    cr_ctx (rout m i) = None \<and> \<not> cr_finished (rout m i) \<and> i < length (m_routines m)"
  by (simp add: runs_routine_def)

lemma machine_inv_world [simp]: "machine_inv env rc mc (m\<lparr>m_world := s\<rparr>) = machine_inv env rc mc m"
  by (simp add: machine_inv_def outside_def runs_routine_def)

text \<open>A step of one thread that changes its control only.\<close>

lemma machine_inv_ctl:
  assumes "machine_inv env rc mc m"
    and "outside mc t (set_ctl t c m) \<or> (\<exists>j. runs_routine env rc mc t j (set_ctl t c m))"
  shows "machine_inv env rc mc (set_ctl t c m)"
proof (rule machine_inv_update[where i = "length (m_routines m)" and t = t and r = "rout m 0"])
  fix t' show "\<not> runs_routine env rc mc t' (length (m_routines m)) m" by (simp add: runs_routine_def)
next
  fix j assume j: "j \<in> set (m_queue (set_ctl t c m))"
  then show "j \<in> set (m_queue m) \<and> j \<noteq> length (m_routines m) \<or>
      j < length (m_routines m) \<and> cr_finished (rout (set_ctl t c m) j)"
    using assms(1) by (simp add: machine_inv_def)
qed (use assms in \<open>auto simp: machine_inv_def list_update_beyond\<close>)

lemma machine_inv_thread:
  "machine_inv env rc mc m \<Longrightarrow> outside mc t m \<or> (\<exists>i. runs_routine env rc mc t i m)"
  by (simp add: machine_inv_def)

lemma machine_create_inv:
  assumes "machine_inv env rc mc m" "f \<in> rc" "machine_create t f m = (m', j)"
  shows "machine_inv env rc mc m' \<and> m_ctl m' = m_ctl m \<and> m_ord m' = m_ord m \<and>
    (\<forall>t' i. runs_routine env rc mc t' i m \<longrightarrow> runs_routine env rc mc t' i m')"
proof (cases "m_queue m")
  case Nil
  then have m': "m' = m\<lparr>m_routines := m_routines m @ [CorRoutine_new t f]\<rparr>"
    using assms(3) by (simp add: machine_create_def)
  have old: "rout m' i = rout m i" if "i < length (m_routines m)" for i
    using that by (simp add: m' rout_def nth_append)
  have runs: "runs_routine env rc mc t' i m'" if "runs_routine env rc mc t' i m" for t' i
    using that old[of i] by (simp add: runs_routine_def m')
  have "routine_ok rc i (rout m' i)" if "i < length (m_routines m')" for i
  proof (cases "i < length (m_routines m)")
    case True
    then show ?thesis using assms(1) old by (simp add: machine_inv_def)
  next
    case False
    then have "rout m' i = CorRoutine_new t f" using that by (simp add: m' rout_def nth_append)
    then show ?thesis using assms(2) by (simp add: routine_ok_def CorRoutine_new_def)
  qed
  moreover have "outside mc t' m' \<or> (\<exists>i. runs_routine env rc mc t' i m')" for t'
  proof -
    have "outside mc t' m' = outside mc t' m" by (simp add: outside_def m')
    then show ?thesis using machine_inv_thread[OF assms(1), of t'] runs by blast
  qed
  ultimately show ?thesis using Nil runs by (simp add: machine_inv_def m')
next
  case (Cons i q)
  then have m': "m' = set_rout i (CorRoutine_reset f (rout m i)) (m\<lparr>m_queue := q\<rparr>)"
    using assms(3) by (auto simp: machine_create_def)
  have i: "i < length (m_routines m)" "cr_finished (rout m i)" "distinct (i # q)"
    using assms(1) Cons by (simp_all add: machine_inv_def)
  have runs: "runs_routine env rc mc t' j m'" if "runs_routine env rc mc t' j m" for t' j
  proof -
    have "j \<noteq> i" using that i(2) by (auto simp: runs_routine_def)
    then show ?thesis using that by (simp add: runs_routine_def m')
  qed
  have t: "outside mc t m' \<or> (\<exists>i. runs_routine env rc mc t i m')"
  proof -
    have "outside mc t m' = outside mc t m" by (simp add: outside_def m')
    then show ?thesis using machine_inv_thread[OF assms(1), of t] runs by blast
  qed
  have "machine_inv env rc mc m'"
  proof (rule machine_inv_update[OF assms(1), where i = i and t = t and r = "CorRoutine_reset f (rout m i)"])
    fix t' show "\<not> runs_routine env rc mc t' i m" using i(2) by (simp add: runs_routine_def)
  next
    fix j assume "j \<in> set (m_queue m')"
    then show "j \<in> set (m_queue m) \<and> j \<noteq> i \<or> j < length (m_routines m) \<and> cr_finished (rout m' j)"
      using i(3) Cons by (auto simp: m')
  qed (use t i assms(2) in \<open>auto simp: m' routine_ok_def CorRoutine_reset_def\<close>)
  then show ?thesis using runs by (simp add: m')
qed

text \<open>The steps of a thread outside of routines, and of one that runs a routine.\<close>

lemma outside_step:
  assumes "machine_inv env rc mc m" "flat env rc mc" "\<And>s. swap_ok env s" "permitted env t m"
    and "outside mc t m" "machine_step env t m = Some x"
  shows "\<exists>m'. x = Inr m' \<and> machine_inv env rc mc m'"
proof (cases "\<exists>i k. m_ctl m t = Ctx (OfThread t) (InResume i k)")
  case True
  then obtain i k where ctl: "m_ctl m t = Ctx (OfThread t) (InResume i k)" by blast
  then have "range k \<subseteq> mc" using assms(5) by (auto simp: outside_def)
  then have "outside mc t (resume_behind_swap t (OfThread t) i k m)"
    by (auto simp: outside_def resume_behind_swap_def)
  then show ?thesis using machine_inv_ctl[OF assms(1)] assms(6) step_behind[OF ctl, of env]
    by (auto simp: resume_behind_swap_def)
next
  case False
  then obtain p where p: "p \<in> mc" "m_ctl m t = Ctx (OfThread t) (Code p)"
    using assms(5) by (auto simp: outside_def)
  then obtain s c where c: "code env p (m_world m) = Some (s, c)"
    using assms(6) by (auto simp: machine_step_def split: option.splits)
  have step: "case c of Yields q \<Rightarrow> False | Continues q \<Rightarrow> q \<in> mc | Resumes i k \<Rightarrow> range k \<subseteq> mc
      | Creates f k \<Rightarrow> f \<in> rc \<and> range k \<subseteq> mc | _ \<Rightarrow> True"
    using assms(2) p(1) c unfolding flat_def by blast
  show ?thesis
  proof (cases c)
    case (Resumes i k)
    have perm: "i < length (m_routines m)" "cr_finished (rout m i) \<or> (case cr_ctx (rout m i) of
          None \<Rightarrow> False | Some (Ctx (OfRoutine j t0) BehindSwap) \<Rightarrow>
            t0 = t \<and> (late_link env \<or> cr_made (rout m i) = t) | _ \<Rightarrow> True)"
      using assms(4) p(2) c Resumes by (auto simp: permitted_def)
    show ?thesis
    proof (cases "cr_finished (rout m i)")
      case True
      then have x: "x = Inr (set_ctl t (Ctx (OfThread t) (Code (k (Inr False)))) (m\<lparr>m_world := s\<rparr>))"
        using assms(6) p(2) c Resumes by (simp add: machine_step_def machine_resume_def)
      have "outside mc t (set_ctl t (Ctx (OfThread t) (Code (k (Inr False)))) (m\<lparr>m_world := s\<rparr>))"
        using step Resumes by (auto simp: outside_def)
      then show ?thesis using x machine_inv_ctl[of env rc mc "m\<lparr>m_world := s\<rparr>"] assms(1) by auto
    next
      case False
      then obtain cx where cx: "cr_ctx (rout m i) = Some cx" using perm(2) by (auto split: option.splits)
      obtain m1 where m1: "machine_step env t m = Some (Inr m1)" "m_ctl m1 = (m_ctl m)(t := cx)"
        "m_world m1 = s" "m_queue m1 = m_queue m"
        "m_ord m1 = (m_ord m)(t := \<lparr>to_current = Some i, to_ctx = Some (Ctx (OfThread t) (InResume i k))\<rparr>)"
        "m_routines m1 = (m_routines m)[i := (rout m i)\<lparr>cr_link := t, cr_ctx := None\<rparr>]"
        by (rule resume_switches[OF p(2) c[unfolded Resumes] perm(1) assms(3) False cx])
      have r1: "rout m1 i = (rout m i)\<lparr>cr_link := t, cr_ctx := None\<rparr>" using m1(6) perm(1) by (simp add: rout_def)
      have ok: "routine_ok rc i (rout m i)" using assms(1) perm(1) by (simp add: machine_inv_def)
      have "runs_routine env rc mc t i m1"
        using m1(2,5,6) r1 perm False cx ok step Resumes
        by (auto simp: runs_routine_def routine_ok_def split: ucontext.splits code_point.splits)
      moreover have "j \<noteq> i" if "j \<in> set (m_queue m)" for j
        using that assms(1) False by (auto simp: machine_inv_def)
      ultimately have "machine_inv env rc mc m1"
        using m1 ok cx assms(1)
        by (intro machine_inv_update[OF assms(1) _ m1(6), of t])
          (auto simp: routine_ok_def machine_inv_def dest: runs_routine_link)
      then show ?thesis using m1(1) assms(6) by auto
    qed
  next
    case (Continues q)
    then have "outside mc t (set_ctl t (Ctx (OfThread t) (Code q)) (m\<lparr>m_world := s\<rparr>))"
      using step by (simp add: outside_def)
    moreover have "x = Inr (set_ctl t (Ctx (OfThread t) (Code q)) (m\<lparr>m_world := s\<rparr>))"
      using assms(6) p(2) c Continues by (simp add: machine_step_def)
    ultimately show ?thesis using machine_inv_ctl[of env rc mc "m\<lparr>m_world := s\<rparr>"] assms(1) by simp
  next
    case (Creates f k)
    obtain m1 j where m1: "machine_create t f (m\<lparr>m_world := s\<rparr>) = (m1, j)" by (cases "machine_create t f (m\<lparr>m_world := s\<rparr>)")
    have "machine_inv env rc mc m1" "m_ctl m1 = m_ctl m"
      using machine_create_inv[OF _ _ m1] assms(1) step Creates by auto
    moreover have "outside mc t (set_ctl t (Ctx (OfThread t) (Code (k j))) m1)"
      using step Creates by (auto simp: outside_def)
    moreover have "x = Inr (set_ctl t (Ctx (OfThread t) (Code (k j))) m1)"
      using assms(6) p(2) c Creates m1 by (simp add: machine_step_def)
    ultimately show ?thesis using machine_inv_ctl[of env rc mc m1 t "Ctx (OfThread t) (Code (k j))"] by simp
  qed (use step assms(6) p(2) c in \<open>simp_all add: machine_step_def\<close>)
qed

lemma routine_step:
  fixes m :: "('p, 'e, 's) cor_machine"
  assumes "machine_inv env rc mc m" "flat env rc mc" "\<And>s. swap_ok env s"
    and "runs_routine env rc mc t i m" "machine_step env t m = Some x"
  shows "\<exists>m'. x = Inr m' \<and> machine_inv env rc mc m'"
proof -
  obtain k where run: "i < length (m_routines m)" "\<not> cr_finished (rout m i)" "cr_ctx (rout m i) = None"
    "cr_link (rout m i) = t" "to_current (m_ord m t) = Some i"
    "to_ctx (m_ord m t) = Some (Ctx (OfThread t) (InResume i k))" "range k \<subseteq> mc"
    and ctl: "m_ctl m t = Entry \<or> (\<exists>t0. \<exists>p\<in>rc. m_ctl m t = Ctx (OfRoutine i t0) (Code p)) \<or>
      m_ctl m t = Ctx (OfRoutine i t) BehindSwap \<and> (late_link env \<or> cr_made (rout m i) = t)"
    using assms(4) unfolding runs_routine_def by blast
  have ok: "routine_ok rc i (rout m i)" using assms(1) run(1) by (simp add: machine_inv_def)
  have alone: "\<not> runs_routine env rc mc t' i m" if "t' \<noteq> t" for t'
    using that run(4) by (auto dest: runs_routine_link)
  have leaves: "outside mc t m2" if "m_ctl m2 t = Ctx (OfThread t) (InResume i k)" for m2 :: "('p, 'e, 's) cor_machine"
    using that run(7) by (auto simp: outside_def)
  have in_queue: "j \<noteq> i" if "j \<in> set (m_queue m)" for j
    using that assms(1) run(2) by (auto simp: machine_inv_def)
  consider (entry) "m_ctl m t = Entry"
    | (behind) "m_ctl m t = Ctx (OfRoutine i t) BehindSwap" "late_link env \<or> cr_made (rout m i) = t"
    | (in_code) t0 p where "p \<in> rc" "m_ctl m t = Ctx (OfRoutine i t0) (Code p)"
    using ctl by blast
  then show ?thesis
  proof cases
    case entry
    let ?c = "Ctx (OfRoutine i t) (Code (cr_func (rout m i)))"
    have "runs_routine env rc mc t i (set_ctl t ?c m)"
      using run ok by (auto simp: runs_routine_def routine_ok_def)
    moreover have "x = Inr (set_ctl t ?c m)"
      using assms(5) entry run(5) by (simp add: machine_step_def entry_start_def)
    ultimately show ?thesis using machine_inv_ctl[OF assms(1)] by blast
  next
    case behind
    obtain m2 where m2: "machine_step env t m = Some (Inr m2)" "m_ctl m2 = (m_ctl m)(t := Ctx (OfThread t) (InResume i k))"
      "m_world m2 = m_world m" "m_queue m2 = m_queue m @ [i]"
      "m_ord m2 = (m_ord m)(t := \<lparr>to_current = None, to_ctx = None\<rparr>)"
      "m_routines m2 = (m_routines m)[i := (rout m i)\<lparr>cr_finished := True\<rparr>]"
      by (rule entry_finishes[OF behind(1) run(6,1,4) behind(2)])
    have "cr_finished (rout m2 i)" using m2(6) run(1) by (simp add: rout_def)
    then have "machine_inv env rc mc m2"
      using m2 ok run(1) leaves[of m2] assms(1) in_queue alone
      by (intro machine_inv_update[OF assms(1) _ m2(6), of t]) (auto simp: routine_ok_def machine_inv_def)
    then show ?thesis using m2(1) assms(5) by auto
  next
    case p: (in_code t0 p)
    then obtain s c where c: "code env p (m_world m) = Some (s, c)"
      using assms(5) by (auto simp: machine_step_def split: option.splits)
    have step: "case c of Yields q \<Rightarrow> q \<in> rc | Continues q \<Rightarrow> q \<in> rc | Resumes i k \<Rightarrow> False
        | Creates f k \<Rightarrow> f \<in> rc \<and> range k \<subseteq> rc | _ \<Rightarrow> True"
      using assms(2) p(1) c unfolding flat_def by blast
    show ?thesis
    proof (cases "run_of env p (m_world m)")
      case (Some y)
      then obtain out where out: "run_of env p (m_world m) = Some (s, out)" and
        q: "\<And>q. out = Yielded q \<Longrightarrow> q \<in> rc"
        using c step by (cases c) (auto simp: run_of_def)
      let ?r = "(rout m i)\<lparr>cr_exception := (case out of Threw e \<Rightarrow> Some e | _ \<Rightarrow> cr_exception (rout m i)),
        cr_ctx := Some (Ctx (OfRoutine i t0) (case out of Yielded p \<Rightarrow> Code p | _ \<Rightarrow> BehindSwap))\<rparr>"
      obtain m2 where m2: "machine_step env t m = Some (Inr m2)"
        "m_ctl m2 = (m_ctl m)(t := Ctx (OfThread t) (InResume i k))" "m_queue m2 = m_queue m"
        "m_ord m2 = (m_ord m)(t := \<lparr>to_current = (case out of Yielded p \<Rightarrow> None | _ \<Rightarrow> Some i), to_ctx = None\<rparr>)"
        "m_routines m2 = (m_routines m)[i := ?r]"
        using code_to_switch[OF p(2) run(5,6,1,4) assms(3) out] by blast
      have "routine_ok rc i ?r" using ok q by (cases out) (auto simp: routine_ok_def)
      then have "machine_inv env rc mc m2"
        using m2(2-4) leaves[of m2] assms(1) in_queue alone
        by (intro machine_inv_update[OF assms(1) _ m2(5), of t]) (auto simp: machine_inv_def)
      then show ?thesis using m2(1) assms(5) by auto
    next
      case None
      then consider (continues) q where "c = Continues q" | (creates) f k' where "c = Creates f k'"
        using c step by (cases c) (auto simp: run_of_def)
      then show ?thesis
      proof cases
        case continues
        let ?m1 = "set_ctl t (Ctx (OfRoutine i t0) (Code q)) (m\<lparr>m_world := s\<rparr>)"
        have "runs_routine env rc mc t i ?m1"
          using assms(4) step continues by (auto simp: runs_routine_def)
        moreover have "x = Inr ?m1" using assms(5) p(2) c continues by (simp add: machine_step_def)
        ultimately show ?thesis using machine_inv_ctl[of env rc mc "m\<lparr>m_world := s\<rparr>"] assms(1) by auto
      next
        case creates
        obtain m1 j where m1: "machine_create t f (m\<lparr>m_world := s\<rparr>) = (m1, j)"
          by (cases "machine_create t f (m\<lparr>m_world := s\<rparr>)")
        have inv: "machine_inv env rc mc m1" and runs: "runs_routine env rc mc t i m1"
          using machine_create_inv[OF _ _ m1, of env rc mc] assms(1,4) step creates by (auto simp: runs_routine_def)
        have "runs_routine env rc mc t i (set_ctl t (Ctx (OfRoutine i t0) (Code (k' j))) m1)"
          using runs step creates by (auto simp: runs_routine_def)
        moreover have "x = Inr (set_ctl t (Ctx (OfRoutine i t0) (Code (k' j))) m1)"
          using assms(5) p(2) c creates m1 by (simp add: machine_step_def)
        ultimately show ?thesis using machine_inv_ctl[OF inv] by blast
      qed
    qed
  qed
qed

lemma disciplined_step:
  assumes "flat env rc mc" "\<And>s. swap_ok env s" "machine_inv env rc mc m" "permitted env t m"
    and "machine_step env t m = Some x"
  shows "\<exists>m'. x = Inr m' \<and> machine_inv env rc mc m'"
  using machine_inv_thread[OF assms(3), of t] outside_step[OF assms(3,1,2,4) _ assms(5)]
    routine_step[OF assms(3,1,2) _ assms(5)] by blast

lemma disciplined_inv:
  assumes "disciplined env mc m" "flat env rc mc" "\<And>s. swap_ok env s"
  shows "machine_inv env rc mc m"
  using assms(1)
proof (induction rule: disciplined.induct)
  case (starts m)
  then show ?case by (auto simp: machine_inv_def outside_def)
next
  case (goes_on m t m')
  then show ?case using disciplined_step[OF assms(2,3) goes_on.IH goes_on.hyps(2,3)] by auto
qed simp

lemma disciplined_one_stack:
  assumes "machine_inv env rc mc m" "m_ctl m t = Ctx (OfRoutine i t0) pt" "m_ctl m t' = Ctx (OfRoutine i t1) pt'"
  shows "t = t'"
proof -
  have "\<exists>j. runs_routine env rc mc t j m" "\<exists>j. runs_routine env rc mc t' j m"
    using machine_inv_thread[OF assms(1), of t] machine_inv_thread[OF assms(1), of t'] assms(2,3)
    by (auto simp: outside_def)
  then show ?thesis using assms(2,3) by (auto simp: runs_routine_def)
qed

section \<open>A sample program\<close>

text \<open>
  Threads run the points below 10: they create a routine, resume it three times and end. The
  routines run those from 10: one yields and returns, another resumes the routine 1 and yields.
\<close>

fun sample_code :: "nat \<Rightarrow> nat list \<Rightarrow> (nat list \<times> (nat, nat) call) option" where
  "sample_code p s = Some (s @ [p],
     if p = 0 then Creates 10 (\<lambda>i. 1)
     else if p < 4 then Resumes 0 (\<lambda>r. p + 1)
     else if p = 10 then Yields 11
     else if p = 20 then Resumes 1 (\<lambda>r. 21)
     else if p = 21 then Yields 22
     else Returns)"

definition sample_env :: "(nat, nat, nat list) cor_env" where
  "sample_env = \<lparr>code = sample_code, swap_ok = \<lambda>s. True, late_link = False\<rparr>"

definition idle_machine :: "nat \<Rightarrow> (nat, nat, nat list) cor_machine" where
  "idle_machine p = \<lparr>m_routines = [], m_queue = [], m_ord = \<lambda>t. \<lparr>to_current = None, to_ctx = None\<rparr>,
     m_ctl = \<lambda>t. Ctx (OfThread t) (Code p), m_world = []\<rparr>"

definition created_machine :: "(nat, nat, nat list) cor_machine" where
  "created_machine = set_ctl 0 (Ctx (OfThread 0) (Code 1)) (fst (machine_create 0 10 ((idle_machine 0)\<lparr>m_world := [0]\<rparr>)))"

lemma sample_env_facts [simp]:
  "code sample_env p s = sample_code p s" "swap_ok sample_env s" "\<not> late_link sample_env"
  by (simp_all add: sample_env_def)

lemma sample_flat: "flat sample_env {10, 11} {0, 1, 2, 3, 4}"
  by (auto simp: flat_def)

lemma created_machine_eq: "machine_step sample_env 0 (idle_machine 0) = Some (Inr created_machine)"
  by (simp add: machine_step_def created_machine_def Let_def idle_machine_def split: prod.splits)

lemma created_machine_disciplined: "disciplined sample_env {0, 1, 2, 3, 4} created_machine"
proof -
  have "disciplined sample_env {0, 1, 2, 3, 4} (idle_machine 0)"
    by (rule starts) (simp_all add: idle_machine_def)
  moreover have "permitted sample_env 0 (idle_machine 0)" by (simp add: permitted_def idle_machine_def)
  ultimately show ?thesis using created_machine_eq by (rule goes_on)
qed

lemma created_machine_facts:
  "m_ctl created_machine 0 = Ctx (OfThread 0) (Code 1)" "length (m_routines created_machine) = 1"
  "rout created_machine 0 = CorRoutine_new 0 10" "m_queue created_machine = []" "m_world created_machine = [0]"
  by (simp_all add: created_machine_def machine_create_def idle_machine_def rout_def)

text \<open>A routine runs and is about to resume another, which has yielded.\<close>

definition nested_machine :: "(nat, nat, nat list) cor_machine" where
  "nested_machine = (idle_machine 4)\<lparr>
     m_routines := [(CorRoutine_new 0 20)\<lparr>cr_ctx := None\<rparr>,
       (CorRoutine_new 0 10)\<lparr>cr_ctx := Some (Ctx (OfRoutine 1 0) (Code 10))\<rparr>],
     m_ord := (\<lambda>t. \<lparr>to_current = Some 0, to_ctx = Some (Ctx (OfThread 0) (InResume 0 (\<lambda>r. 4)))\<rparr>),
     m_ctl := (\<lambda>t. Ctx (OfRoutine 0 0) (Code 20))\<rparr>"

text \<open>A routine that is at its end on the thread 1, where another runs, is resumed on the thread 0.\<close>

definition foreign_machine :: "(nat, nat, nat list) cor_machine" where
  "foreign_machine = (idle_machine 1)\<lparr>
     m_routines := [(CorRoutine_new 0 10)\<lparr>cr_ctx := Some (Ctx (OfRoutine 0 1) BehindSwap)\<rparr>,
       (CorRoutine_new 1 10)\<lparr>cr_ctx := None\<rparr>],
     m_ord := (\<lambda>t. if t = 1 then \<lparr>to_current = Some 1, to_ctx = Some (Ctx (OfThread 1) (InResume 1 (\<lambda>r. 4)))\<rparr>
       else \<lparr>to_current = None, to_ctx = None\<rparr>),
     m_ctl := (\<lambda>t. if t = 1 then Ctx (OfRoutine 1 1) (Code 10) else Ctx (OfThread t) (Code 1))\<rparr>"

section \<open>Properties\<close>

text \<open>
  C31: The functions of the coroutines are what their context switches do. For a thread whose
  routines were all made by it and are suspended, \<^verbatim>\<open>create\<close> does to the routines what the model
  with one thread says, and \<^verbatim>\<open>resume\<close> called outside of routines is a run of the machine: through
  the saved contexts, \<^verbatim>\<open>entry\<close>, the function, its \<^verbatim>\<open>yield\<close>, and back behind the switch, with the
  same result, the same state of all routines, and the same effect on the program.
\<close>

theorem context_switches_refine:
  assumes "home t m" "\<And>s. swap_ok env s"
  shows "(\<forall>f m' i. machine_create t f m = (m', i) \<longrightarrow> cor_create f (abs_machine t m) = (abs_machine t m', i) \<and> home t m') \<and>
    (\<forall>p s i k a s' r. m_ctl m t = Ctx (OfThread t) (Code p) \<longrightarrow> code env p (m_world m) = Some (s, Resumes i k) \<longrightarrow>
      i < length (m_routines m) \<longrightarrow> cor_resume (run_of env) i (abs_machine t m) s = Some (a, s', r) \<longrightarrow>
      (\<exists>m'. thread_runs env t m m' \<and> m_ctl m' t = Ctx (OfThread t) (Code (k r)) \<and>
        abs_machine t m' = a \<and> m_world m' = s' \<and> home t m'))"
  using machine_create_refines[OF assms(1)] machine_resume_refines[OF assms(1) _ _ _ assms(2)] by blast

theorem context_switches_refine_witness:
  "\<exists>m'. thread_runs sample_env 0 created_machine m' \<and> m_ctl m' 0 = Ctx (OfThread 0) (Code 2) \<and>
    m_world m' = [0, 1, 10]"
proof -
  have "home 0 created_machine"
    by (simp add: home_def created_machine_facts at_home_def CorRoutine_new_def)
  moreover have "\<exists>a. cor_resume (run_of sample_env) 0 (abs_machine 0 created_machine) [0, 1] =
      Some (a, [0, 1, 10], Inr True)"
    by (simp add: cor_resume_def switch_to_def run_of_def created_machine_facts saved_of_def CorRoutine_new_def)
  ultimately show ?thesis
    using context_switches_refine[of 0 created_machine sample_env] created_machine_facts by fastforce
qed

text \<open>
  C32: Disciplined threads never switch to a wrong stack. However the steps of any number of
  threads interleave, when routines do not resume routines, threads do not yield, no thread
  resumes a routine that runs, and each is resumed for the last time by the thread that it was
  started on and made for, no step dereferences a null routine or switches to a context that was
  not saved or has been used, and no two threads are on the stack of one routine.
\<close>

theorem disciplined_threads_safe:
  assumes "disciplined env mc m" "flat env rc mc" "\<And>s. swap_ok env s"
  shows "(permitted env t m \<longrightarrow> machine_step env t m \<noteq> Some (Inl flt)) \<and>
    (\<forall>t' i t0 t1 pt pt'. m_ctl m t = Ctx (OfRoutine i t0) pt \<longrightarrow> m_ctl m t' = Ctx (OfRoutine i t1) pt' \<longrightarrow> t = t')"
proof -
  note inv = disciplined_inv[OF assms]
  show ?thesis
    using disciplined_step[OF assms(2,3) inv, of t "Inl flt"] disciplined_one_stack[OF inv] by blast
qed

theorem disciplined_threads_safe_witness:
  "machine_step sample_env 0 created_machine \<noteq> Some (Inl UsedContext)"
proof -
  have "permitted sample_env 0 created_machine"
    by (simp add: permitted_def created_machine_facts CorRoutine_new_def)
  then show ?thesis
    using disciplined_threads_safe[OF created_machine_disciplined sample_flat] by simp
qed

text \<open>
  C34: A routine that resumes another cannot give control back. When a routine calls \<^verbatim>\<open>resume\<close>
  on another one that is not finished, and that, new, behind a yield or at its end, runs to its
  next yield or its end without calling a function of coroutines in between, the call returns; but
  the one context of the thread's ordinator has been used, so that whatever the outer routine does
  next to give control back, yield, return or throw, is undefined. On a finished routine the call
  returns false, and no routine, ordinator or queue has changed.
\<close>

theorem nested_resume_undefined:
  assumes "m_ctl m t = Ctx (OfRoutine i t0) (Code p)" "cr_link (rout m i) = t" "i < length (m_routines m)"
    and "code env p (m_world m) = Some (s, Resumes j k)" "j < length (m_routines m)" "j \<noteq> i"
    and "\<And>s. swap_ok env s"
  shows "(\<not> cr_finished (rout m j) \<longrightarrow> stretch env t j (rout m j) s s1 \<longrightarrow>
      (\<exists>m' r. thread_runs env t m m' \<and> m_ctl m' t = Ctx (OfRoutine i t0) (Code (k r)) \<and> m_world m' = s1 \<and>
        (\<forall>s2 c. code env (k r) s1 = Some (s2, c) \<longrightarrow> gives_back c \<longrightarrow>
          (\<exists>flt. machine_step env t m' = Some (Inl flt))))) \<and>
    (cr_finished (rout m j) \<longrightarrow>
      machine_step env t m = Some (Inr (set_ctl t (Ctx (OfRoutine i t0) (Code (k (Inr False)))) (m\<lparr>m_world := s\<rparr>))))"
  using nested_resume[OF assms] nested_finished[OF assms(1,4)] by blast

theorem nested_resume_undefined_witness:
  "\<exists>m' flt. thread_runs sample_env 0 nested_machine m' \<and> machine_step sample_env 0 m' = Some (Inl flt)"
proof -
  have ctl: "m_ctl nested_machine 0 = Ctx (OfRoutine 0 0) (Code 20)" "cr_link (rout nested_machine 0) = 0"
      "0 < length (m_routines nested_machine)" "1 < length (m_routines nested_machine)"
      "\<not> cr_finished (rout nested_machine 1)" "m_world nested_machine = []"
    by (simp_all add: nested_machine_def idle_machine_def rout_def CorRoutine_new_def)
  have "stretch sample_env 0 1 (rout nested_machine 1) [20] [20, 10]"
    by (simp add: stretch_def nested_machine_def idle_machine_def rout_def CorRoutine_new_def run_of_def)
  moreover have "code sample_env 20 (m_world nested_machine) = Some ([20], Resumes 1 (\<lambda>r. 21))" by (simp add: ctl)
  ultimately show ?thesis
    using nested_resume_undefined[OF ctl(1-3) _ ctl(4), of sample_env "[20]" "\<lambda>r. 21" "[20, 10]"] ctl(5) by fastforce
qed

text \<open>
  C35: A routine that is finished on another thread breaks the thread it was started on. When a
  thread resumes, for the last time, a routine that was started on another thread, \<^verbatim>\<open>entry\<close>
  clears the current routine of that other thread: the routine that runs there has an undefined
  \<^verbatim>\<open>yield\<close>, while the finished one stays the current one of the thread that resumed it, although
  it can be handed out again. If its context was made for a thread other than the one that
  resumes it, be it the one it was started on or a third one, and the system does not look at
  what is assigned to \<^verbatim>\<open>uc_link\<close> later, the thread does not come back from \<^verbatim>\<open>resume\<close>, but goes
  on where that thread was to go on; if that one has nowhere to go on, the switch is undefined.
\<close>

theorem foreign_finish_undefined:
  assumes "m_ctl m t = Ctx (OfThread t) (Code p)" "code env p (m_world m) = Some (s, Resumes i k)"
    and "i < length (m_routines m)" "\<not> cr_finished (rout m i)"
    and "cr_ctx (rout m i) = Some (Ctx (OfRoutine i t0) BehindSwap)" "t0 \<noteq> t" "\<And>s. swap_ok env s"
    and "m_ctl m t0 = Ctx (OfRoutine j t0) (Code q)"
  shows "(late_link env \<or> cr_made (rout m i) = t \<longrightarrow>
      (\<exists>m' r. thread_runs env t m m' \<and> m_ctl m' t = Ctx (OfThread t) (Code (k r)) \<and> m_world m' = s \<and>
        to_current (m_ord m' t) = Some i \<and> i \<in> set (m_queue m') \<and> m_ctl m' t0 = m_ctl m t0 \<and>
        (\<forall>s2 q2. code env q s = Some (s2, Yields q2) \<longrightarrow> machine_step env t0 m' = Some (Inl NullRoutine)))) \<and>
    (\<not> late_link env \<and> cr_made (rout m i) \<noteq> t \<longrightarrow>
      (case to_ctx (m_ord m (cr_made (rout m i))) of
         None \<Rightarrow> \<exists>m1. machine_step env t m = Some (Inr m1) \<and> machine_step env t m1 = Some (Inl UsedContext)
       | Some c \<Rightarrow> \<exists>m'. thread_runs env t m m' \<and> m_ctl m' t = c \<and>
           to_ctx (m_ord m' (cr_made (rout m i))) = None))"
  using foreign_finish[OF assms] .

theorem foreign_finish_undefined_witness:
  "\<exists>m'. thread_runs sample_env 0 foreign_machine m' \<and> machine_step sample_env 1 m' = Some (Inl NullRoutine)"
proof -
  have ctl: "m_ctl foreign_machine 0 = Ctx (OfThread 0) (Code 1)" "0 < length (m_routines foreign_machine)"
      "\<not> cr_finished (rout foreign_machine 0)"
      "cr_ctx (rout foreign_machine 0) = Some (Ctx (OfRoutine 0 1) BehindSwap)" "cr_made (rout foreign_machine 0) = 0"
      "m_ctl foreign_machine 1 = Ctx (OfRoutine 1 1) (Code 10)" "m_world foreign_machine = []"
    by (simp_all add: foreign_machine_def idle_machine_def rout_def CorRoutine_new_def)
  have "code sample_env 1 (m_world foreign_machine) = Some ([1], Resumes 0 (\<lambda>r. 2))"
    by (simp add: ctl numeral_2_eq_2)
  from foreign_finish_undefined[OF ctl(1) this ctl(2-4) _ _ ctl(6)] ctl(5) show ?thesis by fastforce
qed

end
