(* ===== verification/Cor_Threads.thy ===== *)
theory Cor_Threads
  imports Coroutine_Threads Cor_Worker Http_Service_Props
begin

text \<open>
  The coroutine server with all its threads: workers of \<^verbatim>\<open>7.cor/lib/corworker.cpp\<close>, each the
  function \<^verbatim>\<open>work\<close> on a thread of the machine of \<^verbatim>\<open>Coroutine_Machine\<close>, routines that run
  \<^verbatim>\<open>serve_client\<close> and are resumed by whichever worker gets the next event of their place, and
  the thread of \<^verbatim>\<open>run\<close>, which accepts connections into places and dumps those that timed out.
  A segment of \<^verbatim>\<open>serve_client\<close> between two yields is one step.
\<close>

section \<open>The workers on the machine\<close>

text \<open>
  Where a worker or a routine is: in \<^verbatim>\<open>work\<close> before the wait, before the rest of the events
  (their places), between \<^verbatim>\<open>create\<close> and \<^verbatim>\<open>set_routine\<close>, behind \<^verbatim>\<open>resume\<close> with its result;
  in \<^verbatim>\<open>serve_client\<close>.
\<close>

datatype cor_point =
    Waits
  | Handles "nat list"
  | Made "nat list" nat nat
  | Behind "nat list" nat "worker_error + bool"
  | Serves nat point

text \<open>The system, the service, and the places whose \<^verbatim>\<open>connection_mutex\<close> is held.\<close>

record 'w cor_world =
  cw_os :: 'w
  cw_service :: CorService
  cw_locked :: "nat set"

record 'w cor_setup =
  su_env :: "'w worker_env"
  su_wait :: "'w epoll_wait"
  su_listener :: "'w cor_listener"
  su_clock :: "'w \<Rightarrow> nat"
  su_late :: bool

fun event_place :: "epoll_event \<Rightarrow> nat" where
  "event_place ev = (case ev_data ev of Ptr p \<Rightarrow> p | Fd fd \<Rightarrow> nat fd)"

text \<open>
  The loop of \<^verbatim>\<open>work\<close> and \<^verbatim>\<open>serve_client\<close>. A lock that is held is waited for. An exception that
  leaves \<^verbatim>\<open>resume\<close> is not caught: the function of the thread ends in \<^verbatim>\<open>std::terminate\<close>, with
  the lock held.
\<close>

fun cor_work_code ::
  "'w cor_setup \<Rightarrow> cor_point \<Rightarrow> 'w cor_world \<Rightarrow> ('w cor_world \<times> (cor_point, worker_error) call) option" where
  "cor_work_code su Waits s =
     (case EPoll_wait (su_wait su) (env_epoll (su_env su)) (cw_os s) of
        (w, Inl (EPollException errno)) \<Rightarrow> Some (s\<lparr>cw_os := w\<rparr>, Throws (EPollError errno))
      | (w, Inr evs) \<Rightarrow> Some (s\<lparr>cw_os := w\<rparr>, Continues (Handles (map event_place evs))))"
| "cor_work_code su (Handles []) s = Some (s, Continues Waits)"
| "cor_work_code su (Handles (p # es)) s =
     (if p \<in> cw_locked s then None
      else Some (s\<lparr>cw_locked := insert p (cw_locked s)\<rparr>,
        case routine p (cw_service s) of
          None \<Rightarrow> Creates (Serves p Serve) (Made es p)
        | Some i \<Rightarrow> Resumes i (Behind es p)))"
| "cor_work_code su (Made es p i) s =
     Some (s\<lparr>cw_service := set_routine p (Some i) (cw_service s)\<rparr>, Resumes i (Behind es p))"
| "cor_work_code su (Behind es p r) s =
     (case r of
        Inl e \<Rightarrow> Some (s, Throws e)
      | Inr _ \<Rightarrow> Some (s\<lparr>cw_locked := cw_locked s - {p}\<rparr>, Continues (Handles es)))"
| "cor_work_code su (Serves p pos) s =
     (case serve_client (su_env su) (su_listener su) (su_clock su (cw_os s)) (p, pos) (cw_os s, cw_service s) of
        None \<Rightarrow> None
      | Some ((w, cs), out) \<Rightarrow>
          Some (s\<lparr>cw_os := w, cw_service := cs\<rparr>,
            case out of Yielded (p, pos) \<Rightarrow> Yields (Serves p pos) | Returned \<Rightarrow> Returns | Threw e \<Rightarrow> Throws e))"

definition cor_system :: "'w cor_setup \<Rightarrow> (cor_point, worker_error, 'w cor_world) cor_env" where
  "cor_system su = \<lparr>code = cor_work_code su, swap_ok = \<lambda>s. True, late_link = su_late su\<rparr>"

lemma cor_system_simps [simp]:
  "code (cor_system su) = cor_work_code su" "swap_ok (cor_system su) s" "late_link (cor_system su) = su_late su"
  by (simp_all add: cor_system_def)

abbreviation cor_serves :: "cor_point set" where
  "cor_serves \<equiv> {q. \<exists>p pos. q = Serves p pos}"

lemma cor_system_flat: "flat (cor_system su) cor_serves (- cor_serves)"
  unfolding flat_def
proof (intro conjI ballI allI impI)
  fix q s s' c
  assume "q \<in> cor_serves" "code (cor_system su) q s = Some (s', c)"
  then show "case c of Yields q \<Rightarrow> q \<in> cor_serves | Continues q \<Rightarrow> q \<in> cor_serves | Resumes i k \<Rightarrow> False
      | Creates f k \<Rightarrow> f \<in> cor_serves \<and> range k \<subseteq> cor_serves | _ \<Rightarrow> True"
    by (auto split: option.splits outcome.splits)
next
  fix q s s' c
  assume "q \<in> - cor_serves" "code (cor_system su) q s = Some (s', c)"
  then show "case c of Yields q \<Rightarrow> False | Continues q \<Rightarrow> q \<in> - cor_serves | Resumes i k \<Rightarrow> range k \<subseteq> - cor_serves
      | Creates f k \<Rightarrow> f \<in> cor_serves \<and> range k \<subseteq> - cor_serves | _ \<Rightarrow> True"
    by (cases "(su, q, s)" rule: cor_work_code.cases)
      (auto split: option.splits prod.splits sum.splits epoll_error.splits if_splits)
qed

section \<open>The server\<close>

text \<open>
  The thread of \<^verbatim>\<open>run\<close>: it accepts a connection into a place, or dumps the connections that
  timed out; those whose mutex is held it waits for, so that it does not close them.
\<close>

inductive cor_service_step :: "nat set \<Rightarrow> CorService \<Rightarrow> CorService \<Rightarrow> bool" where
  accepts: "cor_emplace cn now cs = Some (cs', p) \<Longrightarrow>
    cor_service_step locked cs (cs'\<lparr>http_part := set_conn p ((conn_at (http_part cs') p)
      \<lparr>epoll_option := opt_plus OPTION_READ OPTION_ET_ONESHOT\<rparr>) (http_part cs')\<rparr>)"
| dumps: "\<forall>p\<in>locked. conn_at (http_part (cor_dump now cs)) p = conn_at (http_part cs) p \<Longrightarrow>
    cor_service_step locked cs (cor_dump now cs)"

text \<open>An event that a worker takes up is one of an open connection.\<close>

definition timely :: "nat \<Rightarrow> (cor_point, worker_error, 'w cor_world) cor_machine \<Rightarrow> bool" where
  "timely t m \<longleftrightarrow>
     (case m_ctl m t of
        Ctx (OfThread t') (Code (Handles (p # es))) \<Rightarrow>
          p < places (http_part (cw_service (m_world m))) \<and>
          (p \<notin> cw_locked (m_world m) \<longrightarrow> is_open (conn_at (http_part (cw_service (m_world m))) p))
      | _ \<Rightarrow> True)"

inductive cor_server :: "'w cor_setup \<Rightarrow> (cor_point, worker_error, 'w cor_world) cor_machine \<Rightarrow> bool" for su where
  begins: "m_routines m = [] \<Longrightarrow> m_queue m = [] \<Longrightarrow> \<forall>t. m_ctl m t = Ctx (OfThread t) (Code Waits) \<Longrightarrow>
    cw_service (m_world m) = CorService_new ct kt \<Longrightarrow> cw_locked (m_world m) = {} \<Longrightarrow> cor_server su m"
| works: "cor_server su m \<Longrightarrow> timely t m \<Longrightarrow> machine_step (cor_system su) t m = Some (Inr m') \<Longrightarrow>
    cor_server su m'"
| serves: "cor_server su m \<Longrightarrow> cor_service_step (cw_locked (m_world m)) (cw_service (m_world m)) cs \<Longrightarrow>
    cor_server su (m\<lparr>m_world := (m_world m)\<lparr>cw_os := w, cw_service := cs\<rparr>\<rparr>)"

end
