(* ===== verification/Cor_Segments.thy ===== *)
theory Cor_Segments
  imports Cor_Worker Http_Worker_Props
begin

text \<open>
  What a segment of \<^verbatim>\<open>serve_client\<close>, the code between two yields, does to the service: it touches
  its own place only, and when it returns the connection is closed or has lost its routine.
\<close>

section \<open>What a segment of a routine changes\<close>

definition touches :: "nat \<Rightarrow> CorService \<Rightarrow> CorService \<Rightarrow> bool" where
  "touches p cs cs' \<longleftrightarrow> places (http_part cs') = places (http_part cs) \<and>
     (\<forall>q. q \<noteq> p \<longrightarrow> conn_at (http_part cs') q = conn_at (http_part cs) q) \<and>
     (p_rout cs' = p_rout cs \<or> p_rout cs' = (p_rout cs)[p := None])"

definition segment_ok :: "nat \<Rightarrow> CorService \<Rightarrow> CorService \<Rightarrow> (nat \<times> point, worker_error) outcome \<Rightarrow> bool" where
  "segment_ok p cs cs' out \<longleftrightarrow> touches p cs cs' \<and>
     (case out of
        Yielded (p', pos) \<Rightarrow> p' = p
      | Returned \<Rightarrow> \<not> is_open (conn_at (http_part cs') p) \<or> p_rout cs' = (p_rout cs)[p := None]
      | Threw e \<Rightarrow> True)"

definition touches_only :: "nat \<Rightarrow> CorService \<Rightarrow> CorService \<Rightarrow> bool" where
  "touches_only p cs cs' \<longleftrightarrow> places (http_part cs') = places (http_part cs) \<and>
     length (p_rout cs') = length (p_rout cs) \<and>
     (\<forall>q. q \<noteq> p \<longrightarrow> conn_at (http_part cs') q = conn_at (http_part cs) q \<and> routine q cs' = routine q cs)"

lemma touches_only: "touches p cs cs' \<Longrightarrow> touches_only p cs cs'"
  by (auto simp: touches_def touches_only_def routine_def)

lemma touches_worked: "worked p t (http_part cs) sv \<Longrightarrow> touches p cs (cs\<lparr>http_part := sv\<rparr>)"
  by (simp add: touches_def worked_def)

lemma touches_trans: "touches p cs cs' \<Longrightarrow> touches p cs' cs'' \<Longrightarrow> touches p cs cs''"
  unfolding touches_def by (elim conjE disjE) simp_all

lemma touches_set_conn: "p < places (http_part cs) \<Longrightarrow> touches p cs (cs\<lparr>http_part := set_conn p c (http_part cs)\<rparr>)"
  by (simp add: touches_def)

lemma touches_places: "touches p cs cs' \<Longrightarrow> places (http_part cs') = places (http_part cs)"
  by (simp add: touches_def)

lemma touches_close: "p < places (http_part cs) \<Longrightarrow> touches p cs (cor_close_client p cs)"
  by (simp add: touches_def close_client_conn)

lemma touches_subscribe:
  assumes "p < places (http_part cs)"
  shows "touches p cs (fst (snd (cor_subscribe env p opt cs w)))"
    "touches p cs (fst (snd (cor_unsubscribe env p opt cs w)))"
  using assms by (auto simp: touches_def worker_subscribe_def worker_unsubscribe_def EPoll_mod_eq Let_def
      split: prod.splits sum.splits)

lemma segment_ok_trans: "touches p cs cs' \<Longrightarrow> p_rout cs' = p_rout cs \<Longrightarrow> segment_ok p cs' cs'' out \<Longrightarrow> segment_ok p cs cs'' out"
  unfolding segment_ok_def using touches_trans by (auto split: outcome.splits)

text \<open>A method that may throw and what follows it.\<close>

lemma in_routine_segment:
  assumes "in_routine r k = Some ((w', cs'), out)" "touches p cs (fst (snd r))"
    and "p_rout (fst (snd r)) = p_rout cs"
    and "\<And>w1. k w1 (fst (snd r)) = Some ((w', cs'), out) \<Longrightarrow> segment_ok p (fst (snd r)) cs' out"
  shows "segment_ok p cs cs' out"
proof -
  obtain w1 cs1 x where r: "r = (w1, cs1, x)" by (cases r)
  show ?thesis
  proof (cases x)
    case (Inl e)
    then show ?thesis using assms(1,2) r by (auto simp: in_routine_def segment_ok_def)
  next
    case (Inr u)
    then show ?thesis using assms r segment_ok_trans[of p cs cs1 cs' out] by (simp add: in_routine_def)
  qed
qed

lemma subscribe_keeps_rout [simp]:
  "p_rout (fst (snd (cor_subscribe env p opt cs w))) = p_rout cs"
  "p_rout (fst (snd (cor_unsubscribe env p opt cs w))) = p_rout cs"
  by (simp_all split: prod.splits)

text \<open>The parts of \<^verbatim>\<open>serve_client\<close>, from the last to the first.\<close>

lemma serve_end_segment:
  assumes "p < places (http_part cs)" "serve_end env p w cs = Some ((w', cs'), out)"
  shows "segment_ok p cs cs' out"
proof (cases "epoll_option (conn_at (http_part cs) p) = OPTION_ET_ONESHOT")
  case True
  then have "cs' = cor_close_client p cs" "out = Returned" using assms(2) by (auto simp: serve_end_def)
  then show ?thesis using assms(1) touches_close[OF assms(1)]
    by (auto simp: segment_ok_def close_client_conn)
next
  case False
  let ?cs = "set_routine p None cs"
  have part: "http_part ?cs = http_part cs" "p_rout ?cs = (p_rout cs)[p := None]" by (simp_all add: set_routine_def)
  have "in_routine (cor_subscribe env p OPTION_UNKNOWN ?cs w) (\<lambda>w cs. Some ((w, cs), Returned)) = Some ((w', cs'), out)"
    using assms(2) False by (simp add: serve_end_def Let_def)
  then have "cs' = fst (snd (cor_subscribe env p OPTION_UNKNOWN ?cs w)) \<and> (out = Returned \<or> (\<exists>e. out = Threw e))"
    by (auto simp: in_routine_def split: prod.splits sum.splits)
  moreover have "touches p cs ?cs" using part by (simp add: touches_def)
  ultimately show ?thesis
    using touches_trans[OF _ touches_subscribe(1)[of p ?cs]] assms(1) part subscribe_keeps_rout(1)[of env p OPTION_UNKNOWN ?cs w]
    by (auto simp: segment_ok_def simp del: cor_subscribe_eq)
qed

lemma serve_writing_segment_ok:
  assumes "p < places (http_part cs)" "serve_writing env p w cs = Some ((w', cs'), out)"
  shows "segment_ok p cs cs' out"
proof -
  obtain w1 c e where wr: "write_responces (env_write env) (conn_at (http_part cs) p) w = Some (w1, c, e)"
    using assms(2) by (auto simp: serve_writing_def split: option.splits)
  let ?cs = "cs\<lparr>http_part := set_conn p c (http_part cs)\<rparr>"
  have t: "touches p cs ?cs" "p_rout ?cs = p_rout cs" "p < places (http_part ?cs)"
    using touches_set_conn[OF assms(1)] assms(1) by simp_all
  have yields: "segment_ok p cs1 cs' out" if "Some ((w2, cs1), Yielded (p, Writing)) = Some ((w', cs'), out)" for w2 cs1
    using that by (auto simp: segment_ok_def touches_def)
  have "segment_ok p ?cs cs' out"
  proof (cases e)
    case Finished
    then have run: "in_routine (cor_unsubscribe env p OPTION_WRITE ?cs w1) (serve_end env p) = Some ((w', cs'), out)"
      using assms(2) by (simp add: serve_writing_def wr Let_def)
    have len: "p < places (http_part (fst (snd (cor_unsubscribe env p OPTION_WRITE ?cs w1))))"
      using touches_places[OF touches_subscribe(2)[OF t(3)]] t(3) by (metis)
    show ?thesis
      by (rule in_routine_segment[OF run touches_subscribe(2)[OF t(3)] subscribe_keeps_rout(2)])
        (rule serve_end_segment[OF len])
  next
    case (Raised x)
    show ?thesis
    proof (cases "\<exists>y. x = TimeOutError y \<and> b_write c \<noteq> []")
      case True
      then have run: "in_routine (cor_subscribe env p OPTION_WRITE ?cs w1)
          (\<lambda>w cs. Some ((w, cs), Yielded (p, Writing))) = Some ((w', cs'), out)"
        using assms(2) Raised by (auto simp: serve_writing_def wr Let_def)
      show ?thesis
        by (rule in_routine_segment[OF run touches_subscribe(1)[OF t(3)] subscribe_keeps_rout(1)]) (rule yields)
    next
      case False
      then consider (ends) "serve_end env p w1 ?cs = Some ((w', cs'), out)"
        | (closes) "serve_end env p w1 (cor_close_client p ?cs) = Some ((w', cs'), out)"
        | (throws) "out = Threw (Uncaught x)" "cs' = ?cs"
        using assms(2) Raised by (cases x) (auto simp: serve_writing_def wr Let_def)
      then show ?thesis
      proof cases
        case ends
        then show ?thesis by (rule serve_end_segment[OF t(3)])
      next
        case closes
        have "p < places (http_part (cor_close_client p ?cs))"
          using touches_places[OF touches_close[OF t(3)]] t(3) by metis
        from serve_end_segment[OF this closes] show ?thesis
          by (rule segment_ok_trans[OF touches_close[OF t(3)], rotated]) simp
      next
        case throws
        then show ?thesis by (simp add: segment_ok_def touches_def)
      qed
    qed
  qed
  then show ?thesis by (rule segment_ok_trans[OF t(1,2)])
qed

lemma serve_request_segment_ok:
  assumes "p < places (http_part cs)" "serve_request env lis p w cs = Some ((w', cs'), out)"
  shows "segment_ok p cs cs' out"
proof -
  obtain w1 res where lis: "lis (h_req (conn_at (http_part cs) p)) w = (w1, res)"
    by (cases "lis (h_req (conn_at (http_part cs) p)) w")
  let ?c = "(Http_write res (conn_at (http_part cs) p))\<lparr>b_read := []\<rparr>"
  let ?cs = "cs\<lparr>http_part := set_conn p ?c (http_part cs)\<rparr>"
  let ?answer = "\<lambda>w cs. in_routine (cor_subscribe env p OPTION_WRITE cs w) (\<lambda>w cs. Some ((w, cs), Yielded (p, Writing)))"
  have t: "touches p cs ?cs" "p_rout ?cs = p_rout cs" "p < places (http_part ?cs)"
    using touches_set_conn[OF assms(1)] assms(1) by simp_all
  have wrote: "segment_ok p cs1 cs' out" if "?answer w2 cs1 = Some ((w', cs'), out)" "p < places (http_part cs1)" for w2 cs1
    by (rule in_routine_segment[OF that(1) touches_subscribe(1)[OF that(2)] subscribe_keeps_rout(1)])
      (auto simp: segment_ok_def touches_def)
  have len: "p < places (http_part (fst (snd (cor_unsubscribe env p OPTION_READ ?cs w1))))"
    using touches_places[OF touches_subscribe(2)[OF t(3)]] t(3) by metis
  have unsub: "segment_ok p ?cs cs' out"
    if "in_routine (cor_unsubscribe env p OPTION_READ ?cs w1) ?answer = Some ((w', cs'), out)"
    by (rule in_routine_segment[OF that touches_subscribe(2)[OF t(3)] subscribe_keeps_rout(2)])
      (rule wrote[OF _ len])
  have "segment_ok p ?cs cs' out"
  proof (cases "keep_alive ?c")
    case True
    then have "?answer w1 ?cs = Some ((w', cs'), out)"
      using assms(2) by (simp add: serve_request_def lis Let_def del: cor_subscribe_eq)
    then show ?thesis using wrote t(3) by blast
  next
    case False
    then have "in_routine (cor_unsubscribe env p OPTION_READ ?cs w1) ?answer = Some ((w', cs'), out)"
      using assms(2) by (simp add: serve_request_def lis Let_def del: cor_subscribe_eq)
    then show ?thesis by (rule unsub)
  qed
  then show ?thesis by (rule segment_ok_trans[OF t(1,2)])
qed

lemma serve_reading_segment_ok:
  assumes "p < places (http_part cs)" "serve_reading env lis p w cs = Some ((w', cs'), out)"
  shows "segment_ok p cs cs' out"
proof -
  obtain w1 c e where rd: "read_requests (env_read env) (conn_at (http_part cs) p) w = Some (w1, c, e)"
    using assms(2) by (auto simp: serve_reading_def split: option.splits)
  let ?cs = "cs\<lparr>http_part := set_conn p c (http_part cs)\<rparr>"
  have t: "touches p cs ?cs" "p_rout ?cs = p_rout cs" "p < places (http_part ?cs)"
    using touches_set_conn[OF assms(1)] assms(1) by simp_all
  have closes: "segment_ok p ?cs (cor_close_client p ?cs) Returned"
    using touches_close[OF t(3)] t(3) by (simp add: segment_ok_def close_client_conn)
  let ?req = "\<lambda>req. ?cs\<lparr>http_part := set_conn p (c\<lparr>keep_alive := cor_is_keep_alive (m_headers req),
    h_req := req\<rparr>) (http_part ?cs)\<rparr>"
  consider (request) req where "serve_request env lis p w1 (?req req) = Some ((w', cs'), out)"
    | (more) "in_routine (cor_subscribe env p OPTION_READ ?cs w1)
        (\<lambda>w cs. Some ((w, cs), Yielded (p, Reading))) = Some ((w', cs'), out)"
    | (closed) "cs' = cor_close_client p ?cs" "out = Returned"
    | (throws) x where "cs' = ?cs" "out = Threw x"
    using assms(2)
    by (auto simp: serve_reading_def rd Let_def simp del: cor_subscribe_eq cor_close_client_eq cor_is_keep_alive_eq
        split: drained.splits tcp_error.splits sum.splits parse_error.splits)
  then have "segment_ok p ?cs cs' out"
  proof cases
    case (request req)
    have "touches p ?cs (?req req)" by (rule touches_set_conn[OF t(3)])
    moreover have "p < places (http_part (?req req))" using t(3) by simp
    ultimately show ?thesis using segment_ok_trans[OF _ _ serve_request_segment_ok[OF _ request]] by simp
  next
    case more
    show ?thesis
      by (rule in_routine_segment[OF more touches_subscribe(1)[OF t(3)] subscribe_keeps_rout(1)])
        (auto simp: segment_ok_def touches_def)
  next
    case closed
    then show ?thesis using closes by simp
  next
    case throws
    then show ?thesis by (simp add: segment_ok_def touches_def)
  qed
  then show ?thesis by (rule segment_ok_trans[OF t(1,2)])
qed

lemma reset_touches:
  assumes "reset_last_activity_time p now sv = Some sv'" "p < places sv"
  shows "places sv' = places sv \<and> (\<forall>q. q \<noteq> p \<longrightarrow> conn_at sv' q = conn_at sv q)"
  using assms by (auto simp: reset_last_activity_time_def Let_def split: option.splits)

lemma serve_client_segment_ok:
  assumes "p < places (http_part cs)" "serve_client env lis now (p, pos) (w, cs) = Some ((w', cs'), out)"
  shows "segment_ok p cs cs' out"
proof (cases pos)
  case Serve
  show ?thesis
  proof (cases "reset_last_activity_time p now (http_part cs)")
    case None
    then show ?thesis using assms(2) Serve by (auto simp: serve_client_def segment_ok_def touches_def)
  next
    case (Some sv)
    let ?cs = "cs\<lparr>http_part := sv\<rparr>"
    have "touches p cs ?cs" "p < places (http_part ?cs)"
      using reset_touches[OF Some assms(1)] assms(1) by (simp_all add: touches_def)
    moreover have "serve_reading env lis p w ?cs = Some ((w', cs'), out)"
      using assms(2) Serve Some by (simp add: serve_client_def)
    ultimately show ?thesis using segment_ok_trans serve_reading_segment_ok by fastforce
  qed
next
  case Reading
  then show ?thesis using assms serve_reading_segment_ok by (simp add: serve_client_def)
next
  case Writing
  then show ?thesis using assms serve_writing_segment_ok by (simp add: serve_client_def)
qed

end
