(* ===== verification/Cor_Threads_Props.thy ===== *)
theory Cor_Threads_Props
  imports Cor_Threads Cor_Segments
begin

text \<open>
  The workers of the coroutine server, however many, keep the routines in order: a mutex of a
  place guards its routine, and the routine of an open place can be resumed.
\<close>

section \<open>The invariant\<close>

definition resumable :: "('p, 'e) CorRoutine \<Rightarrow> bool" where
  "resumable r \<longleftrightarrow> (\<exists>c. cr_ctx r = Some c \<and> (\<forall>st. c \<noteq> Ctx st BehindSwap))"

text \<open>
  A routine belongs to a place for good. The routine of an open place whose lock is free can be
  resumed; \<^verbatim>\<open>back_ok\<close> is the same for a place whose holder is about to let it go.
\<close>

definition of_place :: "nat \<Rightarrow> nat \<Rightarrow> (cor_point, 'e) CorRoutine \<Rightarrow> bool" where
  "of_place p i r \<longleftrightarrow> cr_func r = Serves p Serve \<and>
     (\<forall>c. cr_ctx r = Some c \<longrightarrow> c = Entry \<or> (\<exists>t0 pos. c = Ctx (OfRoutine i t0) (Code (Serves p pos))) \<or>
        (\<exists>st. c = Ctx st BehindSwap))"

definition back_ok :: "nat \<Rightarrow> (cor_point, worker_error, 'w cor_world) cor_machine \<Rightarrow> bool" where
  "back_ok p m \<longleftrightarrow> (\<forall>i. routine p (cw_service (m_world m)) = Some i \<longrightarrow>
     is_open (conn_at (http_part (cw_service (m_world m))) p) \<longrightarrow> resumable (rout m i))"

text \<open>A thread that holds no lock, and one that holds that of the place \<^verbatim>\<open>p\<close>.\<close>

definition free_stage :: "nat \<Rightarrow> (cor_point, worker_error, 'w cor_world) cor_machine \<Rightarrow> bool" where
  "free_stage t m \<longleftrightarrow> m_ctl m t = Ctx (OfThread t) (Code Waits) \<or> (\<exists>es. m_ctl m t = Ctx (OfThread t) (Code (Handles es)))"

inductive held_stage :: "nat \<Rightarrow> nat \<Rightarrow> (cor_point, worker_error, 'w cor_world) cor_machine \<Rightarrow> bool" for p t m where
  made: "m_ctl m t = Ctx (OfThread t) (Code (Made es p i)) \<Longrightarrow> i < length (m_routines m) \<Longrightarrow>
    cr_ctx (rout m i) = Some Entry \<Longrightarrow> of_place p i (rout m i) \<Longrightarrow> held_stage p t m"
| behind: "m_ctl m t = Ctx (OfThread t) (Code (Behind es p r)) \<Longrightarrow> (\<forall>b. r = Inr b \<longrightarrow> back_ok p m) \<Longrightarrow>
    held_stage p t m"
| in_resume: "m_ctl m t = Ctx (OfThread t) (InResume i (Behind es p)) \<Longrightarrow>
    (cr_exception (rout m i) = None \<longrightarrow> back_ok p m) \<Longrightarrow> i < length (m_routines m) \<Longrightarrow>
    of_place p i (rout m i) \<Longrightarrow> held_stage p t m"
| in_routine: "to_ctx (m_ord m t) = Some (Ctx (OfThread t) (InResume i (Behind es p))) \<Longrightarrow>
    to_current (m_ord m t) = Some i \<Longrightarrow> i < length (m_routines m) \<Longrightarrow> cr_ctx (rout m i) = None \<Longrightarrow>
    cr_link (rout m i) = t \<Longrightarrow> of_place p i (rout m i) \<Longrightarrow>
    routine p (cw_service (m_world m)) \<in> {None, Some i} \<Longrightarrow>
    m_ctl m t = Entry \<or> (\<exists>t0 pos. m_ctl m t = Ctx (OfRoutine i t0) (Code (Serves p pos))) \<Longrightarrow>
    held_stage p t m"

definition service_ok :: "(cor_point, worker_error, 'w cor_world) cor_machine \<Rightarrow> bool" where
  "service_ok m \<longleftrightarrow> (let cs = cw_service (m_world m) in
     length (p_rout cs) = places (http_part cs) \<and>
     (\<forall>p < places (http_part cs). \<forall>i. routine p cs = Some i \<longrightarrow>
        i < length (m_routines m) \<and> of_place p i (rout m i) \<and>
        (p \<notin> cw_locked (m_world m) \<longrightarrow> is_open (conn_at (http_part cs) p) \<longrightarrow> resumable (rout m i))))"

definition server_inv :: "(cor_point, worker_error, 'w cor_world) cor_machine \<Rightarrow> bool" where
  "server_inv m \<longleftrightarrow> m_queue m = [] \<and>
     (\<forall>i < length (m_routines m). \<not> cr_finished (rout m i) \<and> (\<exists>p. of_place p i (rout m i))) \<and>
     service_ok m \<and>
     (\<exists>h. (\<forall>t. case h t of None \<Rightarrow> free_stage t m | Some p \<Rightarrow> held_stage p t m \<and>
         p \<in> cw_locked (m_world m) \<and> p < places (http_part (cw_service (m_world m))) \<and>
         (\<forall>t'. h t' = Some p \<longrightarrow> t' = t)))"

text \<open>A stage of a thread is left alone by what happens to other threads, routines and places.\<close>

lemma held_stage_frame:
  assumes "held_stage p t m" "m_ctl m' t = m_ctl m t" "m_ord m' t = m_ord m t"
    and "\<And>i. i < length (m_routines m) \<Longrightarrow> of_place p i (rout m i) \<Longrightarrow>
      i < length (m_routines m') \<and> rout m' i = rout m i"
    and "routine p (cw_service (m_world m')) = None \<or>
      routine p (cw_service (m_world m')) = routine p (cw_service (m_world m)) \<and>
      (is_open (conn_at (http_part (cw_service (m_world m'))) p) \<longrightarrow>
       is_open (conn_at (http_part (cw_service (m_world m))) p))"
    and "\<And>i. routine p (cw_service (m_world m)) = Some i \<Longrightarrow> i < length (m_routines m) \<and> of_place p i (rout m i)"
  shows "held_stage p t m'"
proof -
  have bk: "back_ok p m'" if b: "back_ok p m"
    unfolding back_ok_def
  proof (intro allI impI)
    fix i
    assume r: "routine p (cw_service (m_world m')) = Some i" "is_open (conn_at (http_part (cw_service (m_world m'))) p)"
    then have "routine p (cw_service (m_world m)) = Some i" "is_open (conn_at (http_part (cw_service (m_world m))) p)"
      using assms(5) by auto
    then show "resumable (rout m' i)" using b assms(4)[of i] assms(6)[of i] by (simp add: back_ok_def)
  qed
  from assms(1) show ?thesis
  proof cases
    case (made es i)
    then show ?thesis using assms(2,4) by (intro held_stage.made[of m' t es p i]) auto
  next
    case (behind es r)
    then show ?thesis using assms(2) bk by (intro held_stage.behind[of m' t es p r]) auto
  next
    case (in_resume i es)
    then show ?thesis using assms(2,4) bk by (intro held_stage.in_resume[of m' t i es p]) auto
  next
    case (in_routine i es)
    then show ?thesis using assms(2,3,4,5) by (intro held_stage.in_routine[of m' t i es p]) auto
  qed
qed

lemma of_place_inj: "of_place p i r \<Longrightarrow> of_place q i r \<Longrightarrow> p = q"
  by (simp add: of_place_def)

lemma of_place_less: "service_ok m \<Longrightarrow> p < places (http_part (cw_service (m_world m))) \<Longrightarrow>
    routine p (cw_service (m_world m)) = Some i \<Longrightarrow> i < length (m_routines m) \<and> of_place p i (rout m i)"
  by (simp add: service_ok_def Let_def)

definition holders :: "(nat \<Rightarrow> nat option) \<Rightarrow> (cor_point, worker_error, 'w cor_world) cor_machine \<Rightarrow> bool" where
  "holders h m \<longleftrightarrow> (\<forall>t. case h t of None \<Rightarrow> free_stage t m | Some p \<Rightarrow> held_stage p t m \<and>
     p \<in> cw_locked (m_world m) \<and> p < places (http_part (cw_service (m_world m))) \<and>
     (\<forall>t'. h t' = Some p \<longrightarrow> t' = t))"

definition routines_ok :: "(cor_point, worker_error, 'w cor_world) cor_machine \<Rightarrow> bool" where
  "routines_ok m \<longleftrightarrow> m_queue m = [] \<and>
     (\<forall>i < length (m_routines m). \<not> cr_finished (rout m i) \<and> (\<exists>p. of_place p i (rout m i)))"

lemma server_inv_eq: "server_inv m \<longleftrightarrow> routines_ok m \<and> service_ok m \<and> (\<exists>h. holders h m)"
  by (simp add: server_inv_def routines_ok_def holders_def)

lemma holdersD:
  assumes "holders h m"
  shows "h t = None \<Longrightarrow> free_stage t m"
    "h t = Some p \<Longrightarrow> held_stage p t m \<and> p \<in> cw_locked (m_world m) \<and>
      p < places (http_part (cw_service (m_world m)))"
    "h t = Some p \<Longrightarrow> h t' = Some p \<Longrightarrow> t' = t"
proof -
  have "case h t of None \<Rightarrow> free_stage t m | Some p \<Rightarrow> held_stage p t m \<and> p \<in> cw_locked (m_world m) \<and>
      p < places (http_part (cw_service (m_world m))) \<and> (\<forall>t'. h t' = Some p \<longrightarrow> t' = t)"
    using assms unfolding holders_def by (rule spec)
  note at_t = this
  show "free_stage t m" if "h t = None"
    using at_t unfolding that option.case .
  have some: "held_stage p t m \<and> p \<in> cw_locked (m_world m) \<and>
      p < places (http_part (cw_service (m_world m))) \<and> (\<forall>t'. h t' = Some p \<longrightarrow> t' = t)" if "h t = Some p"
    using at_t unfolding that option.case .
  show "held_stage p t m \<and> p \<in> cw_locked (m_world m) \<and>
      p < places (http_part (cw_service (m_world m)))" if "h t = Some p"
    using some[OF that] by blast
  show "t' = t" if "h t = Some p" "h t' = Some p"
    using some[OF that(1)] that(2) by blast
qed

lemma holdersI:
  assumes "\<And>t. h t = None \<Longrightarrow> free_stage t m"
    and "\<And>t p. h t = Some p \<Longrightarrow> held_stage p t m \<and> p \<in> cw_locked (m_world m) \<and>
      p < places (http_part (cw_service (m_world m)))"
    and "\<And>t t' p. h t = Some p \<Longrightarrow> h t' = Some p \<Longrightarrow> t' = t"
  shows "holders h m"
  using assms unfolding holders_def by (auto split: option.splits)

text \<open>
  A step of the thread \<^verbatim>\<open>t\<close>, which has, takes or gives back the lock of the place \<^verbatim>\<open>p\<close> and changes
  only what belongs to it.
\<close>

lemma server_inv_update:
  assumes "routines_ok m" "service_ok m" "holders h m" "routines_ok m'"
    and "\<And>t'. t' \<noteq> t \<Longrightarrow> m_ctl m' t' = m_ctl m t' \<and> m_ord m' t' = m_ord m t'"
    and "\<And>i. i < length (m_routines m) \<Longrightarrow> i < length (m_routines m') \<and>
      (\<not> of_place p i (rout m i) \<longrightarrow> rout m' i = rout m i)"
    and "touches_only p (cw_service (m_world m)) (cw_service (m_world m'))"
    and "cw_locked (m_world m') - {p} = cw_locked (m_world m) - {p}"
    and "\<And>i. p < places (http_part (cw_service (m_world m))) \<Longrightarrow> routine p (cw_service (m_world m')) = Some i \<Longrightarrow>
      i < length (m_routines m') \<and> of_place p i (rout m' i) \<and>
      (p \<notin> cw_locked (m_world m') \<longrightarrow> is_open (conn_at (http_part (cw_service (m_world m'))) p) \<longrightarrow> resumable (rout m' i))"
    and "h t = None \<or> h t = Some p" "\<And>t'. t' \<noteq> t \<Longrightarrow> h t' \<noteq> Some p"
    and "free_stage t m' \<or> held_stage p t m' \<and> p \<in> cw_locked (m_world m') \<and>
      p < places (http_part (cw_service (m_world m)))"
  shows "server_inv m'"
proof -
  let ?cs = "cw_service (m_world m)" and ?cs' = "cw_service (m_world m')"
  have pl: "places (http_part ?cs') = places (http_part ?cs)" "length (p_rout ?cs') = length (p_rout ?cs)"
    and same: "\<And>q. q \<noteq> p \<Longrightarrow> routine q ?cs' = routine q ?cs \<and> conn_at (http_part ?cs') q = conn_at (http_part ?cs) q"
    using assms(7) by (auto simp: touches_only_def)
  have locked: "q \<in> cw_locked (m_world m') \<longleftrightarrow> q \<in> cw_locked (m_world m)" if "q \<noteq> p" for q
    using assms(8) that by blast
  have other: "rout m' i = rout m i \<and> i < length (m_routines m')"
    if "i < length (m_routines m)" "of_place q i (rout m i)" "q \<noteq> p" for i q
    using assms(6)[OF that(1)] that(2,3) of_place_inj by blast
  have "service_ok m'"
    unfolding service_ok_def Let_def
  proof (intro conjI allI impI)
    show "length (p_rout ?cs') = places (http_part ?cs')" using assms(2) pl by (simp add: service_ok_def Let_def)
    fix q i
    assume q: "q < places (http_part ?cs')" "routine q ?cs' = Some i"
    have "i < length (m_routines m') \<and> of_place q i (rout m' i) \<and> (q \<notin> cw_locked (m_world m') \<longrightarrow>
        is_open (conn_at (http_part ?cs') q) \<longrightarrow> resumable (rout m' i))"
    proof (cases "q = p")
      case True
      then show ?thesis using assms(9) q pl by simp
    next
      case False
      then have "i < length (m_routines m) \<and> of_place q i (rout m i) \<and> (q \<notin> cw_locked (m_world m) \<longrightarrow>
          is_open (conn_at (http_part ?cs) q) \<longrightarrow> resumable (rout m i))"
        using assms(2) q pl same[of q] by (simp add: service_ok_def Let_def)
      moreover from this have "rout m' i = rout m i \<and> i < length (m_routines m')" using other False by blast
      ultimately show ?thesis using same[OF False] locked[OF False] by simp
    qed
    then show "i < length (m_routines m')" "of_place q i (rout m' i)"
      "q \<notin> cw_locked (m_world m') \<Longrightarrow> is_open (conn_at (http_part ?cs') q) \<Longrightarrow> resumable (rout m' i)" by auto
  qed
  moreover have "\<exists>h'. holders h' m'"
  proof -
    let ?h = "h(t := if free_stage t m' then None else Some p)"
    have others: "free_stage t' m'" if "t' \<noteq> t" "h t' = None" for t'
      using holdersD(1)[OF assms(3) that(2)] assms(5)[OF that(1)] by (simp add: free_stage_def)
    have held: "held_stage q t' m' \<and> q \<in> cw_locked (m_world m') \<and> q < places (http_part ?cs')"
      if "t' \<noteq> t" "h t' = Some q" for t' q
    proof -
      have q: "q \<noteq> p" using assms(11) that by blast
      note hq = holdersD(2)[OF assms(3) that(2)]
      have "held_stage q t' m'"
        by (rule held_stage_frame[of q t' m]) (use hq assms(5)[OF that(1)] other[OF _ _ q] same[OF q]
          of_place_less[OF assms(2)] in auto)
      then show ?thesis using hq locked[OF q] pl by simp
    qed
    have "holders ?h m'"
    proof (rule holdersI)
      show "free_stage t' m'" if "?h t' = None" for t'
        using that others[of t'] by (cases "t' = t") (auto split: if_splits)
      show "held_stage q t' m' \<and> q \<in> cw_locked (m_world m') \<and> q < places (http_part ?cs')"
        if "?h t' = Some q" for t' q
        using that held[of t' q] assms(12) pl(1) by (cases "t' = t") (auto split: if_splits)
      show "t2 = t1" if "?h t1 = Some q" "?h t2 = Some q" for t1 t2 q
        using that assms(11)[of t1] assms(11)[of t2] holdersD(3)[OF assms(3), of t1 q t2]
        by (cases "t1 = t"; cases "t2 = t") (auto split: if_splits)
    qed
    then show ?thesis by blast
  qed
  ultimately show ?thesis using assms(4) by (simp add: server_inv_eq)
qed

section \<open>The steps of a worker\<close>

lemma touches_only_refl [simp]: "touches_only p cs cs"
  by (simp add: touches_only_def)

lemma touches_only_set_routine: "touches_only p cs (set_routine p r cs)"
  by (simp add: touches_only_def set_routine_def routine_def)

lemma routines_ok_same:
  "routines_ok m \<Longrightarrow> m_routines m' = m_routines m \<Longrightarrow> m_queue m' = m_queue m \<Longrightarrow> routines_ok m'"
  by (simp add: routines_ok_def rout_def)

lemma routines_ok_update:
  assumes "routines_ok m" "m_routines m' = (m_routines m)[i := r]" "m_queue m' = m_queue m"
    and "\<not> cr_finished r" "of_place p i r"
  shows "routines_ok m'"
proof -
  have "\<not> cr_finished (rout m' j) \<and> (\<exists>p. of_place p j (rout m' j))" if "j < length (m_routines m')" for j
    using that assms by (cases "j = i") (auto simp: routines_ok_def rout_def)
  then show ?thesis using assms(1,3) by (simp add: routines_ok_def)
qed

text \<open>Only the control of the thread changes, and the system.\<close>

lemma free_moves:
  assumes "routines_ok m" "service_ok m" "holders h m" "h t = None" "free_stage t m'"
    and "m' = set_ctl t c (m\<lparr>m_world := (m_world m)\<lparr>cw_os := w\<rparr>\<rparr>)"
  shows "server_inv m'"
proof (rule server_inv_update[OF assms(1-3), where p = "places (http_part (cw_service (m_world m)))" and t = t])
  show "routines_ok m'" by (rule routines_ok_same[OF assms(1)]) (simp_all add: assms(6))
  show "h t' \<noteq> Some (places (http_part (cw_service (m_world m))))" if "t' \<noteq> t" for t'
    using holdersD(2)[OF assms(3), of t'] by auto
qed (use assms in \<open>simp_all\<close>)

lemma held_moves:
  assumes "routines_ok m" "service_ok m" "holders h m" "h t = Some p" "held_stage p t m'"
    and "m' = set_ctl t c m"
  shows "server_inv m'"
proof (rule server_inv_update[OF assms(1-3), where p = p and t = t])
  show "routines_ok m'" by (rule routines_ok_same[OF assms(1)]) (simp_all add: assms(6))
  have p: "p \<in> cw_locked (m_world m)" "p < places (http_part (cw_service (m_world m)))"
    using holdersD(2)[OF assms(3,4)] by auto
  show "h t' \<noteq> Some p" if "t' \<noteq> t" for t' using holdersD(3)[OF assms(3,4), of t'] that by blast
  show "i < length (m_routines m') \<and> of_place p i (rout m' i) \<and>
      (p \<notin> cw_locked (m_world m') \<longrightarrow> is_open (conn_at (http_part (cw_service (m_world m'))) p) \<longrightarrow> resumable (rout m' i))"
    if "routine p (cw_service (m_world m')) = Some i" for i
    using that of_place_less[OF assms(2) p(2)] p(1) by (simp add: assms(6))
  show "free_stage t m' \<or> held_stage p t m' \<and> p \<in> cw_locked (m_world m') \<and> p < places (http_part (cw_service (m_world m)))"
    using assms(5) p by (simp add: assms(6))
qed (use assms in \<open>simp_all\<close>)

text \<open>Control comes to a routine of the place, which is suspended.\<close>

lemma resumes_routine:
  assumes "routines_ok m" "service_ok m" "holders h m" "h t = None \<or> h t = Some p" "\<And>t'. t' \<noteq> t \<Longrightarrow> h t' \<noteq> Some p"
    and "m_ctl m t = Ctx (OfThread t) (Code q)" "cor_work_code su q (m_world m) = Some (s, Resumes i (Behind es p))"
    and "i < length (m_routines m)" "of_place p i (rout m i)" "resumable (rout m i)"
    and "routine p (cw_service s) = Some i" "touches_only p (cw_service (m_world m)) (cw_service s)"
    and "cw_locked s = insert p (cw_locked (m_world m))" "p < places (http_part (cw_service (m_world m)))"
  shows "\<exists>m'. machine_step (cor_system su) t m = Some (Inr m') \<and> server_inv m'"
proof -
  have nf: "\<not> cr_finished (rout m i)" using assms(1,8) by (simp add: routines_ok_def)
  obtain c where c: "cr_ctx (rout m i) = Some c" "c = Entry \<or> (\<exists>t0 pos. c = Ctx (OfRoutine i t0) (Code (Serves p pos)))"
    using assms(9,10) by (auto simp: resumable_def of_place_def)
  have code: "code (cor_system su) q (m_world m) = Some (s, Resumes i (Behind es p))" using assms(7) by simp
  obtain m1 where m1: "machine_step (cor_system su) t m = Some (Inr m1)" "m_ctl m1 = (m_ctl m)(t := c)"
    "m_world m1 = s" "m_queue m1 = m_queue m"
    "m_ord m1 = (m_ord m)(t := \<lparr>to_current = Some i, to_ctx = Some (Ctx (OfThread t) (InResume i (Behind es p)))\<rparr>)"
    "m_routines m1 = (m_routines m)[i := (rout m i)\<lparr>cr_link := t, cr_ctx := None\<rparr>]"
    by (rule resume_switches[OF assms(6) code assms(8) _ nf c(1)]) simp_all
  have r1: "rout m1 i = (rout m i)\<lparr>cr_link := t, cr_ctx := None\<rparr>" "i < length (m_routines m1)"
    "\<And>j. j \<noteq> i \<Longrightarrow> rout m1 j = rout m j"
    using m1(6) assms(8) by (simp_all add: rout_def)
  have ofp: "of_place p i (rout m1 i)" using assms(9) r1(1) by (simp add: of_place_def)
  have stage: "held_stage p t m1"
    by (rule held_stage.in_routine[where i = i and es = es]) (use m1(2,3,5) r1 ofp assms(11) c(2) in auto)
  have "server_inv m1"
  proof (rule server_inv_update[OF assms(1-3) _ _ _ _ _ _ assms(4,5)])
    show "routines_ok m1"
      by (rule routines_ok_update[OF assms(1) m1(6,4)]) (use nf ofp r1(1) in simp_all)
    show "j < length (m_routines m1) \<and> (\<not> of_place p j (rout m j) \<longrightarrow> rout m1 j = rout m j)"
      if "j < length (m_routines m)" for j
      using that m1(6) r1(3) assms(9) by (cases "j = i") auto
    show "j < length (m_routines m1) \<and> of_place p j (rout m1 j) \<and> (p \<notin> cw_locked (m_world m1) \<longrightarrow>
        is_open (conn_at (http_part (cw_service (m_world m1))) p) \<longrightarrow> resumable (rout m1 j))"
      if "routine p (cw_service (m_world m1)) = Some j" for j
      using that assms(11,13) m1(3) r1(2) ofp by simp
  qed (use m1(2,3,5) stage assms(12-14) in \<open>auto\<close>)
  then show ?thesis using m1(1) by blast
qed

text \<open>The steps of a thread by its stage: without a lock, and with one.\<close>

lemma new_routine_of_place: "of_place p i (CorRoutine_new t (Serves p Serve))"
  by (simp add: of_place_def CorRoutine_new_def)

lemma free_step:
  assumes "routines_ok m" "service_ok m" "holders h m" "h t = None" "timely t m"
    and "machine_step (cor_system su) t m = Some x"
  shows "\<exists>m'. x = Inr m' \<and> server_inv m'"
proof -
  let ?cs = "cw_service (m_world m)"
  consider (waits) "m_ctl m t = Ctx (OfThread t) (Code Waits)"
    | (over) "m_ctl m t = Ctx (OfThread t) (Code (Handles []))"
    | (event) p es where "m_ctl m t = Ctx (OfThread t) (Code (Handles (p # es)))"
    using holdersD(1)[OF assms(3,4)] unfolding free_stage_def by (metis list.exhaust)
  then show ?thesis
  proof cases
    case waits
    obtain w r where wait: "EPoll_wait (su_wait su) (env_epoll (su_env su)) (cw_os (m_world m)) = (w, r)"
      by (cases "EPoll_wait (su_wait su) (env_epoll (su_env su)) (cw_os (m_world m))")
    then obtain evs where "x = Inr (set_ctl t (Ctx (OfThread t) (Code (Handles (map event_place evs))))
        (m\<lparr>m_world := (m_world m)\<lparr>cw_os := w\<rparr>\<rparr>))"
      using assms(6) waits
      by (auto simp: machine_step_def Let_def split: sum.splits epoll_error.splits)
    then show ?thesis using free_moves[OF assms(1-4) _ refl] by (auto simp: free_stage_def)
  next
    case over
    then have "x = Inr (set_ctl t (Ctx (OfThread t) (Code Waits))
        (m\<lparr>m_world := (m_world m)\<lparr>cw_os := cw_os (m_world m)\<rparr>\<rparr>))"
      using assms(6) by (simp add: machine_step_def)
    moreover have "server_inv (set_ctl t (Ctx (OfThread t) (Code Waits))
        (m\<lparr>m_world := (m_world m)\<lparr>cw_os := cw_os (m_world m)\<rparr>\<rparr>))"
      by (rule free_moves[OF assms(1-4) _ refl]) (simp add: free_stage_def)
    ultimately show ?thesis by blast
  next
    case (event p es)
    have p: "p < places (http_part ?cs)" "p \<notin> cw_locked (m_world m) \<longrightarrow> is_open (conn_at (http_part ?cs) p)"
      using assms(5) event by (simp_all add: timely_def)
    have free: "p \<notin> cw_locked (m_world m)" using assms(6) event by (auto simp: machine_step_def split: if_splits)
    then have other: "h t' \<noteq> Some p" for t' using holdersD(2)[OF assms(3), of t' p] by blast
    let ?s = "(m_world m)\<lparr>cw_locked := insert p (cw_locked (m_world m))\<rparr>"
    show ?thesis
    proof (cases "routine p ?cs")
      case None
      let ?m1 = "m\<lparr>m_world := ?s, m_routines := m_routines m @ [CorRoutine_new t (Serves p Serve)]\<rparr>"
      let ?i = "length (m_routines m)"
      let ?m' = "set_ctl t (Ctx (OfThread t) (Code (Made es p ?i))) ?m1"
      have x: "x = Inr ?m'"
        using assms(1,6) event free None
        by (simp add: machine_step_def machine_create_def routines_ok_def Let_def)
      have old: "rout ?m' j = rout m j" if "j < ?i" for j using that by (simp add: rout_def nth_append set_ctl_def)
      have new: "rout ?m' ?i = CorRoutine_new t (Serves p Serve)" by (simp add: rout_def set_ctl_def)
      have "server_inv ?m'"
      proof (rule server_inv_update[OF assms(1-3), where p = p and t = t])
        show "routines_ok ?m'"
          unfolding routines_ok_def
        proof (intro conjI allI impI)
          show "m_queue ?m' = []" using assms(1) by (simp add: routines_ok_def set_ctl_def)
          fix j assume j: "j < length (m_routines ?m')"
          have "\<not> cr_finished (rout ?m' j) \<and> (\<exists>p. of_place p j (rout ?m' j))"
          proof (cases "j < ?i")
            case True
            then show ?thesis using assms(1) old by (simp add: routines_ok_def)
          next
            case False
            then have "j = ?i" using j by (simp add: set_ctl_def)
            then show ?thesis unfolding \<open>j = ?i\<close> new using new_routine_of_place[of p ?i t]
              by (auto simp: CorRoutine_new_def)
          qed
          then show "\<not> cr_finished (rout ?m' j)" "\<exists>p. of_place p j (rout ?m' j)" by blast+
        qed
        show "free_stage t ?m' \<or> held_stage p t ?m' \<and> p \<in> cw_locked (m_world ?m') \<and>
            p < places (http_part ?cs)"
        proof (intro disjI2 conjI)
          show "held_stage p t ?m'"
          proof (rule held_stage.made[where es = es and i = ?i])
            show "of_place p ?i (rout ?m' ?i)" unfolding new by (rule new_routine_of_place)
            show "cr_ctx (rout ?m' ?i) = Some Entry" unfolding new by (simp add: CorRoutine_new_def)
          qed (simp_all add: set_ctl_def)
        qed (use p in \<open>simp_all add: set_ctl_def\<close>)
      qed (use other None old assms(4) in \<open>auto simp: set_ctl_def\<close>)
      then show ?thesis using x by blast
    next
      case (Some i)
      have i: "i < length (m_routines m)" "of_place p i (rout m i)" "resumable (rout m i)"
        using assms(2) p free Some by (simp_all add: service_ok_def Let_def)
      have "\<exists>m'. machine_step (cor_system su) t m = Some (Inr m') \<and> server_inv m'"
        by (rule resumes_routine[OF assms(1-3) _ _ event _ i, where s = ?s and es = es])
          (use other assms(4) free Some p(1) in auto)
      then show ?thesis using assms(6) by auto
    qed
  qed
qed

lemma held_step:
  assumes "routines_ok m" "service_ok m" "holders h m" "h t = Some p"
    and "machine_step (cor_system su) t m = Some x"
  shows "\<exists>m'. x = Inr m' \<and> server_inv m'"
proof -
  let ?cs = "cw_service (m_world m)"
  have held: "held_stage p t m" and p: "p \<in> cw_locked (m_world m)" "p < places (http_part ?cs)"
    using holdersD(2)[OF assms(3,4)] by auto
  have other: "h t' \<noteq> Some p" if "t' \<noteq> t" for t' using holdersD(3)[OF assms(3,4), of t'] that by blast
  have len: "length (p_rout ?cs) = places (http_part ?cs)" using assms(2) by (simp add: service_ok_def Let_def)
  from held show ?thesis
  proof cases
    case (made es i)
    let ?s = "(m_world m)\<lparr>cw_service := set_routine p (Some i) ?cs\<rparr>"
    have "resumable (rout m i)" using made(3) by (simp add: resumable_def)
    moreover have "routine p (cw_service ?s) = Some i" using p(2) len by (simp add: routine_def set_routine_def)
    moreover have "touches_only p ?cs (cw_service ?s)" by (simp add: touches_only_set_routine)
    moreover have "cw_locked ?s = insert p (cw_locked (m_world m))" using p(1) by auto
    moreover have "cor_work_code su (Made es p i) (m_world m) = Some (?s, Resumes i (Behind es p))" by simp
    ultimately have "\<exists>m'. machine_step (cor_system su) t m = Some (Inr m') \<and> server_inv m'"
      using resumes_routine[OF assms(1-3) disjI2[OF assms(4)] other made(1) _ made(2,4), of su ?s es] p(2) by blast
    then show ?thesis using assms(5) by auto
  next
    case (behind es r)
    then obtain b where r: "r = Inr b" using assms(5) by (cases r) (auto simp: machine_step_def)
    let ?m' = "set_ctl t (Ctx (OfThread t) (Code (Handles es)))
      (m\<lparr>m_world := (m_world m)\<lparr>cw_locked := cw_locked (m_world m) - {p}\<rparr>\<rparr>)"
    have x: "x = Inr ?m'" using assms(5) behind(1) r by (simp add: machine_step_def)
    have bk: "back_ok p m" using behind(2) r by simp
    have "server_inv ?m'"
    proof (rule server_inv_update[OF assms(1-3), where p = p and t = t])
      show "routines_ok ?m'" by (rule routines_ok_same[OF assms(1)]) simp_all
      show "i < length (m_routines ?m') \<and> of_place p i (rout ?m' i) \<and> (p \<notin> cw_locked (m_world ?m') \<longrightarrow>
          is_open (conn_at (http_part (cw_service (m_world ?m'))) p) \<longrightarrow> resumable (rout ?m' i))"
        if "routine p (cw_service (m_world ?m')) = Some i" for i
        using that of_place_less[OF assms(2) p(2)] bk by (simp add: back_ok_def)
    qed (use other assms(4) in \<open>auto simp: free_stage_def\<close>)
    then show ?thesis using x by blast
  next
    case (in_resume i es)
    let ?m' = "resume_behind_swap t (OfThread t) i (Behind es p) m"
    have x: "x = Inr ?m'" using assms(5) step_behind[OF in_resume(1), of "cor_system su"] by simp
    have "held_stage p t ?m'"
      by (rule held_stage.behind[where es = es])
        (use in_resume(2) in \<open>auto simp: resume_behind_swap_def back_ok_def split: option.splits\<close>)
    then show ?thesis using x held_moves[OF assms(1-4)] by (simp add: resume_behind_swap_def)
  next
    case (in_routine i es)
    from in_routine(8) show ?thesis
    proof (elim disjE exE)
      assume entry: "m_ctl m t = Entry"
      let ?m' = "set_ctl t (Ctx (OfRoutine i t) (Code (Serves p Serve))) m"
      have x: "x = Inr ?m'"
        using assms(5) entry in_routine(2,6) by (simp add: machine_step_def entry_start_def of_place_def)
      have "held_stage p t ?m'"
        by (rule held_stage.in_routine[where i = i and es = es]) (use in_routine in auto)
      then show ?thesis using x held_moves[OF assms(1-4)] by blast
    next
      fix t0 pos
      assume ctl: "m_ctl m t = Ctx (OfRoutine i t0) (Code (Serves p pos))"
      obtain w cs' out where run: "serve_client (su_env su) (su_listener su) (su_clock su (cw_os (m_world m))) (p, pos)
          (cw_os (m_world m), ?cs) = Some ((w, cs'), out)"
        using assms(5) ctl by (auto simp: machine_step_def split: option.splits)
      note seg = serve_client_segment_ok[OF p(2) run]
      let ?s = "(m_world m)\<lparr>cw_os := w, cw_service := cs'\<rparr>"
      define out' where "out' = (case out of Yielded (p, pos) \<Rightarrow> Yielded (Serves p pos) | Returned \<Rightarrow> Returned | Threw e \<Rightarrow> Threw e)"
      have "run_of (cor_system su) (Serves p pos) (m_world m) = Some (?s, out')"
        by (simp add: run_of_def run out'_def split: outcome.splits)
      from code_to_switch[OF ctl in_routine(2,1,3,5) _ this] obtain m2 where
        m2: "machine_step (cor_system su) t m = Some (Inr m2)"
          "m_ctl m2 = (m_ctl m)(t := Ctx (OfThread t) (InResume i (Behind es p)))" "m_world m2 = ?s" "m_queue m2 = m_queue m"
          "m_ord m2 = (m_ord m)(t := \<lparr>to_current = (case out' of Yielded p \<Rightarrow> None | _ \<Rightarrow> Some i), to_ctx = None\<rparr>)"
        and m2r: "m_routines m2 = (m_routines m)[i := (rout m i)\<lparr>
          cr_exception := (case out' of Threw e \<Rightarrow> Some e | _ \<Rightarrow> cr_exception (rout m i)),
          cr_ctx := Some (Ctx (OfRoutine i t0) (case out' of Yielded p \<Rightarrow> Code p | _ \<Rightarrow> BehindSwap))\<rparr>]"
        by auto
      let ?r = "(rout m i)\<lparr>cr_exception := (case out' of Threw e \<Rightarrow> Some e | _ \<Rightarrow> cr_exception (rout m i)),
          cr_ctx := Some (Ctx (OfRoutine i t0) (case out' of Yielded p \<Rightarrow> Code p | _ \<Rightarrow> BehindSwap))\<rparr>"
      have r2: "rout m2 i = ?r" "i < length (m_routines m2)" "\<And>j. j \<noteq> i \<Longrightarrow> rout m2 j = rout m j"
        using m2r in_routine(3) by (simp_all add: rout_def)
      have yields: "out' = Yielded q \<Longrightarrow> \<exists>pos'. q = Serves p pos'" for q
        using seg by (auto simp: out'_def segment_ok_def split: outcome.splits)
      have ofp: "of_place p i (rout m2 i)"
        using in_routine(6) yields unfolding r2(1) by (cases out') (auto simp: of_place_def)
      have same: "j = i \<and> p_rout cs' = p_rout ?cs" if "routine p cs' = Some j" for j
        using seg that in_routine(7) p(2) len by (auto simp: segment_ok_def touches_def routine_def)
      have bk: "back_ok p m2" if "cr_exception (rout m2 i) = None"
      proof -
        have "resumable (rout m2 j)" if "routine p cs' = Some j" "is_open (conn_at (http_part cs') p)" for j
        proof -
          note open_p = that(2)
          have j: "j = i" "p_rout cs' = p_rout ?cs" using same[OF that(1)] by auto
          have "p_rout cs' \<noteq> (p_rout ?cs)[p := None]"
            using that(1) p(2) len by (auto simp: routine_def)
          then obtain q where "out' = Yielded q"
            using seg open_p \<open>cr_exception (rout m2 i) = None\<close> unfolding r2(1)
            by (cases out) (auto simp: out'_def segment_ok_def split: prod.splits)
          then show ?thesis unfolding j(1) r2(1) by (simp add: resumable_def)
        qed
        then show ?thesis using m2(3) by (simp add: back_ok_def)
      qed
      have stage: "held_stage p t m2"
        by (rule held_stage.in_resume[where i = i and es = es]) (use m2(2) bk r2(2) ofp in auto)
      have "server_inv m2"
      proof (rule server_inv_update[OF assms(1-3), where p = p and t = t])
        show "routines_ok m2"
          by (rule routines_ok_update[OF assms(1) m2r m2(4) _ ofp[unfolded r2(1)]])
            (use assms(1) in_routine(3) in \<open>simp add: routines_ok_def\<close>)
        show "j < length (m_routines m2) \<and> (\<not> of_place p j (rout m j) \<longrightarrow> rout m2 j = rout m j)"
          if "j < length (m_routines m)" for j
          using that r2(3) m2r in_routine(6) by (cases "j = i") auto
        show "touches_only p ?cs (cw_service (m_world m2))"
          using seg m2(3) touches_only by (simp add: segment_ok_def)
        show "j < length (m_routines m2) \<and> of_place p j (rout m2 j) \<and> (p \<notin> cw_locked (m_world m2) \<longrightarrow>
            is_open (conn_at (http_part (cw_service (m_world m2))) p) \<longrightarrow> resumable (rout m2 j))"
          if "routine p (cw_service (m_world m2)) = Some j" for j
          using that same[of j] m2(3) r2(2) ofp p(1) by auto
      qed (use m2 other stage p assms(4) in auto)
      then show ?thesis using m2(1) assms(5) by auto
    qed
  qed
qed

section \<open>The steps of the service\<close>

definition moves_ok :: "CorService \<Rightarrow> CorService \<Rightarrow> bool" where
  "moves_ok cs cs' \<longleftrightarrow> places (http_part cs) \<le> places (http_part cs') \<and>
     length (p_rout cs') = places (http_part cs') \<and>
     (\<forall>q < places (http_part cs'). routine q cs' = None \<or>
        q < places (http_part cs) \<and> routine q cs' = routine q cs \<and>
        (is_open (conn_at (http_part cs') q) \<longrightarrow> is_open (conn_at (http_part cs) q)))"

lemma conn_at_set_other [simp]: "q \<noteq> p \<Longrightarrow> conn_at (update_place p f sv) q = conn_at sv q"
  by (simp add: conn_at_def update_place_def)

lemma conn_at_containers [simp]:
  "conn_at (sv\<lparr>closed_places := c\<rparr>) q = conn_at sv q" "conn_at (sv\<lparr>timeod := l\<rparr>) q = conn_at sv q"
  "conn_at (push_place p sv) q = conn_at sv q"
  "places (sv\<lparr>closed_places := c\<rparr>) = places sv" "places (sv\<lparr>timeod := l\<rparr>) = places sv"
  "places (push_place p sv) = places sv"
  by (simp_all add: conn_at_def push_place_def places_def)

lemma emplace_moves:
  assumes "cor_emplace cn now cs = Some (cs', p)" "length (p_rout cs) = places (http_part cs)"
  shows "moves_ok cs (cs'\<lparr>http_part := set_conn p c (http_part cs')\<rparr>)"
proof (cases "closed_places (http_part cs)")
  case Nil
  then have cs': "p_rout cs' = p_rout cs @ [None]" "places (http_part cs') = Suc (places (http_part cs))"
      "\<forall>q < places (http_part cs). conn_at (http_part cs') q = conn_at (http_part cs) q" "p = places (http_part cs)"
    using assms(1)
    by (auto simp: cor_emplace_def cor_try_replace_def try_replace_closed_with_new_conn_def Let_def
        places_def push_place_def conn_at_def update_place_def nth_append)
  show ?thesis
    using cs' assms(2) by (auto simp: moves_ok_def routine_def nth_append less_Suc_eq)
next
  case (Cons p' rest)
  then have cs': "p_rout cs' = (p_rout cs)[p := None]" "places (http_part cs') = places (http_part cs)"
      "\<forall>q. q \<noteq> p \<longrightarrow> conn_at (http_part cs') q = conn_at (http_part cs) q"
    using assms(1)
    by (auto simp: cor_emplace_def cor_try_replace_def try_replace_closed_with_new_conn_def Let_def
        set_routine_def split: option.splits if_splits)
  have "routine q cs' = None \<or> routine q cs' = routine q cs \<and>
      conn_at (set_conn p c (http_part cs')) q = conn_at (http_part cs) q" if "q < places (http_part cs)" for q
    using cs' assms(2) that by (cases "q = p") (simp_all add: routine_def)
  then show ?thesis
    using cs'(1,2) assms(2) by (fastforce simp: moves_ok_def routine_def)
qed

lemma dump_opens_nothing:
  "places (dump_timed_out_connections now sv) = places sv \<and>
   (is_open (conn_at (dump_timed_out_connections now sv) q) \<longrightarrow> is_open (conn_at sv q))"
proof (induction now sv rule: dump_timed_out_connections.induct)
  case (1 now sv)
  show ?case
  proof (cases "timeod sv")
    case Nil
    then show ?thesis by (simp add: dump_timed_out_connections.simps)
  next
    case (Cons x xs)
    obtain n p where x: "x = (n, p)" by (cases x)
    note step = dump_timed_out_connections.simps[of now sv]
    show ?thesis
    proof (cases "snd (close_if_timed_out p now sv)")
      case False
      then have "fst (close_if_timed_out p now sv) = sv"
        by (auto simp: close_if_timed_out_def Let_def split: if_splits)
      then show ?thesis using False Cons x step by simp
    next
      case True
      let ?s = "(fst (close_if_timed_out p now sv))\<lparr>timeod := tl (timeod sv)\<rparr>"
      have "is_open (conn_at ?s q) \<longrightarrow> is_open (conn_at sv q)" "places ?s = places sv"
        using True by (cases "q = p"; cases "p < places sv"; auto simp: close_if_timed_out_def Let_def split: if_splits)+
      moreover have "dump_timed_out_connections now sv = dump_timed_out_connections now ?s"
        using True Cons x step by simp
      ultimately show ?thesis using "1.IH"[OF Cons x[symmetric] True] Cons by simp
    qed
  qed
qed

lemma cor_service_step_moves:
  assumes "cor_service_step locked cs cs'" "length (p_rout cs) = places (http_part cs)"
  shows "moves_ok cs cs'"
  using assms
proof (induction rule: cor_service_step.induct)
  case (accepts cn now cs cs' p locked)
  then show ?case using emplace_moves by blast
next
  case (dumps locked now cs)
  then show ?case using dump_opens_nothing[of now "http_part cs"]
    by (auto simp: moves_ok_def cor_dump_def routine_def)
qed

lemma service_moves_inv:
  assumes "server_inv m" "cor_service_step (cw_locked (m_world m)) (cw_service (m_world m)) cs"
  shows "server_inv (m\<lparr>m_world := (m_world m)\<lparr>cw_os := w, cw_service := cs\<rparr>\<rparr>)"
proof -
  let ?m' = "m\<lparr>m_world := (m_world m)\<lparr>cw_os := w, cw_service := cs\<rparr>\<rparr>" and ?cs = "cw_service (m_world m)"
  obtain h where inv: "routines_ok m" "service_ok m" "holders h m" using assms(1) by (auto simp: server_inv_eq)
  have mv: "moves_ok ?cs cs"
    using cor_service_step_moves[OF assms(2)] inv(2) by (simp add: service_ok_def Let_def)
  have same: "rout ?m' i = rout m i" for i by simp
  have "service_ok ?m'"
    unfolding service_ok_def Let_def
  proof (intro conjI allI impI)
    show "length (p_rout (cw_service (m_world ?m'))) = places (http_part (cw_service (m_world ?m')))"
      using mv by (simp add: moves_ok_def)
    fix p i
    assume "p < places (http_part (cw_service (m_world ?m')))" "routine p (cw_service (m_world ?m')) = Some i"
    then have p: "p < places (http_part ?cs)" "routine p ?cs = Some i"
        "is_open (conn_at (http_part cs) p) \<longrightarrow> is_open (conn_at (http_part ?cs) p)"
      using mv by (auto simp: moves_ok_def)
    show "i < length (m_routines ?m')" "of_place p i (rout ?m' i)"
      using of_place_less[OF inv(2) p(1,2)] by simp_all
    assume "p \<notin> cw_locked (m_world ?m')" "is_open (conn_at (http_part (cw_service (m_world ?m'))) p)"
    then show "resumable (rout ?m' i)" using inv(2) p by (simp add: service_ok_def Let_def)
  qed
  moreover have "holders h ?m'"
  proof (rule holdersI)
    show "free_stage t ?m'" if "h t = None" for t
      using holdersD(1)[OF inv(3) that] by (simp add: free_stage_def)
    show "held_stage p t ?m' \<and> p \<in> cw_locked (m_world ?m') \<and> p < places (http_part (cw_service (m_world ?m')))"
      if "h t = Some p" for t p
    proof -
      note hp = holdersD(2)[OF inv(3) that]
      have "p < places (http_part cs)" using hp mv by (simp add: moves_ok_def)
      moreover have "held_stage p t ?m'"
      proof (rule held_stage_frame[of p t m])
        show "routine p (cw_service (m_world ?m')) = None \<or>
            routine p (cw_service (m_world ?m')) = routine p ?cs \<and>
            (is_open (conn_at (http_part (cw_service (m_world ?m'))) p) \<longrightarrow> is_open (conn_at (http_part ?cs) p))"
          using mv \<open>p < places (http_part cs)\<close> by (auto simp: moves_ok_def)
        show "i < length (m_routines m) \<and> of_place p i (rout m i)" if "routine p ?cs = Some i" for i
          using of_place_less[OF inv(2) _ that] hp by blast
      qed (use hp in simp_all)
      ultimately show ?thesis using hp by simp
    qed
  qed (rule holdersD(3)[OF inv(3)])
  moreover have "routines_ok ?m'" by (rule routines_ok_same[OF inv(1)]) simp_all
  ultimately show ?thesis by (auto simp: server_inv_eq)
qed

section \<open>All runs\<close>

lemma worker_step:
  assumes "server_inv m" "timely t m" "machine_step (cor_system su) t m = Some x"
  shows "\<exists>m'. x = Inr m' \<and> server_inv m'"
proof -
  obtain h where inv: "routines_ok m" "service_ok m" "holders h m" using assms(1) by (auto simp: server_inv_eq)
  show ?thesis
    using free_step[OF inv _ assms(2,3)] held_step[OF inv _ assms(3)] by (cases "h t") auto
qed

lemma cor_server_inv: "cor_server su m \<Longrightarrow> server_inv m"
proof (induction rule: cor_server.induct)
  case (begins m ct kt)
  have "holders (\<lambda>t. None) m" using begins by (auto simp: holders_def free_stage_def)
  then show ?case using begins
    by (auto simp: server_inv_eq routines_ok_def service_ok_def CorService_new_def HttpService_new_def places_def Let_def)
next
  case (works m t m')
  then show ?case using worker_step[OF works.IH works.hyps(2,3)] by blast
next
  case (serves m cs w)
  show ?case by (rule service_moves_inv[OF serves.IH serves.hyps(2)])
qed

lemma context_cases:
  obtains "c = Entry" | st p where "c = Ctx st (Code p)" | st i k where "c = Ctx st (InResume i k)"
  | st where "c = Ctx st BehindSwap"
proof (cases c)
  case (Ctx st pt)
  then show thesis using that(2,3,4) by (cases pt) blast+
qed (rule that(1))

lemma code_resumes:
  "cor_work_code su q s0 = Some (s, Resumes i k) \<Longrightarrow>
    (\<exists>p es. q = Handles (p # es) \<and> p \<notin> cw_locked s0 \<and> routine p (cw_service s0) = Some i) \<or> (\<exists>es p. q = Made es p i)"
  by (cases "(su, q, s0)" rule: cor_work_code.cases)
    (auto split: option.splits prod.splits sum.splits epoll_error.splits if_splits outcome.splits)

text \<open>The server is a disciplined program of the machine.\<close>

lemma timely_permitted:
  assumes "server_inv m" "timely t m"
  shows "permitted (cor_system su) t m"
proof -
  obtain h where inv: "routines_ok m" "service_ok m" "holders h m" using assms(1) by (auto simp: server_inv_eq)
  have entry: "i < length (m_routines m) \<and> cr_ctx (rout m i) = Some Entry"
    if "m_ctl m t = Ctx (OfThread t') (Code (Made es p i))" for t' es p i
  proof (cases "h t")
    case None
    then show ?thesis using holdersD(1)[OF inv(3) None] that by (auto simp: free_stage_def)
  next
    case (Some q)
    have "held_stage q t m" using holdersD(2)[OF inv(3) Some] by blast
    then show ?thesis using that by cases auto
  qed
  have event: "i < length (m_routines m) \<and> resumable (rout m i)"
    if "m_ctl m t = Ctx (OfThread t') (Code (Handles (p # es)))" "p \<notin> cw_locked (m_world m)"
      "routine p (cw_service (m_world m)) = Some i" for t' es p i
  proof -
    have "p < places (http_part (cw_service (m_world m)))" "is_open (conn_at (http_part (cw_service (m_world m))) p)"
      using assms(2) that(1,2) by (simp_all add: timely_def)
    then show ?thesis using inv(2) that(2,3) by (simp add: service_ok_def Let_def)
  qed
  have resumes: "i < length (m_routines m) \<and> resumable (rout m i)"
    if "m_ctl m t = Ctx (OfThread t') (Code q)" "cor_work_code su q (m_world m) = Some (s, Resumes i k)" for t' q s i k
    using code_resumes[OF that(2)] entry event that(1) by (auto simp: resumable_def)
  show ?thesis
  proof (cases "\<exists>t' q s i k. m_ctl m t = Ctx (OfThread t') (Code q) \<and> cor_work_code su q (m_world m) = Some (s, Resumes i k)")
    case True
    then obtain t' q s i k where q: "m_ctl m t = Ctx (OfThread t') (Code q)"
        "cor_work_code su q (m_world m) = Some (s, Resumes i k)" by blast
    obtain c where "cr_ctx (rout m i) = Some c" "\<forall>st. c \<noteq> Ctx st BehindSwap"
      using resumes[OF q] by (auto simp: resumable_def)
    then show ?thesis using q resumes[OF q]
      by (cases c rule: context_cases) (auto simp: permitted_def split: stack.splits)
  next
    case False
    then show ?thesis
      by (auto simp: permitted_def split: ucontext.splits stack.splits code_point.splits option.splits call.splits)
  qed
qed

lemma cor_server_disciplined: "cor_server su m \<Longrightarrow> disciplined (cor_system su) (- cor_serves) m"
proof (induction rule: cor_server.induct)
  case (begins m ct kt)
  then show ?case by (intro disciplined.starts) auto
next
  case (works m t m')
  then show ?case using timely_permitted cor_server_inv by (blast intro: disciplined.goes_on)
next
  case (serves m cs w)
  then show ?case by (intro disciplined.moves)
qed

section \<open>A worker with an event\<close>

definition sample_setup :: "peer cor_setup" where
  "sample_setup = \<lparr>su_env = peer_env, su_wait = (\<lambda>fd n w. (w, Inr [\<lparr>ev_events = EPOLLIN, ev_data = Ptr 0\<rparr>])),
     su_listener = (\<lambda>r w. (w, Responce_default)), su_clock = (\<lambda>w. 31), su_late = False\<rparr>"

definition sample_server :: "CorService \<Rightarrow> (cor_point, worker_error, peer cor_world) cor_machine" where
  "sample_server cs = \<lparr>m_routines = [], m_queue = [], m_ord = \<lambda>t. \<lparr>to_current = None, to_ctx = None\<rparr>,
     m_ctl = \<lambda>t. Ctx (OfThread t) (Code Waits),
     m_world = \<lparr>cw_os = \<lparr>to_deliver = [], received = []\<rparr>, cw_service = cs, cw_locked = {}\<rparr>\<rparr>"

definition accepting_service :: CorService where
  "accepting_service = fst (the (cor_emplace (client 5) 30 (CorService_new 20 60)))"

definition accepted_service :: CorService where
  "accepted_service = accepting_service\<lparr>http_part := set_conn 0 ((conn_at (http_part accepting_service) 0)
     \<lparr>epoll_option := opt_plus OPTION_READ OPTION_ET_ONESHOT\<rparr>) (http_part accepting_service)\<rparr>"

lemma accepted_service_facts:
  "cor_emplace (client 5) 30 (CorService_new 20 60) = Some (accepting_service, 0)"
  "places (http_part accepted_service) = 1" "is_open (conn_at (http_part accepted_service) 0)"
  by code_simp+

definition sample_event :: "(cor_point, worker_error, peer cor_world) cor_machine" where
  "sample_event = set_ctl 0 (Ctx (OfThread 0) (Code (Handles [0]))) (sample_server accepted_service)"

lemma sample_event_server: "cor_server sample_setup sample_event" "timely 0 sample_event"
proof -
  have "cor_server sample_setup (sample_server (CorService_new 20 60))"
    by (rule begins) (simp_all add: sample_server_def)
  moreover have "cor_service_step {} (CorService_new 20 60) accepted_service"
    using cor_service_step.accepts[OF accepted_service_facts(1)] by (simp add: accepted_service_def)
  ultimately have "cor_server sample_setup ((sample_server (CorService_new 20 60))\<lparr>m_world :=
      (m_world (sample_server (CorService_new 20 60)))\<lparr>cw_os := \<lparr>to_deliver = [], received = []\<rparr>, cw_service := accepted_service\<rparr>\<rparr>)"
    by (intro serves) (simp_all add: sample_server_def)
  then have "cor_server sample_setup (sample_server accepted_service)" by (simp add: sample_server_def)
  moreover have "timely 0 (sample_server accepted_service)" by (simp add: timely_def sample_server_def)
  moreover have "machine_step (cor_system sample_setup) 0 (sample_server accepted_service) = Some (Inr sample_event)"
    by (simp add: machine_step_def sample_server_def sample_event_def sample_setup_def EPoll_wait_def
        epoll_handle_error_def set_ctl_def)
  ultimately show "cor_server sample_setup sample_event" by (rule works)
  show "timely 0 sample_event"
    using accepted_service_facts by (simp add: timely_def sample_event_def sample_server_def)
qed

section \<open>Property\<close>

text \<open>
  C33: Several workers may share the routines. In every run of the coroutine server, with any
  number of workers whose steps and those of the accepting thread interleave in any way, as long
  as an event that is taken up is one of an open connection: no step dereferences a null routine
  or switches to a context that was not saved or has been used, no two threads are on the stack
  of one routine, and the workers are disciplined users of the coroutines. No routine is ever
  finished, so that none is handed out again: the number of stacks only grows.
\<close>

theorem workers_share_routines:
  assumes "cor_server su m"
  shows "(timely t m \<longrightarrow> machine_step (cor_system su) t m \<noteq> Some (Inl flt)) \<and>
    (\<forall>t' i t0 t1 pt pt'. m_ctl m t = Ctx (OfRoutine i t0) pt \<longrightarrow> m_ctl m t' = Ctx (OfRoutine i t1) pt' \<longrightarrow> t = t') \<and>
    disciplined (cor_system su) (- cor_serves) m \<and>
    m_queue m = [] \<and> (\<forall>i < length (m_routines m). \<not> cr_finished (rout m i))"
proof (intro conjI impI)
  have inv: "server_inv m" and dis: "disciplined (cor_system su) (- cor_serves) m"
    using cor_server_inv[OF assms] cor_server_disciplined[OF assms] by auto
  show "machine_step (cor_system su) t m \<noteq> Some (Inl flt)" if "timely t m"
    using worker_step[OF inv that] by blast
  show "\<forall>t' i t0 t1 pt pt'. m_ctl m t = Ctx (OfRoutine i t0) pt \<longrightarrow> m_ctl m t' = Ctx (OfRoutine i t1) pt' \<longrightarrow> t = t'"
    using disciplined_one_stack[OF disciplined_inv[OF dis cor_system_flat]] by simp
  show "disciplined (cor_system su) (- cor_serves) m" by (rule dis)
  show "m_queue m = []" "\<forall>i < length (m_routines m). \<not> cr_finished (rout m i)"
    using inv by (auto simp: server_inv_def)
qed

theorem workers_share_routines_witness:
  "\<exists>m. cor_server sample_setup m \<and> m_ctl m 0 = Ctx (OfThread 0) (Code (Handles [0])) \<and>
    machine_step (cor_system sample_setup) 0 m \<noteq> Some (Inl UsedContext) \<and> m_queue m = []"
  using workers_share_routines[OF sample_event_server(1), of 0 UsedContext] sample_event_server
  by (intro exI[of _ sample_event]) (simp add: sample_event_def)

end
