(* ===== verification/Net_Service.thy ===== *)
theory Net_Service
  imports Buf_Connection Epoll
begin

text \<open>
  \<^verbatim>\<open>5.net/lib/service.cpp\<close>: the loop of \<^verbatim>\<open>Service::run\<close>, one event of \<^verbatim>\<open>epoll_wait\<close> at a time.

  The connections are a list; a connection is found by its descriptor. The listener's five
  methods are functions of the connection and the world. Besides the exceptions, which leave
  \<^verbatim>\<open>run\<close>, there are two ways into undefined behaviour: to dereference the end of the list when
  no connection has the descriptor, and to read the connection after it has been erased.
\<close>

section \<open>State and environment\<close>

record 'w listener =
  onNewConnection :: "BufferedConnection \<Rightarrow> 'w \<Rightarrow> 'w \<times> BufferedConnection"
  onClose :: "BufferedConnection \<Rightarrow> 'w \<Rightarrow> 'w \<times> BufferedConnection"
  onWriteDone :: "BufferedConnection \<Rightarrow> 'w \<Rightarrow> 'w \<times> BufferedConnection"
  onReadAvailable :: "BufferedConnection \<Rightarrow> 'w \<Rightarrow> 'w \<times> BufferedConnection"
  onError :: "BufferedConnection \<Rightarrow> 'w \<Rightarrow> 'w \<times> BufferedConnection"

record 'w net_os =
  os_accept :: "int \<Rightarrow> 'w \<Rightarrow> 'w \<times> (tcp_error + NonBlockConnection)"
  os_recv :: "'w read_call"
  os_send :: "'w write_call"
  os_epoll_ctl :: "'w epoll_ctl"
  os_epoll_wait :: "'w epoll_wait"
  os_close :: "int \<Rightarrow> 'w \<Rightarrow> 'w"

datatype net_error =
    NetTcpError tcp_error
  | NetEPollError epoll_error
  | EndDereferenced
  | UsedAfterErase
  | NoListener

text \<open>The data of \<^verbatim>\<open>BaseService\<close>.\<close>

record 'w Service =
  s_server :: Server
  s_epoll :: EPoll
  s_listener :: "'w listener option"
  s_connections :: "BufferedConnection list"

abbreviation server_fd :: "'w Service \<Rightarrow> int" where
  "server_fd sv \<equiv> d_fd (c_socket (s_server sv))"

type_synonym 'w service_result = "'w \<times> 'w Service \<times> (net_error + unit)"

section \<open>The event of the server's socket\<close>

text \<open>\<^verbatim>\<open>epoll_.mod\<close> of a connection, when its socket is valid.\<close>

definition mod_if_valid ::
  "'w net_os \<Rightarrow> BufferedConnection \<Rightarrow> 'w Service \<Rightarrow> 'w \<Rightarrow> 'w service_result" where
  "mod_if_valid os c sv w =
     (if Descriptor_valid (c_socket c)
      then case EPoll_mod_fd (os_epoll_ctl os) (s_epoll sv) (c_socket c) (epoll_option c) w of
             (w, Inl e) \<Rightarrow> (w, sv, Inl (NetEPollError e))
           | (w, Inr _) \<Rightarrow> (w, sv, Inr ())
      else (w, sv, Inr ()))"

definition new_connection :: "'w net_os \<Rightarrow> 'w listener \<Rightarrow> 'w Service \<Rightarrow> 'w \<Rightarrow> 'w service_result" where
  "new_connection os li sv w =
     (case os_accept os (server_fd sv) w of
        (w, Inl e) \<Rightarrow> (w, sv, Inl (NetTcpError e))
      | (w, Inr cn) \<Rightarrow>
          let c = BufferedConnection_new cn;
              conns = s_connections sv
          in case EPoll_add_fd (os_epoll_ctl os) (s_epoll sv) (c_socket c) OPTION_CLOSE w of
               (w, Inl e) \<Rightarrow> (w, sv\<lparr>s_connections := conns @ [c]\<rparr>, Inl (NetEPollError e))
             | (w, Inr _) \<Rightarrow>
                 let (w, c) = onNewConnection li c w
                 in mod_if_valid os c (sv\<lparr>s_connections := conns @ [c]\<rparr>) w)"

section \<open>The event of a client\<close>

text \<open>The first three branches: which callback is made, and after which call.\<close>

definition dispatch ::
  "'w net_os \<Rightarrow> 'w listener \<Rightarrow> 32 word \<Rightarrow> BufferedConnection \<Rightarrow> 'w \<Rightarrow>
   'w \<times> BufferedConnection \<times> (net_error + unit)" where
  "dispatch os li evs c w =
     (let call = (\<lambda>f c w. let (w, c) = f c w in (w, c, Inr ()))
      in if evs AND EPOLLERR \<noteq> 0 then call (onError li) c w
         else if evs AND EPOLLIN \<noteq> 0
         then (case read_to_buffer (os_recv os) c w of
                 (w, c, Inl e) \<Rightarrow> (w, c, Inl (NetTcpError e))
               | (w, c, Inr n) \<Rightarrow> if n = 0 then call (onError li) c w else call (onReadAvailable li) c w)
         else if evs AND EPOLLOUT \<noteq> 0
         then if b_write c \<noteq> []
              then (case write_from_buffer (os_send os) c w of
                      (w, c, Inl e) \<Rightarrow> (w, c, Inl (NetTcpError e))
                    | (w, c, Inr n) \<Rightarrow> if n = 0 then call (onError li) c w else (w, c, Inr ()))
              else call (onWriteDone li) c w
         else (w, c, Inr ()))"

text \<open>
  The connection is closed, with the call that closes its descriptor, and erased;
  \<^verbatim>\<open>p_conn->socket().valid()\<close> behind it then reads the erased object.
\<close>

definition drop_connection ::
  "'w net_os \<Rightarrow> 'w listener \<Rightarrow> nat \<Rightarrow> BufferedConnection \<Rightarrow> 'w Service \<Rightarrow> 'w \<Rightarrow> 'w \<times> 'w Service" where
  "drop_connection os li i c sv w =
     (let (w, c) = onClose li c w;
          (c, fds) = Buffered_close c
      in (fold (os_close os) fds w, sv\<lparr>s_connections := take i (s_connections sv) @ drop (Suc i) (s_connections sv)\<rparr>))"

definition client_event ::
  "'w net_os \<Rightarrow> 'w listener \<Rightarrow> int \<Rightarrow> 32 word \<Rightarrow> 'w Service \<Rightarrow> 'w \<Rightarrow> 'w service_result" where
  "client_event os li fd evs sv w =
     (case find_pos (\<lambda>c. d_fd (c_socket c) = fd) (s_connections sv) of
        None \<Rightarrow> (w, sv, Inl EndDereferenced)
      | Some i \<Rightarrow>
          (case dispatch os li evs (s_connections sv ! i) w of
             (w, c, Inl e) \<Rightarrow> (w, sv\<lparr>s_connections := (s_connections sv)[i := c]\<rparr>, Inl e)
           | (w, c, Inr _) \<Rightarrow>
               let sv = sv\<lparr>s_connections := (s_connections sv)[i := c]\<rparr>
               in if epoll_option c = OPTION_UNKNOWN \<or> evs AND EPOLLRDHUP \<noteq> 0
                  then let (w, sv) = drop_connection os li i c sv w in (w, sv, Inl UsedAfterErase)
                  else mod_if_valid os c sv w))"

definition service_event ::
  "'w net_os \<Rightarrow> 'w listener \<Rightarrow> int \<Rightarrow> 32 word \<Rightarrow> 'w Service \<Rightarrow> 'w \<Rightarrow> 'w service_result" where
  "service_event os li fd evs sv w =
     (if fd = server_fd sv then new_connection os li sv w else client_event os li fd evs sv w)"

text \<open>The events of one call of \<^verbatim>\<open>epoll_wait\<close>; an exception leaves the loop.\<close>

fun service_events ::
  "'w net_os \<Rightarrow> 'w listener \<Rightarrow> (int \<times> 32 word) list \<Rightarrow> 'w Service \<Rightarrow> 'w \<Rightarrow> 'w service_result" where
  "service_events os li [] sv w = (w, sv, Inr ())"
| "service_events os li ((fd, evs) # es) sv w =
     (case service_event os li fd evs sv w of
        (w, sv, Inl e) \<Rightarrow> (w, sv, Inl e)
      | (w, sv, Inr _) \<Rightarrow> service_events os li es sv w)"

text \<open>\<^verbatim>\<open>event.data.fd\<close>: the service registers descriptors only.\<close>

fun data_fd :: "epoll_data \<Rightarrow> int" where
  "data_fd (Fd fd) = fd"
| "data_fd (Ptr p) = int p"

definition service_turn :: "'w net_os \<Rightarrow> 'w listener \<Rightarrow> 'w Service \<Rightarrow> 'w \<Rightarrow> 'w service_result" where
  "service_turn os li sv w =
     (case EPoll_wait (os_epoll_wait os) (s_epoll sv) w of
        (w, Inl e) \<Rightarrow> (w, sv, Inl (NetEPollError e))
      | (w, Inr evs) \<Rightarrow> service_events os li (map (\<lambda>e. (data_fd (ev_data e), ev_events e)) evs) sv w)"

text \<open>\<^verbatim>\<open>run\<close> is left by an exception only; \<^verbatim>\<open>None\<close>: it goes on for ever.\<close>

partial_function (option) service_loop ::
  "'w net_os \<Rightarrow> 'w listener \<Rightarrow> 'w Service \<Rightarrow> 'w \<Rightarrow> ('w \<times> 'w Service \<times> net_error) option" where
  "service_loop os li sv w =
     (case service_turn os li sv w of
        (w, sv, Inl e) \<Rightarrow> Some (w, sv, e)
      | (w, sv, Inr _) \<Rightarrow> service_loop os li sv w)"

definition getListener :: "'w Service \<Rightarrow> 'w listener option" where
  "getListener sv = s_listener sv"

definition setListener :: "'w listener option \<Rightarrow> 'w Service \<Rightarrow> 'w Service" where
  "setListener listener sv = sv\<lparr>s_listener := listener\<rparr>"

definition Service_run ::
  "'w net_os \<Rightarrow> 'w Service \<Rightarrow> 'w \<Rightarrow> ('w \<times> 'w Service \<times> net_error) option" where
  "Service_run os sv w =
     (case getListener sv of None \<Rightarrow> Some (w, sv, NoListener) | Some li \<Rightarrow> service_loop os li sv w)"

section \<open>The connections and their descriptors\<close>

definition fds :: "'w Service \<Rightarrow> int list" where
  "fds sv = map (\<lambda>c. d_fd (c_socket c)) (s_connections sv)"

text \<open>A listener that leaves the sockets alone.\<close>

definition keeps_socket :: "(BufferedConnection \<Rightarrow> 'w \<Rightarrow> 'w \<times> BufferedConnection) \<Rightarrow> bool" where
  "keeps_socket f \<longleftrightarrow> (\<forall>c w. c_socket (snd (f c w)) = c_socket c)"

definition net_listener_ok :: "'w listener \<Rightarrow> bool" where
  "net_listener_ok li \<longleftrightarrow> keeps_socket (onNewConnection li) \<and> keeps_socket (onClose li) \<and>
     keeps_socket (onWriteDone li) \<and> keeps_socket (onReadAvailable li) \<and> keeps_socket (onError li)"

lemma keeps_socketD: "keeps_socket f \<Longrightarrow> f c w = (w', c') \<Longrightarrow> c_socket c' = c_socket c"
  unfolding keeps_socket_def by (metis snd_conv)

lemma read_to_buffer_socket: "read_to_buffer rd c w = (w', c', r) \<Longrightarrow> c_socket c' = c_socket c"
  by (auto simp: read_to_buffer_def split: prod.splits sum.splits)

lemma write_from_buffer_socket: "write_from_buffer wr c w = (w', c', r) \<Longrightarrow> c_socket c' = c_socket c"
  by (auto simp: write_from_buffer_def split: prod.splits sum.splits)

lemma dispatch_socket:
  assumes "net_listener_ok li" "dispatch os li evs c w = (w', c', r)"
  shows "c_socket c' = c_socket c" "\<And>e. r = Inl e \<Longrightarrow> \<exists>m. e = NetTcpError m"
  using assms unfolding dispatch_def net_listener_ok_def
  by (auto simp: Let_def split: if_splits prod.splits sum.splits
      dest!: read_to_buffer_socket write_from_buffer_socket dest: keeps_socketD)

lemma fds_update:
  "i < length (s_connections sv) \<Longrightarrow> c_socket c = c_socket (s_connections sv ! i) \<Longrightarrow>
   fds (sv\<lparr>s_connections := (s_connections sv)[i := c]\<rparr>) = fds sv"
  by (simp add: fds_def map_update list_update_same_conv)

lemma mod_if_valid_facts:
  "mod_if_valid os c sv w = (w', sv', r) \<Longrightarrow> sv' = sv \<and> (\<forall>e. r = Inl e \<longrightarrow> (\<exists>m. e = NetEPollError m))"
  by (auto simp: mod_if_valid_def split: if_splits prod.splits sum.splits)

lemma find_fd:
  assumes "fd \<in> set (fds sv)"
  obtains i where "find_pos (\<lambda>c. d_fd (c_socket c) = fd) (s_connections sv) = Some i"
    "i < length (s_connections sv)" "fds sv ! i = fd"
proof (cases "find_pos (\<lambda>c. d_fd (c_socket c) = fd) (s_connections sv)")
  case None
  with assms show thesis by (auto simp: find_pos_None fds_def)
next
  case (Some i)
  then have "i < length (s_connections sv)" "fds sv ! i = fd" by (simp_all add: find_pos_Some_iff fds_def)
  with Some show thesis by (rule that)
qed

lemma erased_fds:
  assumes "i < length (s_connections sv)" "fds sv ! i = fd" "distinct (fds sv)"
  shows "fds (sv\<lparr>s_connections := take i (s_connections sv) @ drop (Suc i) (s_connections sv)\<rparr>) = remove1 fd (fds sv)"
proof -
  have "fds sv = take i (fds sv) @ fd # drop (Suc i) (fds sv)"
    using assms(1,2) id_take_nth_drop[of i "fds sv"] by (simp add: fds_def)
  moreover have "fd \<notin> set (take i (fds sv))"
    using assms(3) calculation by (metis distinct_append distinct.simps(2) not_distinct_conv_prefix)
  moreover have "fds (sv\<lparr>s_connections := take i (s_connections sv) @ drop (Suc i) (s_connections sv)\<rparr>) =
      take i (fds sv) @ drop (Suc i) (fds sv)" by (simp add: fds_def take_map drop_map)
  ultimately show ?thesis by (metis remove1_append remove1.simps(2))
qed

lemma drop_connection_outcome:
  assumes "net_listener_ok li" "drop_connection os li i c sv w = (w', sv')"
  shows "sv' = sv\<lparr>s_connections := take i (s_connections sv) @ drop (Suc i) (s_connections sv)\<rparr> \<and>
    w' = (if Descriptor_valid (c_socket c) then os_close os (d_fd (c_socket c)) else id) (fst (onClose li c w))"
proof -
  obtain w2 c2 where "onClose li c w = (w2, c2)" by (metis surj_pair)
  moreover from this have "c_socket c2 = c_socket c"
    using assms(1) by (auto simp: net_listener_ok_def dest: keeps_socketD)
  ultimately show ?thesis using assms(2)
    by (auto simp: drop_connection_def Buffered_close_def NonBlockConnection_close_def Descriptor_defs Let_def split: prod.splits)
qed

text \<open>What an event of the client at the place \<^verbatim>\<open>i\<close> comes to, given what its callback has left.\<close>

fun client_outcome ::
  "'w net_os \<Rightarrow> 'w listener \<Rightarrow> bool \<Rightarrow> nat \<Rightarrow> 'w Service \<Rightarrow> 'w \<times> BufferedConnection \<times> (net_error + unit) \<Rightarrow>
   'w service_result \<Rightarrow> bool" where
  "client_outcome os li hung_up i sv (w1, c, Inl e) (w', sv', r) \<longleftrightarrow>
     (\<exists>m. e = NetTcpError m) \<and> r = Inl e \<and> w' = w1 \<and>
     sv' = sv\<lparr>s_connections := (s_connections sv)[i := c]\<rparr>"
| "client_outcome os li hung_up i sv (w1, c, Inr u) (w', sv', r) \<longleftrightarrow>
     (if epoll_option c = OPTION_UNKNOWN \<or> hung_up
      then r = Inl UsedAfterErase \<and>
        w' = (if Descriptor_valid (c_socket c) then os_close os (d_fd (c_socket c)) else id) (fst (onClose li c w1)) \<and>
        sv' = sv\<lparr>s_connections := take i (s_connections sv) @ drop (Suc i) (s_connections sv)\<rparr>
      else sv' = sv\<lparr>s_connections := (s_connections sv)[i := c]\<rparr> \<and>
        (if Descriptor_valid (c_socket c)
         then \<exists>q. EPoll_mod_fd (os_epoll_ctl os) (s_epoll sv) (c_socket c) (epoll_option c) w1 = (w', q) \<and>
           r = map_sum NetEPollError id q
         else w' = w1 \<and> r = Inr ()))"

lemma client_outcome_fds:
  assumes "client_outcome os li hung_up i sv (w1, c, q) (w', sv', r)" "i < length (s_connections sv)"
    and "fds sv ! i = fd" "distinct (fds sv)" "c_socket c = c_socket (s_connections sv ! i)"
  shows "fds sv' = (if r = Inl UsedAfterErase then remove1 fd (fds sv) else fds sv)"
proof -
  have gone: "fds (sv\<lparr>s_connections := take i (s_connections sv) @ drop (Suc i) (s_connections sv)\<rparr>) = remove1 fd (fds sv)"
    using erased_fds[OF assms(2-4)] .
  moreover have "map_sum NetEPollError id x \<noteq> Inl UsedAfterErase" for x :: "epoll_error + unit" by (cases x) simp_all
  ultimately show ?thesis
    using assms(1) fds_update[OF assms(2,5)] by (cases q) (auto split: if_splits)
qed

lemma client_outcomes:
  assumes "net_listener_ok li" "distinct (fds sv)" "fd \<in> set (fds sv)" "fd \<noteq> server_fd sv"
    and "service_event os li fd evs sv w = (w', sv', r)"
  shows "\<exists>i w1 c q. i < length (s_connections sv) \<and> fds sv ! i = fd \<and>
    dispatch os li evs (s_connections sv ! i) w = (w1, c, q) \<and> c_socket c = c_socket (s_connections sv ! i) \<and>
    client_outcome os li (evs AND EPOLLRDHUP \<noteq> 0) i sv (w1, c, q) (w', sv', r)"
proof -
  obtain i where i: "find_pos (\<lambda>c. d_fd (c_socket c) = fd) (s_connections sv) = Some i"
      "i < length (s_connections sv)" "fds sv ! i = fd" using find_fd[OF assms(3)] .
  obtain w1 c q where d: "dispatch os li evs (s_connections sv ! i) w = (w1, c, q)"
    by (metis prod_cases3)
  note dk = dispatch_socket[OF assms(1) d]
  let ?sv = "sv\<lparr>s_connections := (s_connections sv)[i := c]\<rparr>"
  have "client_outcome os li (evs AND EPOLLRDHUP \<noteq> 0) i sv (w1, c, q) (w', sv', r)"
  proof (cases q)
    case (Inl e)
    then have "r = Inl e" "sv' = ?sv" "w' = w1"
      using assms(4,5) i(1) d by (simp_all add: service_event_def client_event_def)
    then show ?thesis using dk(2)[OF Inl] Inl by simp
  next
    case (Inr u)
    show ?thesis
    proof (cases "epoll_option c = OPTION_UNKNOWN \<or> evs AND EPOLLRDHUP \<noteq> 0")
      case True
      obtain w2 sv2 where dr: "drop_connection os li i c ?sv w1 = (w2, sv2)" by (metis surj_pair)
      then have "r = Inl UsedAfterErase" "sv' = sv2" "w' = w2"
        using assms(4,5) i(1) d Inr True by (auto simp: service_event_def client_event_def)
      then show ?thesis using drop_connection_outcome[OF assms(1) dr] Inr True by simp
    next
      case False
      then have "mod_if_valid os c ?sv w1 = (w', sv', r)"
        using assms(4,5) i(1) d Inr by (simp add: service_event_def client_event_def)
      then show ?thesis using Inr False by (auto simp: mod_if_valid_def split: if_splits prod.splits sum.splits)
    qed
  qed
  then show ?thesis using i(2,3) d dk(1) by blast
qed

section \<open>Properties\<close>

text \<open>
  C39: An event of a client either changes its connection in place or ends in undefined
  behaviour. For a connection of the list the search finds it, by its descriptor; \<^verbatim>\<open>dispatch\<close>
  leaves its socket alone. An exception from there is one of a socket call and leaves the loop with
  the connection as it was left, nothing closed or erased. Otherwise, when the callback has
  cleared the mask or the peer has hung up, \<^verbatim>\<open>onClose\<close> is called, the descriptor is closed, the
  connection, and no other, is erased, and the code then reads the erased object, always. In
  every other case the event ends with one \<^verbatim>\<open>epoll_ctl\<close> that arms the mask the callback has
  left, and its exception, if it throws, and with the other connections, the server and the
  listener as they were: the list has the same descriptors in the same order.
\<close>

theorem client_event_outcomes:
  assumes "net_listener_ok li" "distinct (fds sv)" "fd \<in> set (fds sv)" "fd \<noteq> server_fd sv"
    and "service_event os li fd evs sv w = (w', sv', r)"
  shows "\<exists>i w1 c q. i < length (s_connections sv) \<and> fds sv ! i = fd \<and>
    dispatch os li evs (s_connections sv ! i) w = (w1, c, q) \<and> c_socket c = c_socket (s_connections sv ! i) \<and>
    client_outcome os li (evs AND EPOLLRDHUP \<noteq> 0) i sv (w1, c, q) (w', sv', r) \<and>
    fds sv' = (if r = Inl UsedAfterErase then remove1 fd (fds sv) else fds sv)"
proof -
  obtain i w1 c q where i: "i < length (s_connections sv)" "fds sv ! i = fd"
      "dispatch os li evs (s_connections sv ! i) w = (w1, c, q)" "c_socket c = c_socket (s_connections sv ! i)"
      "client_outcome os li (evs AND EPOLLRDHUP \<noteq> 0) i sv (w1, c, q) (w', sv', r)"
    using client_outcomes[OF assms] by blast
  then show ?thesis using client_outcome_fds[OF i(5,1,2) assms(2) i(4)] by blast
qed

text \<open>A peer that hangs up, and a listener that does nothing.\<close>

definition quiet :: "unit listener" where
  "quiet = \<lparr>onNewConnection = (\<lambda>c w. (w, c)), onClose = (\<lambda>c w. (w, c)), onWriteDone = (\<lambda>c w. (w, c)),
     onReadAvailable = (\<lambda>c w. (w, c)), onError = (\<lambda>c w. (w, c))\<rparr>"

definition idle_os :: "unit net_os" where
  "idle_os = \<lparr>os_accept = (\<lambda>fd w. (w, Inl (TimeOutError (Strerror EAGAIN)))), os_recv = (\<lambda>fd n w. (w, Inr [])),
     os_send = (\<lambda>fd bs w. (w, Inr 0)),
     os_epoll_ctl = (\<lambda>epfd op fd ev w. (w, Inr ())),
     os_epoll_wait = (\<lambda>epfd n w. (w, Inl (Errno 4))), os_close = (\<lambda>fd w. w)\<rparr>"

definition one_connection :: "unit Service" where
  "one_connection = \<lparr>s_server = \<lparr>c_address = Address_default, c_socket = \<lparr>d_fd = 3\<rparr>\<rparr>,
     s_epoll = \<lparr>events_queue_size = MAX_EVENTS, epoll_fd = \<lparr>d_fd = 4\<rparr>\<rparr>, s_listener = Some quiet, s_connections =
     [\<lparr>c_address = Address_default, c_socket = \<lparr>d_fd = 5\<rparr>, b_read = [], b_write = [], epoll_option = OPTION_READ\<rparr>]\<rparr>"

theorem client_event_outcomes_witness:
  "\<exists>w' sv'. service_event idle_os quiet 5 EPOLLRDHUP one_connection () = (w', sv', Inl UsedAfterErase) \<and>
    fds sv' = []"
proof -
  obtain w' sv' r where run: "service_event idle_os quiet 5 EPOLLRDHUP one_connection () = (w', sv', r)"
    by (metis prod_cases3)
  have ok: "net_listener_ok quiet" by (simp add: net_listener_ok_def keeps_socket_def quiet_def)
  have fds: "distinct (fds one_connection)" "5 \<in> set (fds one_connection)" "5 \<noteq> server_fd one_connection"
    by (simp_all add: one_connection_def fds_def)
  obtain i w1 c q where "dispatch idle_os quiet EPOLLRDHUP (s_connections one_connection ! i) () = (w1, c, q)"
    "client_outcome idle_os quiet (EPOLLRDHUP AND EPOLLRDHUP \<noteq> 0) i one_connection (w1, c, q) (w', sv', r)"
    "fds sv' = (if r = Inl UsedAfterErase then remove1 5 (fds one_connection) else fds one_connection)"
    using client_event_outcomes[OF ok fds run] by blast
  then have "r = Inl UsedAfterErase \<and> fds sv' = []"
    by (auto simp: dispatch_def epoll_defs one_connection_def fds_def)
  then show ?thesis using run by blast
qed

end
