(* ===== verification/Services_Open.thy ===== *)
theory Services_Open
  imports Net_Service Cor_Service Http_Worker
begin

text \<open>
  Opening and closing the services: the constructors, \<^verbatim>\<open>open\<close>, \<^verbatim>\<open>close\<close> and the listeners of
  \<^verbatim>\<open>5.net/lib/service.cpp\<close>, \<^verbatim>\<open>6.http/lib/httpservice.cpp\<close> and \<^verbatim>\<open>7.cor/lib/corservice.cpp\<close>.

  An operation is given the results of the system calls on the way, in the order of the calls,
  and returns what it passed to \<^verbatim>\<open>::close\<close>, destructors included.
\<close>

section \<open>The calls\<close>

record open_calls =
  oc_aton :: bool
  oc_socket :: "errno + int"
  oc_reuse :: "errno + unit"
  oc_bind :: "errno + unit"
  oc_listen :: "errno + unit"
  oc_getfl :: "errno + 32 word"
  oc_setfl :: "errno + unit"
  oc_reuse_again :: "errno + unit"
  oc_rcvtimeo :: "errno + unit"

definition open_server :: "open_calls \<Rightarrow> Address \<Rightarrow> int list \<times> (tcp_error + Server)" where
  "open_server oc addr =
     Server_new (oc_aton oc) (oc_socket oc) (oc_reuse oc) (oc_bind oc) (oc_listen oc) addr"

text \<open>The destructor of a server.\<close>

definition server_deleted :: "Server \<Rightarrow> int list" where
  "server_deleted s = snd (Descriptor_close (c_socket s))"

section \<open>The service over epoll\<close>

definition prepare_server :: "open_calls \<Rightarrow> 32 word \<Rightarrow> Server \<Rightarrow> tcp_error + unit" where
  "prepare_server oc O_NONBLOCK s =
     bindE (snd (set_nonblock (\<lambda>fd w. (w, oc_getfl oc)) (\<lambda>fd flags w. (w, oc_setfl oc)) O_NONBLOCK (c_socket s) ()))
       (\<lambda>_. set_reuseaddr (oc_reuse_again oc))"

definition Service_new ::
  "open_calls \<Rightarrow> 32 word \<Rightarrow> errno + int \<Rightarrow> 'w net_os \<Rightarrow> Address \<Rightarrow> 'w listener option \<Rightarrow> 'w \<Rightarrow>
   'w \<times> int list \<times> (net_error + 'w Service)" where
  "Service_new oc O_NONBLOCK epoll_create os addr listener w =
     (case open_server oc addr of
        (cs, Inl e) \<Rightarrow> (w, cs, Inl (NetTcpError e))
      | (cs, Inr server) \<Rightarrow>
          (case EPoll_new epoll_create of
             Inl e \<Rightarrow> (w, cs @ server_deleted server, Inl (NetEPollError e))
           | Inr epoll \<Rightarrow>
               let deleted = snd (Descriptor_close (epoll_fd epoll)) @ server_deleted server
               in case prepare_server oc O_NONBLOCK server of
                    Inl e \<Rightarrow> (w, cs @ deleted, Inl (NetTcpError e))
                  | Inr _ \<Rightarrow>
                      (case EPoll_add_fd (os_epoll_ctl os) epoll (c_socket server) OPTION_READ w of
                         (w, Inl e) \<Rightarrow> (w, cs @ deleted, Inl (NetEPollError e))
                       | (w, Inr _) \<Rightarrow>
                           (w, cs, Inr \<lparr>s_server = server, s_epoll = epoll, s_listener = listener,
                              s_connections = []\<rparr>))))"

definition Service_open ::
  "open_calls \<Rightarrow> 32 word \<Rightarrow> 'w net_os \<Rightarrow> Address \<Rightarrow> 'w Service \<Rightarrow> 'w \<Rightarrow>
   'w \<times> 'w Service \<times> int list \<times> (net_error + unit)" where
  "Service_open oc O_NONBLOCK os addr sv w =
     (case open_server oc addr of
        (cs, Inl e) \<Rightarrow> (w, sv, cs, Inl (NetTcpError e))
      | (cs, Inr t_serv) \<Rightarrow>
          (case prepare_server oc O_NONBLOCK t_serv of
             Inl e \<Rightarrow> (w, sv, cs @ server_deleted t_serv, Inl (NetTcpError e))
           | Inr _ \<Rightarrow>
               (case EPoll_add_fd (os_epoll_ctl os) (s_epoll sv) (c_socket t_serv) OPTION_READ w of
                  (w, Inl e) \<Rightarrow> (w, sv, cs @ server_deleted t_serv, Inl (NetEPollError e))
                | (w, Inr _) \<Rightarrow>
                    let (server, t_serv, closed) = BaseConnection_assign (s_server sv) t_serv
                    in (w, sv\<lparr>s_server := server\<rparr>, cs @ closed @ server_deleted t_serv, Inr ()))))"

definition Service_close :: "'w Service \<Rightarrow> 'w Service \<times> int list" where
  "Service_close sv =
     (let (server, cs) = Server_close (s_server sv) in (sv\<lparr>s_server := server\<rparr>, cs))"

section \<open>The HTTP service\<close>

record 'l HttpServer =
  h_server :: Server
  h_epoll :: EPoll
  h_listener :: "'l option"
  h_workers :: nat
  h_state :: HttpService

definition http_prepare :: "open_calls \<Rightarrow> tcp_error + unit" where
  "http_prepare oc = bindE (set_reuseaddr (oc_reuse_again oc)) (\<lambda>_. set_rcvtimeo (oc_rcvtimeo oc))"

definition HttpServer_new ::
  "open_calls \<Rightarrow> errno + int \<Rightarrow> Address \<Rightarrow> 'l option \<Rightarrow> nat \<Rightarrow> nat \<Rightarrow> nat \<Rightarrow> nat \<Rightarrow>
   int list \<times> (net_error + 'l HttpServer)" where
  "HttpServer_new oc epoll_create addr listener hardware_concurrency workerSize connection_timeout_sec
       keep_alive_timeout_sec =
     (case open_server oc addr of
        (cs, Inl e) \<Rightarrow> (cs, Inl (NetTcpError e))
      | (cs, Inr server) \<Rightarrow>
          (case EPoll_new epoll_create of
             Inl e \<Rightarrow> (cs @ server_deleted server, Inl (NetEPollError e))
           | Inr epoll \<Rightarrow>
               (case http_prepare oc of
                  Inl e \<Rightarrow>
                    (cs @ snd (Descriptor_close (epoll_fd epoll)) @ server_deleted server, Inl (NetTcpError e))
                | Inr _ \<Rightarrow>
                    (cs, Inr \<lparr>h_server = server, h_epoll = epoll, h_listener = listener,
                       h_workers = workers_count hardware_concurrency workerSize,
                       h_state = HttpService_new connection_timeout_sec keep_alive_timeout_sec\<rparr>))))"

definition Http_setListener :: "'l option \<Rightarrow> 'l HttpServer \<Rightarrow> 'l HttpServer" where
  "Http_setListener listener hs = hs\<lparr>h_listener := listener\<rparr>"

definition Http_getListener :: "'l HttpServer \<Rightarrow> 'l option" where
  "Http_getListener hs = h_listener hs"

definition HttpServer_open ::
  "open_calls \<Rightarrow> Address \<Rightarrow> 'l HttpServer \<Rightarrow> 'l HttpServer \<times> int list \<times> (net_error + unit)" where
  "HttpServer_open oc addr hs =
     (case open_server oc addr of
        (cs, Inl e) \<Rightarrow> (hs, cs, Inl (NetTcpError e))
      | (cs, Inr t_serv) \<Rightarrow>
          (case http_prepare oc of
             Inl e \<Rightarrow> (hs, cs @ server_deleted t_serv, Inl (NetTcpError e))
           | Inr _ \<Rightarrow>
               let (server, t_serv, closed) = BaseConnection_assign (h_server hs) t_serv
               in (hs\<lparr>h_server := server\<rparr>, cs @ closed @ server_deleted t_serv, Inr ())))"

definition HttpServer_close :: "'l HttpServer \<Rightarrow> 'l HttpServer \<times> int list" where
  "HttpServer_close hs =
     (let (server, cs) = Server_close (h_server hs) in (hs\<lparr>h_server := server\<rparr>, cs))"

section \<open>The coroutine service\<close>

text \<open>The base service has no workers and at first no listener.\<close>

record 'l CorServer =
  cs_http :: "'l HttpServer"
  cs_workers :: nat

definition Cor_setListener :: "'l option \<Rightarrow> 'l CorServer \<Rightarrow> 'l CorServer" where
  "Cor_setListener listener cs = cs\<lparr>cs_http := Http_setListener listener (cs_http cs)\<rparr>"

definition CorServer_new ::
  "open_calls \<Rightarrow> errno + int \<Rightarrow> Address \<Rightarrow> 'l option \<Rightarrow> nat \<Rightarrow> nat \<Rightarrow> nat \<Rightarrow> nat \<Rightarrow>
   int list \<times> (net_error + 'l CorServer)" where
  "CorServer_new oc epoll_create addr listener hardware_concurrency workersSize connection_timeout_sec
       keep_alive_timeout_sec =
     (case HttpServer_new oc epoll_create addr None hardware_concurrency 0 connection_timeout_sec
             keep_alive_timeout_sec of
        (cs, Inl e) \<Rightarrow> (cs, Inl e)
      | (cs, Inr hs) \<Rightarrow>
          (cs, Inr (Cor_setListener listener
             \<lparr>cs_http = hs, cs_workers = workers_count hardware_concurrency workersSize\<rparr>)))"

section \<open>The descriptors on the way\<close>

text \<open>What \<^verbatim>\<open>socket\<close> has created for an opening, if it is reached.\<close>

definition created :: "open_calls \<Rightarrow> int \<Rightarrow> int multiset" where
  "created oc fd = (if oc_aton oc \<and> oc_socket oc = Inr fd then {#fd#} else {#})"

definition server_at :: "Address \<Rightarrow> int \<Rightarrow> Server" where
  "server_at addr fd = \<lparr>c_address = addr, c_socket = \<lparr>d_fd = fd\<rparr>\<rparr>"

lemma open_server_cases:
  assumes "0 \<le> fd" "\<And>x. oc_socket oc = Inr x \<Longrightarrow> x = fd"
  shows "(\<exists>cs e. open_server oc addr = (cs, Inl e) \<and> mset cs = created oc fd) \<or>
    open_server oc addr = ([], Inr (server_at addr fd)) \<and> created oc fd = {#fd#}"
proof -
  let ?b = "BaseConnection_new addr"
  have base: "snd (Descriptor_close (c_socket ?b)) = []" by (simp add: BaseConnection_new_def Descriptor_defs)
  note open_defs = open_server_def Server_new_def Server_listen_def
  consider "\<not> oc_aton oc" | e where "oc_aton oc" "oc_socket oc = Inl e" | "oc_aton oc" "oc_socket oc = Inr fd"
    using assms(2) by (cases "oc_socket oc") auto
  then show ?thesis
  proof cases
    case 1
    then show ?thesis by (simp add: open_defs created_def base)
  next
    case 2
    then show ?thesis by (simp add: open_defs created_def base) (simp add: Descriptor_defs)
  next
    case 3
    have close: "snd (Descriptor_close (Descriptor_new fd)) = [fd]" using assms(1) by (simp add: Descriptor_defs)
    have set: "set_socket ?b (Descriptor_new fd) = (server_at addr fd, Descriptor_new (-1), [])"
      by (simp add: set_socket_def BaseConnection_new_def server_at_def Descriptor_defs)
    have gone: "snd (Descriptor_close (Descriptor_new (-1))) = []" by (simp add: Descriptor_defs)
    show ?thesis using 3
      by (cases "oc_reuse oc"; cases "oc_bind oc"; cases "oc_listen oc")
        (simp_all add: open_defs created_def set_reuseaddr_def base close set gone)
  qed
qed

lemma server_at_simps:
  "server_deleted (server_at addr fd) = (if fd > -1 then [fd] else [])"
  "d_fd (c_socket (server_at addr fd)) = fd"
  by (simp_all add: server_deleted_def server_at_def Descriptor_defs)

lemma assign_server:
  assumes "BaseConnection_assign this (server_at addr fd) = (server, t_serv, cs)"
  shows "server = server_at addr fd" "mset (cs @ server_deleted t_serv) = owned (d_fd (c_socket this))"
  using assms by (auto simp: BaseConnection_assign_def Address_assign_def server_at_def Descriptor_defs server_deleted_def
      owned_def split: if_splits)

text \<open>What an opening has done, from the result it returns: \<^verbatim>\<open>same\<close> and \<^verbatim>\<open>opened\<close> describe the state.\<close>

definition open_outcome ::
  "open_calls \<Rightarrow> int \<Rightarrow> int \<Rightarrow> bool \<Rightarrow> bool \<Rightarrow> int list \<Rightarrow> net_error + unit \<Rightarrow> bool" where
  "open_outcome oc fd old same opened cs r \<longleftrightarrow>
     (case r of
        Inl e \<Rightarrow> same \<and> mset cs = created oc fd
      | Inr _ \<Rightarrow> opened \<and> mset cs = owned old)"

lemma http_open_outcome:
  assumes "0 \<le> fd" "\<And>x. oc_socket oc = Inr x \<Longrightarrow> x = fd" "HttpServer_open oc addr hs = (hs', cs, r)"
  shows "open_outcome oc fd (d_fd (c_socket (h_server hs))) (hs' = hs)
    (hs' = hs\<lparr>h_server := server_at addr fd\<rparr>) cs r"
proof (cases "open_server oc addr = ([], Inr (server_at addr fd))")
  case False
  then obtain cs1 e where "open_server oc addr = (cs1, Inl e)" "mset cs1 = created oc fd"
    using open_server_cases[of fd oc addr, OF assms(1) assms(2)] by auto
  then show ?thesis using assms(3) by (auto simp: HttpServer_open_def open_outcome_def)
next
  case True
  then have made: "created oc fd = {#fd#}"
    using open_server_cases[of fd oc addr, OF assms(1) assms(2)] by auto
  obtain server t_serv closed where a: "BaseConnection_assign (h_server hs) (server_at addr fd) = (server, t_serv, closed)"
    by (metis prod_cases3)
  show ?thesis
    using assms(1,3) True a made assign_server[OF a]
    by (auto simp: HttpServer_open_def open_outcome_def server_at_simps split: sum.splits)
qed

lemma service_open_outcome:
  assumes "0 \<le> fd" "\<And>x. oc_socket oc = Inr x \<Longrightarrow> x = fd"
    and "watches (os_epoll_ctl os) (d_fd (epoll_fd (s_epoll sv))) watched"
    and "Service_open oc nb os addr sv w = (w', sv', cs, r)"
  shows "open_outcome oc fd (server_fd sv) (sv' = sv \<and> watched w' = watched w)
    (sv' = sv\<lparr>s_server := server_at addr fd\<rparr> \<and>
     watched w' = (watched w)(fd \<mapsto> \<lparr>ev_events = ucast OPTION_READ, ev_data = Fd fd\<rparr>)) cs r"
proof (cases "open_server oc addr = ([], Inr (server_at addr fd))")
  case False
  then obtain cs1 e where "open_server oc addr = (cs1, Inl e)" "mset cs1 = created oc fd"
    using open_server_cases[of fd oc addr, OF assms(1) assms(2)] by auto
  then show ?thesis using assms(4) by (auto simp: Service_open_def open_outcome_def)
next
  case True
  then have made: "created oc fd = {#fd#}"
    using open_server_cases[of fd oc addr, OF assms(1) assms(2)] by auto
  obtain server t_serv closed where a: "BaseConnection_assign (s_server sv) (server_at addr fd) = (server, t_serv, closed)"
    by (metis prod_cases3)
  obtain w1 r1 where add: "EPoll_add_fd (os_epoll_ctl os) (s_epoll sv) (c_socket (server_at addr fd)) OPTION_READ w = (w1, r1)"
    by (metis surj_pair)
  have law: "(\<exists>e. r1 = Inl e \<and> watched w1 = watched w) \<or> r1 = Inr () \<and>
      watched w1 = (watched w)(fd \<mapsto> \<lparr>ev_events = ucast OPTION_READ, ev_data = Fd fd\<rparr>)"
    using try_epoll_ctl_watched[OF assms(3) add[unfolded EPoll_add_fd_def server_at_simps]]
    by (simp only: epoll_op.distinct if_False) blast
  show ?thesis
    using assms(1,4) True a add law made assign_server[OF a]
    by (auto simp: Service_open_def open_outcome_def server_at_simps split: sum.splits)
qed

section \<open>Properties\<close>

text \<open>
  C10: Opening a service is all or nothing. Whatever the system calls return, \<^verbatim>\<open>open\<close> of the
  service over \<^verbatim>\<open>epoll\<close> and of the HTTP service either throws, leaves the service as it was and
  has closed exactly the descriptor it had created, or returns with the new socket in the
  server, has closed exactly the socket the server had before, and, over \<^verbatim>\<open>epoll\<close>, has it
  watched for reading.
\<close>

theorem services_open_whole:
  assumes "0 \<le> fd" "\<And>x. oc_socket oc = Inr x \<Longrightarrow> x = fd"
    and "watches (os_epoll_ctl os) (d_fd (epoll_fd (s_epoll sv))) watched"
    and "Service_open oc nb os addr sv w = (w', sv', cs, r)" "HttpServer_open oc addr hs = (hs', ds, q)"
  shows "(case r of
      Inl e \<Rightarrow> sv' = sv \<and> watched w' = watched w \<and> mset cs = created oc fd
    | Inr _ \<Rightarrow> sv' = sv\<lparr>s_server := server_at addr fd\<rparr> \<and> mset cs = owned (server_fd sv) \<and>
        watched w' = (watched w)(fd \<mapsto> \<lparr>ev_events = ucast OPTION_READ, ev_data = Fd fd\<rparr>)) \<and>
    (case q of
      Inl e \<Rightarrow> hs' = hs \<and> mset ds = created oc fd
    | Inr _ \<Rightarrow> hs' = hs\<lparr>h_server := server_at addr fd\<rparr> \<and> mset ds = owned (d_fd (c_socket (h_server hs))))"
  using service_open_outcome[OF assms(1-4)] http_open_outcome[OF assms(1,2,5)]
  by (simp add: open_outcome_def split: sum.splits)

text \<open>A service that listens on descriptor 3 is opened again; the kernel hands out descriptor 6.\<close>

definition all_succeed :: open_calls where
  "all_succeed = \<lparr>oc_aton = True, oc_socket = Inr 6, oc_reuse = Inr (), oc_bind = Inr (), oc_listen = Inr (),
     oc_getfl = Inr 2, oc_setfl = Inr (), oc_reuse_again = Inr (), oc_rcvtimeo = Inr ()\<rparr>"

definition kernel_os :: "(int \<rightharpoonup> epoll_event) net_os" where
  "kernel_os = \<lparr>os_accept = (\<lambda>fd w. (w, Inl (TimeOutError (Strerror EAGAIN)))), os_recv = (\<lambda>fd n w. (w, Inr [])),
     os_send = (\<lambda>fd bs w. (w, Inr 0)), os_epoll_ctl = kernel_ctl, os_epoll_wait = (\<lambda>epfd n w. (w, Inr [])),
     os_close = (\<lambda>fd w. w)\<rparr>"

definition listening :: "(int \<rightharpoonup> epoll_event) Service" where
  "listening = \<lparr>s_server = server_at Address_default 3, s_epoll = \<lparr>events_queue_size = MAX_EVENTS, epoll_fd = \<lparr>d_fd = 4\<rparr>\<rparr>,
     s_listener = None, s_connections = []\<rparr>"

definition http_listening :: "unit HttpServer" where
  "http_listening = \<lparr>h_server = server_at Address_default 5, h_epoll = \<lparr>events_queue_size = MAX_EVENTS, epoll_fd = \<lparr>d_fd = 7\<rparr>\<rparr>,
     h_listener = None, h_workers = 2, h_state = HttpService_new 20 60\<rparr>"

theorem services_open_whole_witness:
  "\<exists>w' sv' cs r. Service_open all_succeed 0x800 kernel_os (Address_new ''127.0.0.1'' 8080) listening Map.empty =
     (w', sv', cs, Inr ()) \<and> mset cs = {#3#} \<and> w' 6 \<noteq> None"
proof -
  obtain w' sv' cs r where s: "Service_open all_succeed 0x800 kernel_os (Address_new ''127.0.0.1'' 8080) listening
      Map.empty = (w', sv', cs, r)" by (metis prod_cases4)
  obtain hs' ds q where h: "HttpServer_open all_succeed (Address_new ''127.0.0.1'' 8080) http_listening = (hs', ds, q)"
    by (metis prod_cases3)
  have law: "watches (os_epoll_ctl kernel_os) (d_fd (epoll_fd (s_epoll listening))) (\<lambda>w. w)"
    using kernel_ctl_watches by (simp add: kernel_os_def)
  have six: "oc_socket all_succeed = Inr x \<Longrightarrow> x = 6" for x by (simp add: all_succeed_def)
  have r: "r = Inr ()"
    using arg_cong[OF s, of "\<lambda>x. snd (snd (snd x))"]
    by (simp add: Service_open_def open_server_def Server_new_def Server_listen_def prepare_server_def
        set_nonblock_def set_reuseaddr_def all_succeed_def bindE_def EPoll_add_fd_def try_epoll_ctl_def
        kernel_os_def kernel_ctl_def epoll_handle_error_def set_socket_def BaseConnection_assign_def Address_assign_def
        Descriptor_defs BaseConnection_new_def listening_def server_at_def Let_def)
  have "mset cs = owned 3 \<and> w' = [6 \<mapsto> \<lparr>ev_events = ucast OPTION_READ, ev_data = Fd 6\<rparr>]"
    using services_open_whole[of 6 all_succeed, OF _ six law s h] r
    by (simp add: listening_def server_at_simps)
  then show ?thesis using s r by (simp add: owned_def)
qed

end
