(* ===== verification/Http_Run.thy ===== *)
theory Http_Run
  imports Services_Open
begin

text \<open>
  The whole of \<^verbatim>\<open>HttpWorker::work\<close> and of \<^verbatim>\<open>HttpService::run\<close>: the loop over \<^verbatim>\<open>epoll_wait\<close> in
  a thread, and the threads that \<^verbatim>\<open>run\<close> starts and joins.
\<close>

section \<open>The thread of a worker\<close>

text \<open>
  \<^verbatim>\<open>stamp\<close> gives the places of the events and the time each of them is handled, \<^verbatim>\<open>others\<close> what the
  other threads have done to the service during the wait. \<^verbatim>\<open>None\<close>: the function does not end.
\<close>

partial_function (option) HttpWorker_work ::
  "'w worker_env \<Rightarrow> 'w epoll_wait \<Rightarrow> ('w \<Rightarrow> epoll_event list \<Rightarrow> (nat \<times> 32 word \<times> nat) list) \<Rightarrow>
   ('w \<Rightarrow> HttpService \<Rightarrow> HttpService) \<Rightarrow> HttpService \<Rightarrow> 'w \<Rightarrow> ('w \<times> HttpService \<times> (worker_error + unit)) option"
where
  "HttpWorker_work env wait stamp others sv w =
     (case EPoll_wait wait (env_epoll env) w of
        (w, Inl (EPollException errno)) \<Rightarrow> Some (w, others w sv, Inl (EPollError errno))
      | (w, Inr evs) \<Rightarrow>
          (case worker_events env (stamp w evs) (others w sv) w of
             None \<Rightarrow> None
           | Some (w, sv, Inl e) \<Rightarrow> Some (w, sv, Inl e)
           | Some (w, sv, Inr _) \<Rightarrow> HttpWorker_work env wait stamp others sv w))"

datatype thread_fate = Ends | RunsForever | Dies worker_error

definition worker_fate ::
  "'w worker_env \<Rightarrow> 'w epoll_wait \<Rightarrow> ('w \<Rightarrow> epoll_event list \<Rightarrow> (nat \<times> 32 word \<times> nat) list) \<Rightarrow>
   ('w \<Rightarrow> HttpService \<Rightarrow> HttpService) \<Rightarrow> HttpService \<Rightarrow> 'w \<Rightarrow> thread_fate" where
  "worker_fate env wait stamp others sv w =
     (case HttpWorker_work env wait stamp others sv w of
        None \<Rightarrow> RunsForever
      | Some (w, sv, Inl e) \<Rightarrow> Dies e
      | Some (w, sv, Inr _) \<Rightarrow> Ends)"

definition worker_fates ::
  "(nat \<Rightarrow> 'w worker_env) \<Rightarrow> (nat \<Rightarrow> 'w epoll_wait) \<Rightarrow>
   (nat \<Rightarrow> 'w \<Rightarrow> epoll_event list \<Rightarrow> (nat \<times> 32 word \<times> nat) list) \<Rightarrow> (nat \<Rightarrow> 'w \<Rightarrow> HttpService \<Rightarrow> HttpService) \<Rightarrow>
   (nat \<Rightarrow> HttpService) \<Rightarrow> (nat \<Rightarrow> 'w) \<Rightarrow> nat \<Rightarrow> thread_fate" where
  "worker_fates env wait stamp others sv w i =
     worker_fate (env i) (wait i) (stamp i) (others i) (sv i) (w i)"

section \<open>The service's run\<close>

datatype run_end = Returned | Threw run_error | BlockedInJoin | Terminated worker_error | UndefinedBehaviour

fun first_death :: "thread_fate list \<Rightarrow> worker_error option" where
  "first_death [] = None"
| "first_death (Dies e # fates) = Some e"
| "first_death (_ # fates) = first_death fates"

text \<open>An exception that leaves a thread terminates the program, whichever thread is joined.\<close>

definition join_all :: "thread_fate list \<Rightarrow> run_end" where
  "join_all fates =
     (case first_death fates of
        Some e \<Rightarrow> Terminated e
      | None \<Rightarrow> if RunsForever \<in> set fates then BlockedInJoin else Returned)"

definition HttpServer_run ::
  "((tcp_error + NonBlockConnection) \<times> bool \<times> nat) list \<Rightarrow> (nat \<Rightarrow> thread_fate) \<Rightarrow> 'l HttpServer \<Rightarrow> run_end" where
  "HttpServer_run turns fate hs =
     (case HttpService_run (Http_getListener hs \<noteq> None) (h_workers hs) turns (h_state hs) of
        None \<Rightarrow> UndefinedBehaviour
      | Some (sv, Inl e) \<Rightarrow> Threw e
      | Some (sv, Inr _) \<Rightarrow> join_all (map fate [0..<h_workers hs]))"

section \<open>A worker ends by an exception or not at all\<close>

lemma work_ends_by_exception:
  assumes "HttpWorker_work env wait stamp others sv w = Some (w', sv', r)"
  shows "\<exists>e. r = Inl e"
proof -
  have "\<exists>e. snd (snd y) = Inl e" if "HttpWorker_work env wait stamp others sv w = Some y" for y
    by (rule HttpWorker_work.raw_induct[where P = "\<lambda>env wait stamp others sv w y. \<exists>e. snd (snd y) = Inl e", OF _ that])
      (fastforce split: prod.splits sum.splits option.splits epoll_error.splits)
  from this[OF assms] show ?thesis by simp
qed

lemma worker_fate_not_ends: "worker_fate env wait stamp others sv w \<noteq> Ends"
  using work_ends_by_exception[of env wait stamp others sv w]
  by (auto simp: worker_fate_def split: option.splits sum.splits)

text \<open>
  An invariant of the world and the service under which a worker goes on: the next wait does not
  fail, its events are handled without an exception, and the invariant holds again.
\<close>

definition goes_on ::
  "'w worker_env \<Rightarrow> 'w epoll_wait \<Rightarrow> ('w \<Rightarrow> epoll_event list \<Rightarrow> (nat \<times> 32 word \<times> nat) list) \<Rightarrow>
   ('w \<Rightarrow> HttpService \<Rightarrow> HttpService) \<Rightarrow> ('w \<Rightarrow> HttpService \<Rightarrow> bool) \<Rightarrow> bool" where
  "goes_on env wait stamp others keeps \<longleftrightarrow> (\<forall>w sv. keeps w sv \<longrightarrow>
     (\<exists>w1 evs w2 sv2 b. EPoll_wait wait (env_epoll env) w = (w1, Inr evs) \<and>
        worker_events env (stamp w1 evs) (others w1 sv) w1 = Some (w2, sv2, Inr b) \<and> keeps w2 sv2))"

lemma work_forever:
  assumes "goes_on env wait stamp others keeps" "keeps w sv"
  shows "HttpWorker_work env wait stamp others sv w = None"
proof (rule ccontr)
  assume "HttpWorker_work env wait stamp others sv w \<noteq> None"
  then obtain y where y: "HttpWorker_work env wait stamp others sv w = Some y" by blast
  have "goes_on env wait stamp others keeps \<longrightarrow> keeps w sv \<longrightarrow> False"
  proof (rule HttpWorker_work.raw_induct[where
      P = "\<lambda>env wait stamp others sv w y. goes_on env wait stamp others keeps \<longrightarrow> keeps w sv \<longrightarrow> False", OF _ y],
      intro impI)
    fix work :: "'a worker_env \<Rightarrow> 'a epoll_wait \<Rightarrow> ('a \<Rightarrow> epoll_event list \<Rightarrow> (nat \<times> 32 word \<times> nat) list) \<Rightarrow>
      ('a \<Rightarrow> HttpService \<Rightarrow> HttpService) \<Rightarrow> HttpService \<Rightarrow> 'a \<Rightarrow> ('a \<times> HttpService \<times> (worker_error + unit)) option"
    fix env :: "'a worker_env" and wait stamp others sv w y
    assume ih: "\<And>env wait stamp others sv w y. work env wait stamp others sv w = Some y \<Longrightarrow>
        goes_on env wait stamp others keeps \<longrightarrow> keeps w sv \<longrightarrow> False"
      and on: "goes_on env wait stamp others keeps" "keeps w sv"
      and body: "(case EPoll_wait wait (env_epoll env) w of
        (w, Inl (EPollException errno)) \<Rightarrow> Some (w, others w sv, Inl (EPollError errno))
      | (w, Inr evs) \<Rightarrow>
          (case worker_events env (stamp w evs) (others w sv) w of
             None \<Rightarrow> None
           | Some (w, sv, Inl e) \<Rightarrow> Some (w, sv, Inl e)
           | Some (w, sv, Inr _) \<Rightarrow> work env wait stamp others sv w)) = Some y"
    obtain w1 evs w2 sv2 b where "EPoll_wait wait (env_epoll env) w = (w1, Inr evs)"
        "worker_events env (stamp w1 evs) (others w1 sv) w1 = Some (w2, sv2, Inr b)" "keeps w2 sv2"
      using on unfolding goes_on_def by blast
    then have "work env wait stamp others sv2 w2 = Some y" "keeps w2 sv2" using body by simp_all
    then show False using ih on(1) by blast
  qed
  with assms show False by blast
qed

lemma first_death_None: "first_death fates = None \<longleftrightarrow> (\<forall>e. Dies e \<notin> set fates)"
  by (induction fates rule: first_death.induct) auto

lemma join_all_simps:
  "join_all fates = Returned \<longleftrightarrow> set fates \<subseteq> {Ends}"
  "set fates = {RunsForever} \<Longrightarrow> join_all fates = BlockedInJoin"
  using first_death_None[of fates] by (auto simp: join_all_def split: option.splits) (metis thread_fate.exhaust)

section \<open>How a run ends\<close>

text \<open>
  A service that has been closed does not come back from \<^verbatim>\<open>run\<close>: behind the loop it joins threads
  that end by an uncaught exception, which terminates the program, or not at all.
\<close>

lemma join_all_workers:
  assumes "0 < n"
  shows "join_all (map (worker_fates env wait stamp others sv w) [0..<n]) =
    (case first_death (map (worker_fates env wait stamp others sv w) [0..<n]) of
       Some e \<Rightarrow> Terminated e | None \<Rightarrow> BlockedInJoin)"
proof (cases "first_death (map (worker_fates env wait stamp others sv w) [0..<n])")
  case None
  have "worker_fates env wait stamp others sv w 0 \<in> set (map (worker_fates env wait stamp others sv w) [0..<n])"
    using assms by simp
  moreover from this have "\<forall>e. worker_fates env wait stamp others sv w 0 \<noteq> Dies e"
    using None unfolding first_death_None by metis
  then have "worker_fates env wait stamp others sv w 0 = RunsForever"
    using worker_fate_not_ends unfolding worker_fates_def by (metis thread_fate.exhaust)
  ultimately show ?thesis using None by (simp add: join_all_def)
qed (simp add: join_all_def)

lemma run_ends_as:
  "HttpServer_run turns (worker_fates env wait stamp others sv w) hs =
    (if Http_getListener hs = None then Threw ListenerError
     else if h_workers hs = 0 then Threw WorkerError
     else case HttpService_turns turns (h_state hs) of
       None \<Rightarrow> UndefinedBehaviour
     | Some (_, Inl e) \<Rightarrow> Threw e
     | Some (_, Inr _) \<Rightarrow>
         (case first_death (map (worker_fates env wait stamp others sv w) [0..<h_workers hs]) of
            Some e \<Rightarrow> Terminated e | None \<Rightarrow> BlockedInJoin))"
  using join_all_workers[of "h_workers hs" env wait stamp others sv w]
  by (auto simp: HttpServer_run_def HttpService_run_def activate_workers_def split: option.split sum.split)

lemma goes_on_forever:
  "goes_on (env i) (wait i) (stamp i) (others i) keeps \<Longrightarrow> keeps (w i) (sv i) \<Longrightarrow>
   worker_fates env wait stamp others sv w i = RunsForever"
  by (simp add: worker_fates_def worker_fate_def work_forever)

end
