(* ===== verification/Worker_Threads.thy ===== *)
theory Worker_Threads
  imports Http_Run Http_Worker_Props
begin

text \<open>
  The worker objects of \<^verbatim>\<open>6.http/lib/httpworker.cpp\<close> with their threads, and how the runs of
  \<^verbatim>\<open>HttpService\<close> and \<^verbatim>\<open>CoroutineService\<close> start and join them. A \<^verbatim>\<open>std::thread\<close> that owns a
  thread of execution must be joined: assigning to it or destroying it before calls
  \<^verbatim>\<open>std::terminate\<close>.
\<close>

section \<open>The objects\<close>

text \<open>The thread is the number of the worker whose \<^verbatim>\<open>work\<close> it executes.\<close>

record HttpWorker =
  p_service :: bool
  thread_num :: nat
  thread :: "nat option"

definition HttpWorker_new :: HttpWorker where
  "HttpWorker_new = \<lparr>p_service = False, thread_num = 0, thread = None\<rparr>"

definition set_service_pointer :: "HttpWorker \<Rightarrow> HttpWorker" where
  "set_service_pointer wk = wk\<lparr>p_service := True\<rparr>"

definition set_thread_num :: "nat \<Rightarrow> HttpWorker \<Rightarrow> HttpWorker" where
  "set_thread_num n wk = wk\<lparr>thread_num := n\<rparr>"

text \<open>\<^verbatim>\<open>None\<close>: \<^verbatim>\<open>std::terminate\<close>, as the thread assigned to is joinable.\<close>

definition set_thread :: "nat \<Rightarrow> HttpWorker \<Rightarrow> HttpWorker option" where
  "set_thread t wk = (if thread wk = None then Some (wk\<lparr>thread := Some t\<rparr>) else None)"

definition HttpWorker_info :: "HttpWorker \<Rightarrow> string" where
  "HttpWorker_info wk = ''Worker '' @ to_string_nat (thread_num wk)"

text \<open>
  \<^verbatim>\<open>join\<close>, for what becomes of the threads: it throws \<^verbatim>\<open>std::system_error\<close> when there is no
  thread, and does not return when the thread does not end.
\<close>

datatype join_end = Joined HttpWorker | NotJoinable | Waits

definition HttpWorker_join :: "(nat \<Rightarrow> thread_fate) \<Rightarrow> HttpWorker \<Rightarrow> join_end" where
  "HttpWorker_join fate wk =
     (case thread wk of
        None \<Rightarrow> NotJoinable
      | Some t \<Rightarrow> if fate t = Ends then Joined (wk\<lparr>thread := None\<rparr>) else Waits)"

text \<open>The destructor: whether it returns.\<close>

definition HttpWorker_delete :: "HttpWorker \<Rightarrow> bool" where
  "HttpWorker_delete wk \<longleftrightarrow> thread wk = None"

definition workers_deleted :: "HttpWorker list \<Rightarrow> bool" where
  "workers_deleted wks \<longleftrightarrow> list_all HttpWorker_delete wks"

section \<open>The runs\<close>

fun start_workers :: "nat \<Rightarrow> HttpWorker list \<Rightarrow> HttpWorker list option" where
  "start_workers i [] = Some []"
| "start_workers i (wk # wks) =
     (case set_thread i (set_thread_num i (set_service_pointer wk)) of
        None \<Rightarrow> None
      | Some wk \<Rightarrow> map_option ((#) wk) (start_workers (Suc i) wks))"

text \<open>How a run of the service ends.\<close>

datatype service_end =
    Comes run_end
  | ThreadOverwritten
  | JoinThrew

text \<open>
  The loop of the joins; an exception in any thread terminates the program, whichever thread
  is joined at the moment.
\<close>

fun join_loop :: "(nat \<Rightarrow> thread_fate) \<Rightarrow> HttpWorker list \<Rightarrow> HttpWorker list \<times> service_end" where
  "join_loop fate [] = ([], Comes Returned)"
| "join_loop fate (wk # wks) =
     (case HttpWorker_join fate wk of
        NotJoinable \<Rightarrow> (wk # wks, JoinThrew)
      | Waits \<Rightarrow> (wk # wks, Comes BlockedInJoin)
      | Joined wk \<Rightarrow> (let (wks, r) = join_loop fate wks in (wk # wks, r)))"

definition join_workers ::
  "(nat \<Rightarrow> thread_fate) \<Rightarrow> HttpWorker list \<Rightarrow> HttpWorker list \<times> service_end" where
  "join_workers fate wks =
     (case first_death (map fate (List.map_filter thread wks)) of
        Some e \<Rightarrow> (wks, Comes (Terminated e))
      | None \<Rightarrow> join_loop fate wks)"

definition HttpService_run_workers ::
  "((tcp_error + NonBlockConnection) \<times> bool \<times> nat) list \<Rightarrow> (nat \<Rightarrow> thread_fate) \<Rightarrow> 'l HttpServer \<Rightarrow>
   HttpWorker list \<Rightarrow> HttpWorker list \<times> service_end" where
  "HttpService_run_workers turns fate hs wks =
     (if Http_getListener hs = None then (wks, Comes (Threw ListenerError))
      else if wks = [] then (wks, Comes (Threw WorkerError))
      else case start_workers 0 wks of
             None \<Rightarrow> (wks, ThreadOverwritten)
           | Some wks \<Rightarrow>
               (case HttpService_turns turns (h_state hs) of
                  None \<Rightarrow> (wks, Comes UndefinedBehaviour)
                | Some (sv, Inl e) \<Rightarrow> (wks, Comes (Threw e))
                | Some (sv, Inr _) \<Rightarrow> join_workers fate wks))"

text \<open>The other service does not look at the number of its workers.\<close>

definition CorService_run_workers ::
  "((tcp_error + NonBlockConnection) \<times> bool \<times> nat) list \<Rightarrow> (nat \<Rightarrow> thread_fate) \<Rightarrow> bool \<Rightarrow> CorService \<Rightarrow>
   HttpWorker list \<Rightarrow> HttpWorker list \<times> service_end" where
  "CorService_run_workers turns fate listener_set cs wks =
     (if \<not> listener_set then (wks, Comes (Threw ListenerError))
      else case start_workers 0 wks of
             None \<Rightarrow> (wks, ThreadOverwritten)
           | Some wks \<Rightarrow>
               (case CorService_turns turns cs of
                  None \<Rightarrow> (wks, Comes UndefinedBehaviour)
                | Some (cs, Inl e) \<Rightarrow> (wks, Comes (Threw e))
                | Some (cs, Inr _) \<Rightarrow> join_workers fate wks))"

section \<open>Starting and joining\<close>

lemma start_workers_fresh:
  assumes "workers_deleted wks"
  shows "start_workers i wks =
    Some (map (\<lambda>j. \<lparr>p_service = True, thread_num = j, thread = Some j\<rparr>) [i..<i + length wks])"
  using assms
proof (induction wks arbitrary: i)
  case (Cons wk wks)
  have "[i..<i + length (wk # wks)] = i # [Suc i..<Suc i + length wks]" using upt_rec[of i "i + length (wk # wks)"] by simp
  then show ?case
    using Cons by (simp add: workers_deleted_def HttpWorker_delete_def set_thread_def
        set_thread_num_def set_service_pointer_def)
qed simp

lemma start_workers_running: "\<not> workers_deleted wks \<Longrightarrow> start_workers i wks = None"
  by (induction wks arbitrary: i)
    (auto simp: workers_deleted_def HttpWorker_delete_def set_thread_def set_thread_num_def set_service_pointer_def)

definition started :: "nat \<Rightarrow> HttpWorker list" where
  "started n = map (\<lambda>j. \<lparr>p_service = True, thread_num = j, thread = Some j\<rparr>) [0..<n]"

lemma started_deleted: "workers_deleted (started n) \<longleftrightarrow> n = 0"
  by (auto simp: started_def workers_deleted_def HttpWorker_delete_def list_all_iff)

lemma started_threads: "List.map_filter thread (started n) = [0..<n]"
  by (simp add: started_def List.map_filter_def comp_def)

lemma join_loop_end:
  assumes "\<forall>wk\<in>set wks. thread wk \<noteq> None"
  shows "snd (join_loop fate wks) =
    Comes (if \<forall>wk\<in>set wks. fate (the (thread wk)) = Ends then Returned else BlockedInJoin)"
  using assms
  by (induction wks) (auto simp: HttpWorker_join_def split: prod.split if_splits)

text \<open>The result of the joins is that of \<^verbatim>\<open>join_all\<close>.\<close>

lemma join_workers_end: "snd (join_workers fate (started n)) = Comes (join_all (map fate [0..<n]))"
proof (cases "first_death (map fate [0..<n])")
  case None
  then have alive: "fate i = Ends \<or> fate i = RunsForever" if "i < n" for i
    using that unfolding first_death_None by (cases "fate i") force+
  have "snd (join_loop fate (started n)) =
      Comes (if \<forall>i<n. fate i = Ends then Returned else BlockedInJoin)"
    by (subst join_loop_end) (auto simp: started_def)
  moreover have "RunsForever \<in> set (map fate [0..<n]) \<longleftrightarrow> \<not> (\<forall>i<n. fate i = Ends)"
    using alive by force
  ultimately show ?thesis by (simp add: join_workers_def started_threads None join_all_def)
next
  case (Some e)
  then show ?thesis by (simp add: join_workers_def started_threads join_all_def)
qed

lemma run_workers_end:
  assumes "workers_deleted wks" "length wks = h_workers hs"
  shows "snd (HttpService_run_workers turns fate hs wks) = Comes (HttpServer_run turns fate hs)"
  using assms join_workers_end[of fate "length wks"] start_workers_fresh[of wks 0]
  by (auto simp: HttpService_run_workers_def HttpServer_run_def HttpService_run_def activate_workers_def
      started_def split: option.split sum.split)

lemma turns_throw_tcp: "HttpService_turns turns sv = Some (sv', Inl e) \<Longrightarrow> \<exists>x. e = TcpError x"
  by (induction turns sv rule: HttpService_turns.induct) (auto split: option.splits sum.splits)

text \<open>A run that throws behind the start of the threads.\<close>

lemma run_workers_throws:
  assumes "workers_deleted wks" "HttpService_run_workers turns fate hs wks = (wks', Comes (Threw e))"
  shows "wks' = (case e of TcpError _ \<Rightarrow> started (length wks) | _ \<Rightarrow> wks) \<and>
    (\<forall>x. e = TcpError x \<longrightarrow> Http_getListener hs \<noteq> None \<and> wks \<noteq> [])"
proof -
  have start: "start_workers 0 wks = Some (started (length wks))"
    using start_workers_fresh[OF assms(1), of 0] by (simp add: started_def)
  have join: "join_workers fate (started n) \<noteq> (wks', Comes (Threw e))" for n
  proof
    assume "join_workers fate (started n) = (wks', Comes (Threw e))"
    then have "join_all (map fate [0..<n]) = Threw e" using join_workers_end[of fate n] by simp
    then show False by (auto simp: join_all_def split: option.splits if_splits)
  qed
  consider "Http_getListener hs = None" | "wks = []"
    | "Http_getListener hs \<noteq> None" "wks \<noteq> []" by blast
  then show ?thesis
  proof cases
    case 3
    then have "\<exists>sv. HttpService_turns turns (h_state hs) = Some (sv, Inl e) \<and> wks' = started (length wks)"
      using assms(2) join[of "length wks"]
      by (auto simp: HttpService_run_workers_def start split: option.splits prod.splits sum.splits)
    then show ?thesis using 3 turns_throw_tcp[of turns "h_state hs" _ e] by fastforce
  qed (use assms(2) in \<open>auto simp: HttpService_run_workers_def split: if_splits\<close>)
qed

text \<open>
  The coroutine service does not look at the number of its workers: without any it runs its
  turns, which accept connections that nobody serves, and returns.
\<close>

lemma cor_run_without_workers:
  "CorService_turns turns cs = Some (cs', Inr ()) \<Longrightarrow>
   CorService_run_workers turns fate True cs [] = ([], Comes Returned)"
  by (simp add: CorService_run_workers_def join_workers_def List.map_filter_def)

section \<open>Properties\<close>

text \<open>
  C29: How a run of the service ends. Called on workers without threads, \<^verbatim>\<open>run\<close> never returns;
  it ends as follows and in no other way. Without a listener or without workers it throws before
  any thread is started. Otherwise every worker gets its thread, and the turns decide: they may
  reach undefined behaviour, or throw, which leaves every worker object with its thread not
  joined, so that destroying the service, or calling \<^verbatim>\<open>run\<close> again, terminates the program. When
  they are over, the program is terminated if an exception leaves the thread of a worker, and
  \<^verbatim>\<open>run\<close> is blocked in \<^verbatim>\<open>join\<close> if none does. None leaves a thread that keeps an invariant under
  which its waits do not fail and the events they give are handled without an exception.
\<close>

theorem run_ends:
  assumes "workers_deleted wks" "length wks = h_workers hs"
    and "HttpService_run_workers turns (worker_fates env wait stamp others sv w) hs wks = (wks', r)"
  shows "r = Comes (if Http_getListener hs = None then Threw ListenerError
      else if wks = [] then Threw WorkerError
      else case HttpService_turns turns (h_state hs) of
        None \<Rightarrow> UndefinedBehaviour
      | Some (_, Inl e) \<Rightarrow> Threw e
      | Some (_, Inr _) \<Rightarrow>
          (case first_death (map (worker_fates env wait stamp others sv w) [0..<length wks]) of
             Some e \<Rightarrow> Terminated e | None \<Rightarrow> BlockedInJoin)) \<and>
    (r \<in> {Comes (Threw ListenerError), Comes (Threw WorkerError)} \<longrightarrow> wks' = wks) \<and>
    (\<forall>x. r = Comes (Threw (TcpError x)) \<longrightarrow> wks' = started (length wks) \<and> \<not> workers_deleted wks' \<and>
      (\<forall>turns fate. snd (HttpService_run_workers turns fate hs wks') = ThreadOverwritten)) \<and>
    (\<forall>i keeps. goes_on (env i) (wait i) (stamp i) (others i) keeps \<longrightarrow> keeps (w i) (sv i) \<longrightarrow>
      worker_fates env wait stamp others sv w i = RunsForever)"
proof (intro conjI allI impI)
  let ?fate = "worker_fates env wait stamp others sv w"
  have r: "r = Comes (HttpServer_run turns ?fate hs)"
    using run_workers_end[OF assms(1,2), of turns ?fate] assms(3) by simp
  have none: "wks = [] \<longleftrightarrow> h_workers hs = 0" using assms(2) by auto
  show "r = Comes (if Http_getListener hs = None then Threw ListenerError
      else if wks = [] then Threw WorkerError
      else case HttpService_turns turns (h_state hs) of
        None \<Rightarrow> UndefinedBehaviour
      | Some (_, Inl e) \<Rightarrow> Threw e
      | Some (_, Inr _) \<Rightarrow>
          (case first_death (map ?fate [0..<length wks]) of Some e \<Rightarrow> Terminated e | None \<Rightarrow> BlockedInJoin))"
    unfolding r run_ends_as none assms(2) by (rule refl)
  note thrown = run_workers_throws[OF assms(1)]
  show "wks' = wks" if "r \<in> {Comes (Threw ListenerError), Comes (Threw WorkerError)}"
    using that thrown[of turns ?fate hs wks'] assms(3) by auto
  fix x
  assume "r = Comes (Threw (TcpError x))"
  then have t: "wks' = started (length wks)" "Http_getListener hs \<noteq> None" "wks \<noteq> []"
    using thrown[of turns ?fate hs wks'] assms(3) by auto
  then show "wks' = started (length wks)" and running: "\<not> workers_deleted wks'"
    by (simp_all add: started_deleted)
  show "snd (HttpService_run_workers turns' fate' hs wks') = ThreadOverwritten" for turns' fate'
    using t(2) start_workers_running[OF running, of 0] running
    by (auto simp: HttpService_run_workers_def workers_deleted_def)
qed (rule goes_on_forever)

text \<open>The connection was aborted before \<^verbatim>\<open>accept\<close> took it.\<close>

definition aborted_turns :: "((tcp_error + NonBlockConnection) \<times> bool \<times> nat) list" where
  "aborted_turns = [(Inl (Error (Strerror (Errno 103))), True, 0)]"

text \<open>
  Workers whose kernel reports an event of the first connection in every turn of a clock, the
  world, and the invariant under which they go on: the connection is open and armed for writing.
\<close>

definition ticking_env :: "nat worker_env" where
  "ticking_env = \<lparr>env_read = (\<lambda>fd n w. (w, Inl EAGAIN)), env_write = (\<lambda>fd bs w. (w, Inl EAGAIN)),
     env_epoll = \<lparr>events_queue_size = MAX_EVENTS, epoll_fd = \<lparr>d_fd = 4\<rparr>\<rparr>,
     env_epoll_ctl = (\<lambda>epfd op fd ev w. (w, Inr ())), env_OnRequest = (\<lambda>c w. (w, c))\<rparr>"

definition ticking_wait :: "nat epoll_wait" where
  "ticking_wait = (\<lambda>fd n w. (Suc w, Inr [\<lparr>ev_events = EPOLLRDHUP, ev_data = Ptr 0\<rparr>]))"

definition ticking_stamp :: "nat \<Rightarrow> epoll_event list \<Rightarrow> (nat \<times> 32 word \<times> nat) list" where
  "ticking_stamp w evs = map (\<lambda>e. (0, ev_events e, 30 + w)) evs"

definition ticking_inv :: "nat \<Rightarrow> HttpService \<Rightarrow> bool" where
  "ticking_inv w sv \<longleftrightarrow> (\<exists>t \<le> 30 + w. service_reachable 20 60 (t, sv)) \<and> 0 < length (connections sv) \<and>
     is_open (conn_at sv 0) \<and> 2 \<in> events (epoll_option (conn_at sv 0))"

lemma ticking_env_ok: "epoll_ok ticking_env fd (\<lambda>w. True)" "listener_ok (env_OnRequest ticking_env)"
  by (simp_all add: epoll_ok_def ticking_env_def env_epoll_mod_def listener_ok_def)

lemma ticking_goes_on: "goes_on ticking_env ticking_wait ticking_stamp (\<lambda>w sv. sv) ticking_inv"
  unfolding goes_on_def
proof (intro allI impI)
  fix w sv
  assume "ticking_inv w sv"
  then obtain t where t0: "t \<le> 30 + w" "service_reachable 20 60 (t, sv)" and p: "0 < length (connections sv)"
    and op: "is_open (conn_at sv 0)" and two: "2 \<in> events (epoll_option (conn_at sv 0))"
    unfolding ticking_inv_def by blast
  then have t: "t \<le> 30 + Suc w" "service_reachable 20 60 (t, sv)" by simp_all
  have masks: "EPOLLRDHUP AND EPOLLIN = 0" "EPOLLRDHUP AND EPOLLOUT = 0" by (simp_all add: epoll_defs)
  have pl: "0 < places sv" using p by (simp add: places_def)
  obtain sv1 where sv1: "places sv1 = places sv" "conn_at sv1 0 = (conn_at sv 0)\<lparr>start := 30 + Suc w\<rparr>"
      "worker_event ticking_env 0 EPOLLRDHUP (30 + Suc w) sv (Suc w) = Some (finish_event ticking_env 0 sv1 (Suc w))"
    using worker_event_cases[OF service_reachable_inv[OF t(2)] pl op t(1), of ticking_env EPOLLRDHUP "Suc w"]
    unfolding masks by (metis (no_types, lifting))
  have "0 < places sv1" "2 \<in> events (epoll_option (conn_at sv1 0))" "(2 :: nat) < 30" using pl two sv1(1,2) by simp_all
  then obtain w2 opt where fin: "finish_event ticking_env 0 sv1 (Suc w) =
      (w2, set_conn 0 ((conn_at sv1 0)\<lparr>epoll_option := opt\<rparr>) sv1, Inr True)"
      "events opt = events (epoll_option (conn_at sv1 0)) \<union> {30, 31}"
      "w2 = fst (env_epoll_mod ticking_env 0 (d_fd (c_socket (conn_at sv1 0))) opt (Suc w))"
    using finish_armed[OF ticking_env_ok(1) TrueI] by metis
  let ?sv = "set_conn 0 ((conn_at sv1 0)\<lparr>epoll_option := opt\<rparr>) sv1"
  have ev: "worker_event ticking_env 0 EPOLLRDHUP (30 + Suc w) sv (Suc w) = Some (w2, ?sv, Inr True)"
    using sv1(3) fin(1) by simp
  have w2: "w2 = Suc w" using fin(3) by (simp add: ticking_env_def env_epoll_mod_def)
  obtain t' where "t' \<le> 30 + Suc w" "service_reachable 20 60 (t', ?sv)"
    using worker_event_run[OF t(2) p t(1) ticking_env_ok(2) ev] by blast
  then have "ticking_inv w2 ?sv"
    using fin(2) two op pl sv1(1,2) by (auto simp: ticking_inv_def w2 places_def[symmetric])
  moreover have "EPoll_wait ticking_wait (env_epoll ticking_env) w =
      (Suc w, Inr [\<lparr>ev_events = EPOLLRDHUP, ev_data = Ptr 0\<rparr>])"
    by (simp add: EPoll_wait_def ticking_wait_def epoll_handle_error_def)
  moreover have "worker_events ticking_env (ticking_stamp (Suc w) [\<lparr>ev_events = EPOLLRDHUP, ev_data = Ptr 0\<rparr>]) sv (Suc w) =
      Some (w2, ?sv, Inr True)"
    using ev by (simp add: ticking_stamp_def)
  ultimately show "\<exists>w1 evs w2 sv2 b. EPoll_wait ticking_wait (env_epoll ticking_env) w = (w1, Inr evs) \<and>
      worker_events ticking_env (ticking_stamp w1 evs) sv w1 = Some (w2, sv2, Inr b) \<and> ticking_inv w2 sv2"
    by blast
qed

lemma ticking_starts: "ticking_inv 0 answered"
  using answered_reachable answered_conn(1,2) answered_armed(1) by (auto simp: ticking_inv_def)

abbreviation ticking_fates :: "nat \<Rightarrow> thread_fate" where
  "ticking_fates \<equiv> worker_fates (\<lambda>i. ticking_env) (\<lambda>i. ticking_wait) (\<lambda>i. ticking_stamp) (\<lambda>i w sv. sv)
     (\<lambda>i. answered) (\<lambda>i. 0)"

text \<open>With the aborted connection the run throws; without it, it is blocked while the workers go on.\<close>

theorem run_ends_witness:
  "HttpService_run_workers aborted_turns ticking_fates (Http_setListener (Some ()) http_listening)
      (replicate (h_workers http_listening) HttpWorker_new) =
    (started (h_workers http_listening), Comes (Threw (TcpError (Error (Strerror (Errno 103)))))) \<and>
   snd (HttpService_run_workers [] ticking_fates (Http_setListener (Some ()) http_listening)
      (replicate (h_workers http_listening) HttpWorker_new)) = Comes BlockedInJoin"
proof -
  let ?hs = "Http_setListener (Some ()) http_listening" and ?n = "h_workers http_listening"
  let ?wks = "replicate ?n HttpWorker_new"
  have fresh: "workers_deleted ?wks"
    by (simp add: workers_deleted_def HttpWorker_delete_def HttpWorker_new_def list_all_iff)
  have hs: "length ?wks = h_workers ?hs" "?wks \<noteq> []" "Http_getListener ?hs \<noteq> None"
    by (simp_all add: http_listening_def Http_setListener_def Http_getListener_def)
  obtain wks1 r1 where run1: "HttpService_run_workers aborted_turns ticking_fates ?hs ?wks = (wks1, r1)" by fastforce
  obtain wks2 r2 where run2: "HttpService_run_workers [] ticking_fates ?hs ?wks = (wks2, r2)" by fastforce
  note ends1 = run_ends[OF fresh hs(1) run1] and ends2 = run_ends[OF fresh hs(1) run2]
  have "HttpService_turns aborted_turns (h_state ?hs) =
      Some (h_state ?hs, Inl (TcpError (Error (Strerror (Errno 103)))))"
    by (simp add: aborted_turns_def HttpService_turn_def)
  then have "r1 = Comes (Threw (TcpError (Error (Strerror (Errno 103)))))" using ends1 hs(2,3) by simp
  moreover from this have "wks1 = started ?n" using ends1 by simp
  moreover have "ticking_fates i = RunsForever" for i using ends2 ticking_goes_on ticking_starts by blast
  then have "first_death (map ticking_fates [0..<?n]) = None" unfolding first_death_None by auto
  then have "r2 = Comes BlockedInJoin" using ends2 hs(2,3) by simp
  ultimately show ?thesis using run1 run2 by simp
qed

text \<open>
  C30: A client that resets its connection terminates the server. In any state that an
  interleaving can reach, when a worker is woken for a connection whose read fails with an error
  other than \<^verbatim>\<open>EAGAIN\<close>, \<^verbatim>\<open>EWOULDBLOCK\<close>, \<^verbatim>\<open>EINPROGRESS\<close> or \<^verbatim>\<open>EBADF\<close>, the exception leaves the
  thread's function, and the run of the service ends with \<^verbatim>\<open>std::terminate\<close>.
\<close>

theorem reset_terminates_service:
  fixes others :: "nat \<Rightarrow> 'w \<Rightarrow> HttpService \<Rightarrow> HttpService"
  assumes "EPoll_wait (wait i) (env_epoll (env i)) (w i) = (w1, Inr raised)"
    and "stamp i w1 raised = (p, evs, now) # later"
    and "others i w1 (sv i) = sv1" "service_reachable ct kt (t, sv1)" "p < length (connections sv1)"
    and "is_open (conn_at sv1 p)" "t \<le> now" "evs AND EPOLLIN \<noteq> 0"
    and "env_read (env i) (d_fd (c_socket (conn_at sv1 p))) BUF_SIZE w1 = (w2, Inl e)"
    and "e \<notin> {EAGAIN, EWOULDBLOCK, EINPROGRESS, EBADF}"
    and "Http_getListener hs \<noteq> None" "i < h_workers hs"
    and "HttpService_turns turns (h_state hs) = Some (state, Inr ())"
  shows "worker_fates env wait stamp others sv w i = Dies (Uncaught (Error (Strerror e))) \<and>
    (\<exists>x. HttpServer_run turns (worker_fates env wait stamp others sv w) hs = Terminated x)"
proof
  let ?fate = "worker_fates env wait stamp others sv w"
  obtain sv2 where "worker_event (env i) p evs now sv1 w1 = Some (w2, sv2, Inl (Uncaught (Error (Strerror e))))"
    using read_error_uncaught[OF assms(4-10)] by blast
  then have "HttpWorker_work (env i) (wait i) (stamp i) (others i) (sv i) (w i) =
      Some (w2, sv2, Inl (Uncaught (Error (Strerror e))))"
    using assms(1-3) by (subst HttpWorker_work.simps) simp
  then show dies: "?fate i = Dies (Uncaught (Error (Strerror e)))"
    by (simp add: worker_fates_def worker_fate_def)
  have "first_death (map ?fate [0..<h_workers hs]) \<noteq> None"
    unfolding first_death_None using dies assms(12) by (metis atLeastLessThan_iff imageI list.set_map set_upt zero_le)
  then show "\<exists>x. HttpServer_run turns ?fate hs = Terminated x"
    using assms(11-13) by (auto simp: HttpServer_run_def HttpService_run_def activate_workers_def join_all_def)
qed

theorem reset_terminates_service_witness:
  "\<exists>x. HttpServer_run [] (worker_fates (\<lambda>i. peer_env) (\<lambda>i fd n w. (w, Inr [\<lparr>ev_events = EPOLLIN, ev_data = Ptr 0\<rparr>]))
      (\<lambda>i w evs. [(0, EPOLLIN, 31)]) (\<lambda>i w sv. two_clients) (\<lambda>i. two_clients)
      (\<lambda>i. \<lparr>to_deliver = [Inl (Errno 104)], received = []\<rparr>))
    (Http_setListener (Some ()) http_listening) = Terminated x"
proof -
  let ?w = "\<lparr>to_deliver = [Inl (Errno 104)], received = []\<rparr>" and ?hs = "Http_setListener (Some ()) http_listening"
  have read: "env_read peer_env (d_fd (c_socket (conn_at two_clients 0))) BUF_SIZE ?w =
      (\<lparr>to_deliver = [], received = []\<rparr>, Inl (Errno 104))"
    by (simp add: peer_env_def peer_read_def)
  have "Http_getListener ?hs \<noteq> None" "0 < h_workers ?hs"
    by (simp_all add: Http_getListener_def Http_setListener_def http_listening_def)
  then show ?thesis
    using reset_terminates_service[of "\<lambda>i fd n w. (w, Inr [\<lparr>ev_events = EPOLLIN, ev_data = Ptr 0\<rparr>])" 0 "\<lambda>i. peer_env"
        "\<lambda>i. ?w" ?w "[\<lparr>ev_events = EPOLLIN, ev_data = Ptr 0\<rparr>]" "\<lambda>i w evs. [(0, EPOLLIN, 31)]" 0 EPOLLIN 31 "[]"
        "\<lambda>i w sv. two_clients" "\<lambda>i. two_clients" two_clients _ _ _ _ _ ?hs "[]" "h_state ?hs",
        OF _ _ _ two_clients_reachable two_clients_conn(1) two_clients_eval(4) _ readable_mask read]
    by (simp add: EPoll_wait_def epoll_handle_error_def)
qed

end
