(* ===== verification/Interview.thy ===== *)
theory Interview
  imports Std_String
begin

text \<open>
  \<^verbatim>\<open>0.Interview/task.cpp\<close>: commands that print a field of a file, its letters changed.

  A stream is the text that is left of it; \<^verbatim>\<open>peek\<close> and \<^verbatim>\<open>get\<close> at the end give \<^verbatim>\<open>EOF\<close>. A
  \<^verbatim>\<open>char\<close> is signed, so that the byte 255 equals \<^verbatim>\<open>EOF\<close> once \<^verbatim>\<open>get\<close> has been stored in it. The
  character functions are those of the C locale.
\<close>

section \<open>Commands\<close>

datatype COMMAND = UNKNOWN | LOWER_CASE | UPPER_CASE | REPLACE

record Query =
  q_line :: int
  q_A :: char
  q_B :: char

definition Query_default :: Query where
  "Query_default = \<lparr>q_line = 0, q_A = CHR 0x00, q_B = CHR 0x00\<rparr>"

text \<open>\<^verbatim>\<open>char A = iss.get()\<close>: the stored byte and the rest.\<close>

fun get_char :: "string \<Rightarrow> char \<times> string" where
  "get_char [] = (CHR 0xFF, [])"
| "get_char (c # s) = (c, s)"

definition with_line ::
  "COMMAND \<Rightarrow> string \<Rightarrow> char \<Rightarrow> char \<Rightarrow> std_error + COMMAND \<times> Query" where
  "with_line cmd N a b =
     (case stoi N of
        Inl e \<Rightarrow> Inl e
      | Inr n \<Rightarrow> Inr (cmd, \<lparr>q_line = n, q_A = a, q_B = b\<rparr>))"

definition parse :: "string \<Rightarrow> std_error + COMMAND \<times> Query" where
  "parse str_command =
     (let unknown = Inr (UNKNOWN, Query_default);
          N = takeWhile is_digit str_command;
          iss = dropWhile is_digit str_command
      in if N = [] then unknown
         else case iss of
           [] \<Rightarrow> unknown
         | c # iss \<Rightarrow>
             if c \<noteq> CHR '':'' then unknown
             else case iss of
               [] \<Rightarrow> unknown
             | c # iss \<Rightarrow>
                 if c = CHR ''u''
                 then if iss = [] then with_line LOWER_CASE N (CHR 0x00) (CHR 0x00) else unknown
                 else if c = CHR ''U''
                 then if iss = [] then with_line UPPER_CASE N (CHR 0x00) (CHR 0x00) else unknown
                 else if c = CHR ''R''
                 then let (A, iss) = get_char iss; (B, iss) = get_char iss
                   in if A \<noteq> CHR 0xFF \<and> B \<noteq> CHR 0xFF \<and> iss = [] then with_line REPLACE N A B
                      else unknown
                 else unknown)"

section \<open>Fields\<close>

definition is_tab :: "char \<Rightarrow> bool" where
  "is_tab c \<longleftrightarrow> c = CHR 0x09"

text \<open>\<^verbatim>\<open>getline(input, field, '\t')\<close>: the line, and the stream, \<^verbatim>\<open>None\<close> when it is not good any more.\<close>

definition getline_tab :: "string \<Rightarrow> string \<times> string option" where
  "getline_tab input =
     (takeWhile (\<lambda>c. \<not> is_tab c) input,
      case dropWhile (\<lambda>c. \<not> is_tab c) input of [] \<Rightarrow> None | _ # rest \<Rightarrow> Some rest)"

text \<open>The loop, by the number of its turns that are left; the flag says that it printed.\<close>

fun find_field_loop :: "nat \<Rightarrow> string option \<Rightarrow> string \<Rightarrow> string \<times> bool" where
  "find_field_loop 0 input field = (field, False)"
| "find_field_loop (Suc k) (Some input) field =
     find_field_loop k (snd (getline_tab input)) (fst (getline_tab input))"
| "find_field_loop (Suc k) None field = ([], True)"

text \<open>\<^verbatim>\<open>None\<close>: \<^verbatim>\<open>N + 1\<close> overflows, which is undefined.\<close>

definition find_field :: "string \<Rightarrow> int \<Rightarrow> (string \<times> bool) option" where
  "find_field input N =
     (if N = 2 ^ 31 - 1 then None else Some (find_field_loop (nat (N + 1)) (Some input) []))"

section \<open>The program\<close>

definition to_lower :: "char \<Rightarrow> char" where
  "to_lower c = (if (65::nat) \<le> of_char c \<and> (of_char c :: nat) \<le> 90 then char_of (of_char c + 32 :: nat) else c)"

definition to_upper :: "char \<Rightarrow> char" where
  "to_upper c = (if (97::nat) \<le> of_char c \<and> (of_char c :: nat) \<le> 122 then char_of (of_char c - 32 :: nat) else c)"

datatype interview_error = Terminated std_error | Overflow

definition print_field ::
  "string \<Rightarrow> int \<Rightarrow> (char \<Rightarrow> char) \<Rightarrow> interview_error + string" where
  "print_field input N f =
     (case find_field input N of
        None \<Rightarrow> Inl Overflow
      | Some (field, missing) \<Rightarrow>
          Inr ((if missing then ''No such field!'' else []) @ map f field @ [CHR 0x0A]))"

definition run_command :: "string \<Rightarrow> string \<Rightarrow> interview_error + string" where
  "run_command input str_command =
     (case parse str_command of
        Inl e \<Rightarrow> Inl (Terminated e)
      | Inr (command, request) \<Rightarrow>
          (case command of
             LOWER_CASE \<Rightarrow> print_field input (q_line request) to_lower
           | UPPER_CASE \<Rightarrow> print_field input (q_line request) to_upper
           | REPLACE \<Rightarrow> print_field input (q_line request) (\<lambda>c. if c = q_A request then q_B request else c)
           | UNKNOWN \<Rightarrow> Inr (''Unknown command!'' @ [CHR 0x0A])))"

text \<open>The file could not be opened (\<^verbatim>\<open>None\<close>), or its content and the commands that are typed.\<close>

fun run_commands :: "string \<Rightarrow> string list \<Rightarrow> string \<times> interview_error option" where
  "run_commands input [] = ([], None)"
| "run_commands input (cmd # cmds) =
     (case run_command input cmd of
        Inl e \<Rightarrow> ([], Some e)
      | Inr out \<Rightarrow> (let (outs, e) = run_commands input cmds in (out @ outs, e)))"

definition interview_main :: "string option \<Rightarrow> string list \<Rightarrow> string \<times> interview_error option" where
  "interview_main file cmds =
     (let name = ''Please enter filename:'' @ [CHR 0x0A]
      in case file of
           None \<Rightarrow> (name @ ''Cannot open file with such name!'' @ [CHR 0x0A], None)
         | Some input \<Rightarrow>
             let (out, e) = run_commands input cmds
             in (name @ ''Please enter command:'' @ [CHR 0x0A] @ out, e))"

section \<open>The fields of a text\<close>

function split_tab :: "string \<Rightarrow> string list" where
  "split_tab input = fst (getline_tab input) #
     (case snd (getline_tab input) of None \<Rightarrow> [] | Some rest \<Rightarrow> split_tab rest)"
  by pat_completeness auto
termination
proof (relation "measure length", simp)
  fix input rest
  assume "snd (getline_tab input) = Some rest"
  then have "length rest < length (dropWhile (\<lambda>c. \<not> is_tab c) input)"
    by (auto simp: getline_tab_def split: list.splits)
  also have "\<dots> \<le> length input" by (rule length_dropWhile_le)
  finally show "(rest, input) \<in> measure length" by simp
qed

declare split_tab.simps [simp del]

lemma find_field_loop_split:
  "find_field_loop (Suc n) (Some input) field =
    (if n < length (split_tab input) then (split_tab input ! n, False) else ([], True))"
proof (induction n arbitrary: input field)
  case 0
  then show ?case by (subst (1 2) split_tab.simps) simp
next
  case (Suc n)
  show ?case
  proof (cases "snd (getline_tab input)")
    case None
    then show ?thesis by (subst (1 2) split_tab.simps) simp
  next
    case (Some rest)
    have "find_field_loop (Suc (Suc n)) (Some input) field =
        find_field_loop (Suc n) (Some rest) (fst (getline_tab input))" using Some by simp
    also have "\<dots> = (if n < length (split_tab rest) then (split_tab rest ! n, False) else ([], True))"
      by (rule Suc.IH)
    finally show ?thesis using Some by (subst (1 2) split_tab.simps) simp
  qed
qed

lemma print_field_split:
  assumes "n < 2 ^ 31 - 1"
  shows "print_field input (int n) f = Inr (if n < length (split_tab input)
    then map f (split_tab input ! n) @ [CHR 0x0A] else ''No such field!'' @ [CHR 0x0A])"
proof -
  have "nat (int n + 1) = Suc n" "int n \<noteq> 2 ^ 31 - 1" using assms by auto
  then show ?thesis
    by (simp add: print_field_def find_field_def find_field_loop_split del: find_field_loop.simps)
qed

section \<open>Which texts are commands\<close>

definition digits :: "string \<Rightarrow> bool" where
  "digits ds \<longleftrightarrow> ds \<noteq> [] \<and> (\<forall>c\<in>set ds. is_digit c)"

lemma colon_no_digit [simp]: "\<not> is_digit (CHR '':'')"
  by (simp add: is_digit_def)

lemma takeWhile_digits [simp]:
  assumes "digits ds"
  shows "takeWhile is_digit (ds @ CHR '':'' # s) = ds" "dropWhile is_digit (ds @ CHR '':'' # s) = CHR '':'' # s"
  using assms by (simp_all add: digits_def takeWhile_append dropWhile_append)

lemma with_line_digits:
  assumes "digits ds" "digits_value ds < 2 ^ 31"
  shows "with_line cmd ds a b = Inr (cmd, \<lparr>q_line = int (digits_value ds), q_A = a, q_B = b\<rparr>)"
  using assms stoi_digits[of ds] by (simp add: with_line_def digits_def)

lemma with_line_overflow:
  assumes "digits ds" "2 ^ 31 \<le> digits_value ds"
  shows "with_line cmd ds a b = Inl out_of_range"
  using assms stoi_digits[of ds] by (simp add: with_line_def digits_def)

text \<open>The three forms of a command: its text, the number of its field, and what it does to letters.\<close>

inductive spells :: "string \<Rightarrow> nat \<Rightarrow> (char \<Rightarrow> char) \<Rightarrow> bool" where
  lower: "digits ds \<Longrightarrow> spells (ds @ '':u'') (digits_value ds) to_lower"
| upper: "digits ds \<Longrightarrow> spells (ds @ '':U'') (digits_value ds) to_upper"
| replace: "digits ds \<Longrightarrow> a \<noteq> CHR 0xFF \<Longrightarrow> b \<noteq> CHR 0xFF \<Longrightarrow>
    spells (ds @ [CHR '':'', CHR ''R'', a, b]) (digits_value ds) (\<lambda>c. if c = a then b else c)"

lemma run_spelled:
  assumes "spells s n f"
  shows "n < 2 ^ 31 \<Longrightarrow> run_command input s = print_field input (int n) f"
    "2 ^ 31 \<le> n \<Longrightarrow> run_command input s = Inl (Terminated out_of_range)"
  using assms
  by (induction rule: spells.induct)
    (simp_all add: run_command_def parse_def digits_def[THEN iffD1] Let_def with_line_digits with_line_overflow
      cong del: if_weak_cong)

text \<open>The texts that are commands: a number, a colon and one of three endings.\<close>

definition command_text :: "string \<Rightarrow> bool" where
  "command_text s \<longleftrightarrow> (\<exists>ds t. s = ds @ CHR '':'' # t \<and> digits ds \<and>
     (t = ''u'' \<or> t = ''U'' \<or> (\<exists>a b. t = [CHR ''R'', a, b] \<and> a \<noteq> CHR 0xFF \<and> b \<noteq> CHR 0xFF)))"

lemma get_char_valid: "get_char s = (a, s') \<Longrightarrow> a \<noteq> CHR 0xFF \<Longrightarrow> s = a # s'"
  by (cases s) auto

lemma parse_unknown:
  assumes "\<not> command_text s"
  shows "parse s = Inr (UNKNOWN, Query_default)"
proof (rule ccontr)
  assume no: "parse s \<noteq> Inr (UNKNOWN, Query_default)"
  define N where "N = takeWhile is_digit s"
  have dig: "N \<noteq> [] \<Longrightarrow> digits N" by (auto simp: digits_def N_def dest: set_takeWhileD)
  obtain c t where d: "N \<noteq> []" "dropWhile is_digit s = CHR '':'' # c # t"
    using no by (auto simp: parse_def N_def Let_def split: list.splits if_splits)
  have s: "s = N @ CHR '':'' # c # t" using takeWhile_dropWhile_id[of is_digit s] d(2) by (simp add: N_def)
  have "c = CHR ''u'' \<and> t = [] \<or> c = CHR ''U'' \<and> t = [] \<or>
      (\<exists>a b. c = CHR ''R'' \<and> t = [a, b] \<and> a \<noteq> CHR 0xFF \<and> b \<noteq> CHR 0xFF)"
    using no d by (auto simp: parse_def N_def Let_def split: if_splits prod.splits dest!: get_char_valid)
  with s dig[OF d(1)] have "command_text s" unfolding command_text_def by blast
  with assms show False by simp
qed

section \<open>What the task asks for\<close>

text \<open>
  \<^verbatim>\<open>0.Interview/README.md\<close>: each command changes its field of every line, the commands one after
  the other, and the changed lines are printed. A line without the field stays as it is.
\<close>

fun join_tab :: "string list \<Rightarrow> string" where
  "join_tab [] = []"
| "join_tab [x] = x"
| "join_tab (x # xs) = x @ CHR 0x09 # join_tab xs"

definition change_field :: "nat \<times> (char \<Rightarrow> char) \<Rightarrow> string list \<Rightarrow> string list" where
  "change_field cmd xs = (case cmd of (n, f) \<Rightarrow> if n < length xs then xs[n := map f (xs ! n)] else xs)"

definition readme_output :: "(nat \<times> (char \<Rightarrow> char)) list \<Rightarrow> string list \<Rightarrow> string" where
  "readme_output cmds text_lines =
     concat (map (\<lambda>l. join_tab (fold change_field cmds (split_tab l)) @ [CHR 0x0A]) text_lines)"

lemma join_tab_length:
  "n < length xs \<Longrightarrow> length xs \<noteq> 1 \<Longrightarrow> length (xs ! n) < length (join_tab xs)"
proof (induction xs arbitrary: n rule: join_tab.induct)
  case (3 x y xs)
  show ?case
  proof (cases n)
    case (Suc k)
    then have "length ((y # xs) ! k) \<le> length (join_tab (y # xs))"
      using 3 by (cases "length (y # xs) = 1") (auto simp: less_imp_le)
    with Suc show ?thesis by simp
  qed simp
qed simp_all

lemma readme_differs:
  assumes "n < length (split_tab line)"
  shows "map f (split_tab line ! n) @ [CHR 0x0A] = readme_output [(n, f)] [line] \<longleftrightarrow> length (split_tab line) = 1"
proof -
  let ?new = "(split_tab line)[n := map f (split_tab line ! n)]"
  have out: "readme_output [(n, f)] [line] = join_tab ?new @ [CHR 0x0A]"
    using assms by (simp add: readme_output_def change_field_def)
  have "length (map f (split_tab line ! n)) < length (join_tab ?new)" if "length (split_tab line) \<noteq> 1"
    using join_tab_length[of n ?new] assms that by simp
  moreover have "join_tab ?new = map f (split_tab line ! n)" if "length (split_tab line) = 1"
    using assms that by (auto simp: length_Suc_conv)
  ultimately show ?thesis unfolding out by (metis append_same_eq less_irrefl)
qed

text \<open>What a command with the number \<^verbatim>\<open>n\<close> comes to.\<close>

definition command_result :: "string \<Rightarrow> nat \<Rightarrow> (char \<Rightarrow> char) \<Rightarrow> interview_error + string" where
  "command_result input n f =
     (if 2 ^ 31 \<le> n then Inl (Terminated out_of_range)
      else if n = 2 ^ 31 - 1 then Inl Overflow
      else if n < length (split_tab input) then Inr (map f (split_tab input ! n) @ [CHR 0x0A])
      else Inr (''No such field!'' @ [CHR 0x0A]))"

lemma run_command_result:
  assumes "spells s n f"
  shows "run_command input s = command_result input n f"
proof -
  consider "n < 2 ^ 31 - 1" | "n = 2 ^ 31 - 1" | "2 ^ 31 \<le> n" by linarith
  then show ?thesis
  proof cases
    case 1
    then have "n < 2 ^ 31" by linarith
    then show ?thesis using run_spelled(1)[OF assms] print_field_split[OF 1] 1 by (auto simp: command_result_def)
  next
    case 2
    then have "n < 2 ^ 31" "int n = 2 ^ 31 - 1" by simp_all
    then show ?thesis using run_spelled(1)[OF assms] 2 by (simp add: command_result_def print_field_def find_field_def)
  next
    case 3
    then show ?thesis using run_spelled(2)[OF assms] by (simp add: command_result_def)
  qed
qed

section \<open>Properties\<close>

text \<open>
  C40: The program does not print what its task asks for. A command \<^verbatim>\<open>N:u\<close>, \<^verbatim>\<open>N:U\<close> or
  \<^verbatim>\<open>N:RAB\<close> prints the one piece between the tabulators of the whole file with the number N, its
  letters changed, or \<^verbatim>\<open>No such field!\<close>; the number 2^31 - 1 overflows, larger ones terminate
  the program, and every text of none of these forms is an unknown command. The file stays
  unchanged, so that a second command does not see the first one. The task has the changed lines
  printed: for a file of one line and a command for a field that it has, the output is the one
  asked for exactly if the line has no other field.
\<close>

theorem command_output:
  assumes "spells s n f"
  shows "run_command input s = command_result input n f \<and>
    (run_command input s = Inr out \<longrightarrow>
      run_commands input (s # cmds) = (out @ fst (run_commands input cmds), snd (run_commands input cmds))) \<and>
    (\<not> command_text s' \<longrightarrow> run_command input s' = Inr (''Unknown command!'' @ [CHR 0x0A])) \<and>
    (n < 2 ^ 31 - 1 \<longrightarrow> n < length (split_tab line) \<longrightarrow> CHR 0x0A \<notin> set line \<longrightarrow>
      (run_commands line [s] = (readme_output [(n, f)] [line], None) \<longleftrightarrow> length (split_tab line) = 1))"
proof -
  have "run_commands line [s] = (map f (split_tab line ! n) @ [CHR 0x0A], None)"
    if "n < 2 ^ 31 - 1" "n < length (split_tab line)"
    using run_command_result[OF assms, of line] that by (simp add: command_result_def)
  then show ?thesis
    using run_command_result[OF assms] readme_differs
    by (simp add: run_command_def parse_unknown split: prod.splits)
qed

definition two_fields :: string where
  "two_fields = ''ab'' @ [CHR 0x09] @ ''Cd''"

theorem command_output_witness:
  "run_command two_fields ''1:u'' = Inr (''cd'' @ [CHR 0x0A]) \<and>
    run_commands two_fields [''1:u''] \<noteq> (readme_output [(1, to_lower)] [two_fields], None)"
proof -
  have "digits ''1''" "digits_value ''1'' = 1" by code_simp+
  then have cmd: "spells ''1:u'' 1 to_lower" using lower[of "''1''"] by simp
  have line: "split_tab two_fields = [''ab'', ''Cd'']" "CHR 0x0A \<notin> set two_fields" by code_simp+
  have "map to_lower ''Cd'' = ''cd''" by code_simp
  then have "command_result two_fields 1 to_lower = Inr (''cd'' @ [CHR 0x0A])"
    by (simp add: command_result_def line)
  moreover have "(1::nat) < 2 ^ 31 - 1" "1 < length (split_tab two_fields)" "length (split_tab two_fields) \<noteq> 1"
    by (simp_all add: line)
  ultimately show ?thesis using command_output[OF cmd] line(2) by metis
qed

end
