(* ===== verification/Log.thy ===== *)
theory Log
  imports Prelude
begin

text \<open>
  \<^verbatim>\<open>2.log/lib\<close>: the logger that the other parts call. A stream is the text written to it; a
  call of \<^verbatim>\<open>log\<close> holds the mutex while it writes a line. The other theories leave the calls of
  the logger out: they neither read nor change what those theories model, provided that a global
  logger has been set, as \<^verbatim>\<open>log_before_init\<close> below says.
\<close>

section \<open>Levels\<close>

datatype LEVEL = UNKNOWN | DEBUG | INFO | WARN | ERROR

fun level_value :: "LEVEL \<Rightarrow> int" where
  "level_value UNKNOWN = -1"
| "level_value DEBUG = 0"
| "level_value INFO = 1"
| "level_value WARN = 2"
| "level_value ERROR = 3"

instantiation LEVEL :: linorder
begin

definition less_eq_LEVEL :: "LEVEL \<Rightarrow> LEVEL \<Rightarrow> bool" where
  "less_eq_LEVEL a b \<longleftrightarrow> level_value a \<le> level_value b"

definition less_LEVEL :: "LEVEL \<Rightarrow> LEVEL \<Rightarrow> bool" where
  "less_LEVEL a b \<longleftrightarrow> level_value a < level_value b"

instance
proof
  fix x y :: LEVEL
  show "x \<le> y \<Longrightarrow> y \<le> x \<Longrightarrow> x = y" by (cases x; cases y) (simp_all add: less_eq_LEVEL_def)
qed (auto simp: less_eq_LEVEL_def less_LEVEL_def)

end

section \<open>A logger\<close>

record BaseLogger =
  log_out :: string
  log_level :: LEVEL

definition BaseLogger_new :: "string \<Rightarrow> LEVEL \<Rightarrow> BaseLogger" where
  "BaseLogger_new another l = \<lparr>log_out = another, log_level = l\<rparr>"

definition BaseLogger_log :: "string \<Rightarrow> LEVEL \<Rightarrow> BaseLogger \<Rightarrow> BaseLogger" where
  "BaseLogger_log m l lg =
     (if log_level lg \<le> l then lg\<lparr>log_out := log_out lg @ m @ [CHR 0x0A]\<rparr> else lg)"

definition BaseLogger_debug :: "string \<Rightarrow> BaseLogger \<Rightarrow> BaseLogger" where
  "BaseLogger_debug message = BaseLogger_log (''[DEBUG]: '' @ message) DEBUG"

definition BaseLogger_info :: "string \<Rightarrow> BaseLogger \<Rightarrow> BaseLogger" where
  "BaseLogger_info message = BaseLogger_log (''[INFO]: '' @ message) INFO"

definition BaseLogger_warn :: "string \<Rightarrow> BaseLogger \<Rightarrow> BaseLogger" where
  "BaseLogger_warn message = BaseLogger_log (''[WARNING]: '' @ message) WARN"

definition BaseLogger_error :: "string \<Rightarrow> BaseLogger \<Rightarrow> BaseLogger" where
  "BaseLogger_error message = BaseLogger_log (''[ERROR]: '' @ message) ERROR"

definition BaseLogger_set_level :: "LEVEL \<Rightarrow> BaseLogger \<Rightarrow> BaseLogger" where
  "BaseLogger_set_level lev lg = lg\<lparr>log_level := lev\<rparr>"

section \<open>The global logger\<close>

text \<open>\<^verbatim>\<open>None\<close>: the pointer is null. A call on it throws \<^verbatim>\<open>InstanceError\<close>.\<close>

datatype log_error = InstanceError string | FileLoggerError string string

definition get_global_logger :: "BaseLogger option \<Rightarrow> log_error + BaseLogger" where
  "get_global_logger g =
     (case g of None \<Rightarrow> Inl (InstanceError ''No BaseLogger was initialized'') | Some lg \<Rightarrow> Inr lg)"

definition set_global_logger ::
  "BaseLogger option \<Rightarrow> BaseLogger option \<Rightarrow> BaseLogger option \<times> (log_error + unit)" where
  "set_global_logger p_bl g =
     (case p_bl of
        None \<Rightarrow> (g, Inl (InstanceError ''Cannot initialize with nullptr''))
      | Some lg \<Rightarrow> (Some lg, Inr ()))"

definition on_global ::
  "(BaseLogger \<Rightarrow> BaseLogger) \<Rightarrow> BaseLogger option \<Rightarrow> BaseLogger option \<times> (log_error + unit)" where
  "on_global f g =
     (case get_global_logger g of Inl e \<Rightarrow> (g, Inl e) | Inr lg \<Rightarrow> (Some (f lg), Inr ()))"

definition log_debug :: "string \<Rightarrow> BaseLogger option \<Rightarrow> BaseLogger option \<times> (log_error + unit)" where
  "log_debug message = on_global (BaseLogger_debug message)"

definition log_info :: "string \<Rightarrow> BaseLogger option \<Rightarrow> BaseLogger option \<times> (log_error + unit)" where
  "log_info message = on_global (BaseLogger_info message)"

definition log_warn :: "string \<Rightarrow> BaseLogger option \<Rightarrow> BaseLogger option \<times> (log_error + unit)" where
  "log_warn message = on_global (BaseLogger_warn message)"

definition log_error_message ::
  "string \<Rightarrow> BaseLogger option \<Rightarrow> BaseLogger option \<times> (log_error + unit)" where
  "log_error_message message = on_global (BaseLogger_error message)"

definition log_set_level :: "LEVEL \<Rightarrow> BaseLogger option \<Rightarrow> BaseLogger option \<times> (log_error + unit)" where
  "log_set_level lev = on_global (BaseLogger_set_level lev)"

definition log_get_level :: "BaseLogger option \<Rightarrow> log_error + LEVEL" where
  "log_get_level g = bindE (get_global_logger g) (\<lambda>lg. Inr (log_level lg))"

section \<open>The loggers with a stream\<close>

text \<open>
  \<^verbatim>\<open>stderr\<close> and \<^verbatim>\<open>stdout\<close>, for the text written to the stream so far; the file logger, for whether
  the file could be opened, which empties it.
\<close>

definition StderrLogger_new :: "string \<Rightarrow> LEVEL \<Rightarrow> BaseLogger" where
  "StderrLogger_new cerr l = BaseLogger_new cerr l"

definition StdoutLogger_new :: "string \<Rightarrow> LEVEL \<Rightarrow> BaseLogger" where
  "StdoutLogger_new cout l = BaseLogger_new cout l"

definition FileLogger_new :: "bool \<Rightarrow> string \<Rightarrow> LEVEL \<Rightarrow> log_error + BaseLogger" where
  "FileLogger_new opened path l =
     (let lg = BaseLogger_new [] l
      in if \<not> opened then Inl (FileLoggerError ''Cannot open file'' path) else Inr lg)"

definition init_with_stderr_logger ::
  "string \<Rightarrow> LEVEL \<Rightarrow> BaseLogger option \<Rightarrow> BaseLogger option \<times> (log_error + unit)" where
  "init_with_stderr_logger cerr l = set_global_logger (Some (StderrLogger_new cerr l))"

definition init_with_stdout_logger ::
  "string \<Rightarrow> LEVEL \<Rightarrow> BaseLogger option \<Rightarrow> BaseLogger option \<times> (log_error + unit)" where
  "init_with_stdout_logger cout l = set_global_logger (Some (StdoutLogger_new cout l))"

definition init_with_file_logger ::
  "bool \<Rightarrow> string \<Rightarrow> LEVEL \<Rightarrow> BaseLogger option \<Rightarrow> BaseLogger option \<times> (log_error + unit)" where
  "init_with_file_logger opened path l g =
     (case FileLogger_new opened path l of
        Inl e \<Rightarrow> (g, Inl e)
      | Inr lg \<Rightarrow> set_global_logger (Some lg) g)"

section \<open>What is in the log\<close>

lemma log_before_init:
  "log_debug m None = (None, Inl (InstanceError ''No BaseLogger was initialized''))"
  "log_info m None = (None, Inl (InstanceError ''No BaseLogger was initialized''))"
  by (simp_all add: log_debug_def log_info_def on_global_def get_global_logger_def)

text \<open>A file that cannot be opened leaves the logger that was set before.\<close>

lemma failed_init_keeps:
  "fst (init_with_file_logger False path l g) = g"
  by (simp add: init_with_file_logger_def FileLogger_new_def Let_def)

text \<open>The log holds the lines whose level is at least the logger's, in the order of the calls.\<close>

lemma log_lines:
  "log_out (fold (\<lambda>(m, l). BaseLogger_log m l) calls lg) =
    log_out lg @ concat (map (\<lambda>(m, l). m @ [CHR 0x0A]) (filter (\<lambda>(m, l). log_level lg \<le> l) calls))"
  by (induction calls arbitrary: lg) (auto simp: BaseLogger_log_def)

end
