(* ===== verification/Spec2Isabelle.thy ===== *)
theory Spec2Isabelle
  imports Http_Message_Props Prc_Process Shared_Procs Shared_Drops Cor_Session
    Cor_Threads_Props Worker_Threads Interview Log
begin

text \<open>
  A verification development for the C++ libraries of the repository: child processes
  (\<^verbatim>\<open>1.proc\<close>), logging (\<^verbatim>\<open>2.log\<close>), TCP connections (\<^verbatim>\<open>3.tcp\<close>), a map in shared memory
  (\<^verbatim>\<open>4.shmem\<close>), an event loop over \<^verbatim>\<open>epoll\<close> (\<^verbatim>\<open>5.net\<close>), an HTTP server on threads
  (\<^verbatim>\<open>6.http\<close>) and on coroutines (\<^verbatim>\<open>7.cor\<close>), and the introductory program (\<^verbatim>\<open>0.Interview\<close>).

  \<^bold>\<open>How the parts work together.\<close> A socket is an owning descriptor; a connection is a socket
  with an address, and with two buffers in \<^verbatim>\<open>5.net\<close>; an HTTP connection adds the request, the
  keep-alive flag and the time of the last activity. The HTTP service accepts connections into
  places, queues the places whose connection is closed, and keeps the places in the order of
  their last activity; its worker threads take events of places, read and parse requests, call
  the listener and write responses. The coroutine service does the same with the code of a
  worker cut into routines. Everything is built bottom up in the same way here.

  \<^bold>\<open>Conventions.\<close> An exception is the left of a sum, a loop that does not end the \<^verbatim>\<open>None\<close> of a
  partial function, undefined behaviour an outcome with a name of its own. A system call is a
  parameter, a function of the world (\<^verbatim>\<open>Posix\<close>); what a property needs of it is a named
  hypothesis stating documented behaviour, satisfied in the witnesses by a scripted peer. Method
  calls on an object take and return the record of its data. Times are whole seconds handed in.

  \<^bold>\<open>Theories, in the order of their use.\<close>
  \<^item> \<^verbatim>\<open>Prelude\<close>, \<^verbatim>\<open>Std_String\<close>, \<^verbatim>\<open>Std_Search\<close>, \<^verbatim>\<open>Float32\<close>: exceptions as sums, searching in
    strings, \<^verbatim>\<open>std::stoi\<close> and \<^verbatim>\<open>std::stoul\<close>, \<^verbatim>\<open>std::binary_search\<close>, rounding to single precision.
  \<^item> \<^verbatim>\<open>Posix\<close>, \<^verbatim>\<open>Exact_IO\<close>, \<^verbatim>\<open>Drain_IO\<close>, \<^verbatim>\<open>Handles\<close>, \<^verbatim>\<open>Block_Heap\<close>: the interfaces. Four of
    the locales state a loop over \<^verbatim>\<open>read\<close> or \<^verbatim>\<open>write\<close> (exactly so many bytes; until the call
    would block), one an owning handle, one a heap of blocks; each is interpreted by the theory
    of the class that has the loop or the data.
  \<^item> \<^verbatim>\<open>Http_Parser\<close>, \<^verbatim>\<open>Http_Parser_Facts\<close>, \<^verbatim>\<open>Status_Code\<close>, \<^verbatim>\<open>Http_Message\<close>,
    \<^verbatim>\<open>Http_Message_Props\<close> (\<^verbatim>\<open>message.cpp\<close>, \<^verbatim>\<open>status_code.cpp\<close>): printing and parsing are
    inverse on well-formed messages, everything accepted is well formed, incomplete and wrong
    texts are told apart, with the exceptions to this.
  \<^item> \<^verbatim>\<open>Tcp_Descriptor\<close>, \<^verbatim>\<open>Tcp_Socket\<close>, \<^verbatim>\<open>Tcp_Connection\<close> (\<^verbatim>\<open>3.tcp\<close>): no descriptor leaks or is closed
    twice, exact reads and writes transfer the stream, opening cleans up on every path.
  \<^item> \<^verbatim>\<open>Prc_Process\<close> (\<^verbatim>\<open>1.proc\<close>): the descriptors of parent and child, and what a failed fork leads to.
  \<^item> \<^verbatim>\<open>Sh_Alloc\<close>, \<^verbatim>\<open>Shared_Map\<close>, \<^verbatim>\<open>Shared_Procs\<close>, \<^verbatim>\<open>Shared_Strings\<close>, \<^verbatim>\<open>Shared_Drops\<close>
    (\<^verbatim>\<open>4.shmem\<close>): live blocks are disjoint; the map refines a finite map with a fixed number of
    places, also when the steps of its calls in several processes interleave; for strings, whose
    temporaries and copies share the heap with the nodes, it refines a map that may refuse a call,
    and nothing leaks; strings that callers drop outside of the lock do not damage the table.
  \<^item> \<^verbatim>\<open>Epoll_Option\<close>, \<^verbatim>\<open>Epoll\<close>, \<^verbatim>\<open>Buf_Connection\<close>, \<^verbatim>\<open>Net_Service\<close> (\<^verbatim>\<open>5.net\<close>): masks as sets of
    events, the kernel's list of watched descriptors, the service's loop and its events.
  \<^item> \<^verbatim>\<open>Http_Connection\<close>, \<^verbatim>\<open>Http_Service\<close>, \<^verbatim>\<open>Http_Service_Props\<close>, \<^verbatim>\<open>Http_Worker\<close>,
    \<^verbatim>\<open>Http_Worker_Props\<close>, \<^verbatim>\<open>Http_Session\<close> (\<^verbatim>\<open>6.http\<close>): the service's containers as a step relation over all
    interleavings, with its invariant; an event of a worker is a run of these steps; a request is
    served however it is cut; a client is answered request by request; the paths that end in
    undefined behaviour or in an uncaught exception.
  \<^item> \<^verbatim>\<open>Coroutine\<close>, \<^verbatim>\<open>Coroutine_Machine\<close>, \<^verbatim>\<open>Coroutine_Threads\<close> (\<^verbatim>\<open>7.cor/lib/coroutine.cpp\<close>): a routine
    as a program that is resumed, and resuming is calling; the same functions as switches of
    contexts on any number of threads, which do this for one thread, are safe for disciplined
    ones, and undefined for nested routines and for those finished elsewhere.
  \<^item> \<^verbatim>\<open>Cor_Service\<close>, \<^verbatim>\<open>Cor_Worker\<close>, \<^verbatim>\<open>Cor_Worker_Props\<close>, \<^verbatim>\<open>Cor_Segments\<close>, \<^verbatim>\<open>Cor_Threads\<close>,
    \<^verbatim>\<open>Cor_Threads_Props\<close>, \<^verbatim>\<open>Cor_Session\<close> (\<^verbatim>\<open>7.cor\<close>): the service agrees with that of \<^verbatim>\<open>6.http\<close>,
    and where the worker does not; any number of workers on the machine of
    \<^verbatim>\<open>Coroutine_Machine\<close> that share the routines; a client is served as by the other worker.
  \<^item> \<^verbatim>\<open>Services_Open\<close>, \<^verbatim>\<open>Http_Run\<close>, \<^verbatim>\<open>Worker_Threads\<close>: constructing, opening and closing the
    services of \<^verbatim>\<open>5.net\<close>, \<^verbatim>\<open>6.http\<close> and \<^verbatim>\<open>7.cor\<close>; what a thread of the HTTP service comes to, and
    the worker objects from the start of their threads to the join: how a run can end.
  \<^item> \<^verbatim>\<open>Interview\<close> (\<^verbatim>\<open>0.Interview/task.cpp\<close>): what its commands print, next to what its
    \<^verbatim>\<open>README.md\<close> asks for. \<^verbatim>\<open>Log\<close> (\<^verbatim>\<open>2.log\<close>).

  \<^bold>\<open>Bounds.\<close> Ports have 16 bits, event masks 32, status codes 16, sizes of requests 64; block
  counts are rounded to 24 significant bits. No operation has fuel: the loops of the workers and
  of the exact writes are partial functions that are shown to return under their hypotheses (the
  loop of a worker's thread: not to return), and
  the loops of the services run over the list of what the system gives them turn by turn.

  \<^bold>\<open>Simplifications.\<close> A dump of the connections that timed out is one step, although the code
  lets go of the lock between looking at the front, closing it and removing it. A segment of a
  routine, from one switch to the next, is one step of its thread. The coroutine worker yields
  inside handlers, so that a caught exception is alive across a switch that may lead to another
  thread; the model ends the handler before the switch. A new routine keeps the stack and the link
  that are set before \<^verbatim>\<open>getcontext\<close>, which POSIX does not promise. A request to the allocator is a
  number that is not cut to 64 bits; the \<^verbatim>\<open>ssize_t\<close> of a \<^verbatim>\<open>read\<close> or \<^verbatim>\<open>write\<close>, which Linux keeps
  below 2^31, is not cut to \<^verbatim>\<open>int\<close>. The allocator's accesses to the block table are atomic, one
  character each. Where a property needs \<^verbatim>\<open>epoll_ctl\<close> to succeed, it does for the one open
  descriptor that the instance of \<^verbatim>\<open>epoll\<close> watches, as long as it watches it.

  \<^bold>\<open>Not modelled.\<close> The calls of the logger (they change nothing the other theories model, once
  a logger has been set: \<^verbatim>\<open>Log\<close>); data races inside an operation of the HTTP service, whose
  mutexes make it atomic, or inside a step of the coroutines; the nodes of a map of strings that
  processes share (only their accesses to the block table interleave); tests, lecture code and
  the test runner.
\<close>

end
